(* ===== verification/Go_Prelude.thy ===== *)
theory Go_Prelude
  imports
    "HOL-Library.Word"
    "HOL-Library.Multiset"
    "HOL-Library.Finite_Map"
    "HOL-Library.Sublist"
begin

text \<open>
  The vocabulary the component theories share.

  \<^item> Go's \<^verbatim>\<open>byte\<close> is \<open>8 word\<close> and \<^verbatim>\<open>[]byte\<close> a list of them; a Go \<^verbatim>\<open>string\<close> is a HOL
    \<^typ>\<open>string\<close>, whose characters are the bytes of the Go string.
  \<^item> A Go \<^verbatim>\<open>map\<close> is a finite map \<^typ>\<open>('k, 'v) fmap\<close>. Reading an absent key of a map of
    numbers gives 0 (\<open>fmget0\<close>), and a \<^verbatim>\<open>range\<close> over a map visits the keys in an order that Go
    leaves open, so a definition that ranges over a map takes that order as an argument.
  \<^item> \<^verbatim>\<open>time.Time\<close> is an integer number of nanoseconds, 0 being the zero value
    \<^verbatim>\<open>time.Time{}\<close>; a call of \<^verbatim>\<open>time.Now()\<close> is an argument \<open>now\<close>.
  \<^item> \<^verbatim>\<open>append(xs[:i], xs[i+1:]...)\<close> at the first index whose element satisfies a test is
    \<open>remove_first\<close>.
  \<^item> \<^verbatim>\<open>int64\<close> addition where the source can overflow is \<open>wrap64\<close> of the integer sum.
\<close>

unbundle bit_operations_syntax

type_synonym byte = "8 word"
type_synonym bytes = "byte list"
type_synonym time = int

named_theorems store_simps "lookups, domains and sums of the finite maps of the local store"
named_theorems wf_intros "preservation of the components' invariants"

section \<open>Shared definitions\<close>

definition bytes_of_string :: "string \<Rightarrow> bytes" where
  "bytes_of_string s = map (\<lambda>c. of_nat (of_char c)) s"

definition string_of_bytes :: "bytes \<Rightarrow> string" where
  "string_of_bytes bs = map (\<lambda>b. char_of (unat b)) bs"

definition wrap64 :: "int \<Rightarrow> int" where
  "wrap64 x = (x + 2 ^ 63) mod 2 ^ 64 - 2 ^ 63"

definition int64 :: "int \<Rightarrow> bool" where
  "int64 x \<longleftrightarrow> - (2 ^ 63) \<le> x \<and> x < 2 ^ 63"

fun remove_first :: "('a \<Rightarrow> bool) \<Rightarrow> 'a list \<Rightarrow> 'a list" where
  "remove_first P [] = []"
| "remove_first P (x # xs) = (if P x then xs else x # remove_first P xs)"

definition fmget0 :: "('k, int) fmap \<Rightarrow> 'k \<Rightarrow> int" where
  "fmget0 m k = (case fmlookup m k of None \<Rightarrow> 0 | Some v \<Rightarrow> v)"

definition fmsum :: "('k \<Rightarrow> 'v \<Rightarrow> int) \<Rightarrow> ('k, 'v) fmap \<Rightarrow> int" where
  "fmsum f m = (\<Sum>k\<in>fmdom' m. f k (the (fmlookup m k)))"

section \<open>Strings and bytes\<close>

lemma of_char_less: "(of_char c :: nat) < 256"
  by (metis char_of_char of_char_of mod_less_divisor zero_less_numeral)

lemma bytes_of_string_inverse [simp]: "string_of_bytes (bytes_of_string s) = s"
  by (simp add: string_of_bytes_def bytes_of_string_def comp_def unat_of_nat of_char_less)

lemma unat_byte_less: "unat (b :: byte) < 256"
  using unsigned_less [of b] by simp

lemma string_of_bytes_inverse [simp]: "bytes_of_string (string_of_bytes bs) = bs"
  by (simp add: string_of_bytes_def bytes_of_string_def comp_def unat_byte_less map_idI)

lemma length_bytes_of_string [simp]: "length (bytes_of_string s) = length s"
  by (simp add: bytes_of_string_def)

lemma length_string_of_bytes [simp]: "length (string_of_bytes bs) = length bs"
  by (simp add: string_of_bytes_def)

lemma bytes_of_string_inj [simp]: "bytes_of_string s = bytes_of_string t \<longleftrightarrow> s = t"
  by (metis bytes_of_string_inverse)

section \<open>64-bit integers\<close>

lemma wrap64_id [simp]: "int64 x \<Longrightarrow> wrap64 x = x"
  by (simp add: wrap64_def int64_def)

lemma int64_wrap64 [simp]: "int64 (wrap64 x)"
proof -
  have "0 \<le> (x + 2 ^ 63) mod 2 ^ 64" and "(x + 2 ^ 63) mod 2 ^ 64 < 2 ^ 64"
    by simp_all
  then show ?thesis unfolding wrap64_def int64_def by simp
qed

section \<open>Removing the first match from a slice\<close>

lemma remove_first_none [simp]: "\<forall>x\<in>set xs. \<not> P x \<Longrightarrow> remove_first P xs = xs"
  by (induction xs) auto

lemma set_remove_first: "set (remove_first P xs) \<subseteq> set xs"
  by (induction xs) auto

lemma in_set_remove_firstD: "x \<in> set (remove_first P xs) \<Longrightarrow> x \<in> set xs"
  using set_remove_first by fast

lemma in_set_remove_first_neg: "\<not> P x \<Longrightarrow> x \<in> set (remove_first P xs) \<longleftrightarrow> x \<in> set xs"
  by (induction xs) auto

lemma length_remove_first: "\<exists>x\<in>set xs. P x \<Longrightarrow> Suc (length (remove_first P xs)) = length xs"
  by (induction xs) auto

lemma length_remove_first_le: "length (remove_first P xs) \<le> length xs"
  by (induction xs) auto

lemma distinct_map_remove_first:
  "distinct (map f xs) \<Longrightarrow> distinct (map f (remove_first P xs))"
  by (induction xs) (auto dest: in_set_remove_firstD)

lemma remove_first_key:
  "distinct (map f xs) \<Longrightarrow> k \<notin> f ` set (remove_first (\<lambda>x. f x = k) xs)"
  by (induction xs) (auto split: if_splits)

lemma remove_first_filter:
  "distinct (map f xs) \<Longrightarrow> remove_first (\<lambda>x. f x = k) xs = filter (\<lambda>x. f x \<noteq> k) xs"
proof (induction xs)
  case (Cons x xs)
  then show ?case by (auto intro!: filter_True [symmetric]) (metis image_eqI)
qed simp

lemma find_Some_iff_ex: "(\<exists>x. find P xs = Some x) \<longleftrightarrow> (\<exists>x\<in>set xs. P x)"
  by (induction xs) auto

lemma find_SomeD: "find P xs = Some x \<Longrightarrow> x \<in> set xs \<and> P x"
  by (induction xs) (auto split: if_splits)

section \<open>Finite maps\<close>

lemma fmget0_upd [store_simps]: "fmget0 (fmupd k v m) j = (if j = k then v else fmget0 m j)"
  by (simp add: fmget0_def)

lemma fmget0_drop [store_simps]: "fmget0 (fmdrop k m) j = (if j = k then 0 else fmget0 m j)"
  by (simp add: fmget0_def)

lemma fmget0_empty [simp]: "fmget0 fmempty j = 0"
  by (simp add: fmget0_def)

lemma fmsum_empty [simp]: "fmsum f fmempty = 0"
  by (simp add: fmsum_def)

lemma fmsum_split: "fmlookup m k = Some v \<Longrightarrow> fmsum f m = f k v + fmsum f (fmdrop k m)"
proof -
  assume k: "fmlookup m k = Some v"
  have "fmsum f m = f k v + (\<Sum>j\<in>fmdom' m - {k}. f j (the (fmlookup m j)))"
    unfolding fmsum_def using k by (subst sum.remove [of _ k]) (auto simp: fmlookup_dom'_iff)
  also have "(\<Sum>j\<in>fmdom' m - {k}. f j (the (fmlookup m j))) = fmsum f (fmdrop k m)"
    unfolding fmsum_def by (rule sum.cong) auto
  finally show ?thesis .
qed

lemma fmsum_drop [store_simps]:
  "fmsum f (fmdrop k m) = fmsum f m - (case fmlookup m k of None \<Rightarrow> 0 | Some v \<Rightarrow> f k v)"
proof (cases "fmlookup m k")
  case None
  then have "fmdrop k m = m" by (intro fmap_ext) simp
  with None show ?thesis by simp
next
  case (Some v)
  then show ?thesis using fmsum_split [of m k v f] by simp
qed

lemma fmsum_upd [store_simps]:
  "fmsum f (fmupd k v m) = f k v + fmsum f m - (case fmlookup m k of None \<Rightarrow> 0 | Some w \<Rightarrow> f k w)"
proof -
  have "fmsum f (fmupd k v m) = f k v + fmsum f (fmdrop k (fmupd k v m))"
    by (rule fmsum_split) simp
  also have "fmdrop k (fmupd k v m) = fmdrop k m"
    by (simp add: fmdrop_fmupd_same)
  finally show ?thesis by (simp add: fmsum_drop)
qed

lemma fmsum_nonneg: "(\<And>k v. 0 \<le> f k v) \<Longrightarrow> 0 \<le> fmsum f m"
  by (simp add: fmsum_def sum_nonneg)

lemma fmsum_mono: "(\<And>k v. f k v \<le> g k v) \<Longrightarrow> fmsum f m \<le> fmsum g m"
  by (simp add: fmsum_def sum_mono)

lemma fmsum_cong:
  "(\<And>k v. fmlookup m k = Some v \<Longrightarrow> f k v = g k v) \<Longrightarrow> fmsum f m = fmsum g m"
  unfolding fmsum_def by (rule sum.cong) (auto simp: fmlookup_dom'_iff)

lemma fmsum_member_le:
  "(\<And>k v. 0 \<le> f k v) \<Longrightarrow> fmlookup m k = Some v \<Longrightarrow> f k v \<le> fmsum f m"
  using fmsum_split [of m k v f] fmsum_nonneg [of f "fmdrop k m"] by simp

end
