(* ===== verification/Go_Strings.thy ===== *)
theory Go_Strings
  imports Go_Prelude
begin

text \<open>
  The functions of Go's packages \<^verbatim>\<open>strings\<close>, \<^verbatim>\<open>strconv\<close>, \<^verbatim>\<open>encoding/hex\<close>,
  \<^verbatim>\<open>encoding/base64\<close> and \<^verbatim>\<open>encoding/binary\<close> that the sources call, with their round trips.

  Strings are byte strings. \<open>ToLower\<close>, \<open>TrimSpace\<close> and \<open>Fields\<close> act on the ASCII letters and
  the ASCII white space only: on a string with bytes from 128 on Go also folds and trims the
  letters and spaces of Unicode, which is not modelled.
\<close>

section \<open>Definitions\<close>

subsection \<open>Package strings\<close>

definition is_space :: "char \<Rightarrow> bool" where
  "is_space c \<longleftrightarrow> (of_char c :: nat) \<in> {9, 10, 11, 12, 13, 32}"

definition lower_char :: "char \<Rightarrow> char" where
  "lower_char c = (let n = (of_char c :: nat) in if 65 \<le> n \<and> n \<le> 90 then char_of (n + 32) else c)"

definition ToLower :: "string \<Rightarrow> string" where
  "ToLower s = map lower_char s"

definition trim_left :: "(char \<Rightarrow> bool) \<Rightarrow> string \<Rightarrow> string" where
  "trim_left P s = dropWhile P s"

definition trim_right :: "(char \<Rightarrow> bool) \<Rightarrow> string \<Rightarrow> string" where
  "trim_right P s = rev (dropWhile P (rev s))"

definition TrimSpace :: "string \<Rightarrow> string" where
  "TrimSpace s = trim_right is_space (trim_left is_space s)"

definition HasPrefix :: "string \<Rightarrow> string \<Rightarrow> bool" where
  "HasPrefix s p \<longleftrightarrow> take (length p) s = p"

definition HasSuffix :: "string \<Rightarrow> string \<Rightarrow> bool" where
  "HasSuffix s p \<longleftrightarrow> length p \<le> length s \<and> drop (length s - length p) s = p"

definition TrimPrefix :: "string \<Rightarrow> string \<Rightarrow> string" where
  "TrimPrefix s p = (if HasPrefix s p then drop (length p) s else s)"

definition TrimSuffix :: "string \<Rightarrow> string \<Rightarrow> string" where
  "TrimSuffix s p = (if HasSuffix s p then take (length s - length p) s else s)"

fun IndexByte :: "string \<Rightarrow> char \<Rightarrow> nat option" where
  "IndexByte [] c = None"
| "IndexByte (x # xs) c = (if x = c then Some 0 else map_option Suc (IndexByte xs c))"

fun Contains :: "string \<Rightarrow> string \<Rightarrow> bool" where
  "Contains [] p = (p = [])"
| "Contains (x # xs) p = (HasPrefix (x # xs) p \<or> Contains xs p)"

fun Split :: "string \<Rightarrow> char \<Rightarrow> string list" where
  "Split [] c = [[]]"
| "Split (x # xs) c =
     (if x = c then [] # Split xs c
      else case Split xs c of [] \<Rightarrow> [[x]] | w # ws \<Rightarrow> (x # w) # ws)"

fun Join :: "string list \<Rightarrow> string \<Rightarrow> string" where
  "Join [] sep = []"
| "Join [w] sep = w"
| "Join (w # v # ws) sep = w @ sep @ Join (v # ws) sep"

function Fields :: "string \<Rightarrow> string list" where
  "Fields s =
     (case dropWhile is_space s of
        [] \<Rightarrow> []
      | c # cs \<Rightarrow> (c # takeWhile (\<lambda>x. \<not> is_space x) cs) # Fields (dropWhile (\<lambda>x. \<not> is_space x) cs))"
  by pat_completeness auto
termination
proof (relation "measure length")
  fix s c cs
  assume s: "dropWhile is_space s = c # cs"
  have "length (dropWhile (\<lambda>x. \<not> is_space x) cs) \<le> length cs"
    by (rule length_dropWhile_le)
  moreover have "length (c # cs) \<le> length s"
    unfolding s [symmetric] by (rule length_dropWhile_le)
  ultimately show "(dropWhile (\<lambda>x. \<not> is_space x) cs, s) \<in> measure length"
    by simp
qed simp

declare Fields.simps [simp del]

subsection \<open>Package strconv: decimal numbers\<close>

definition digit_char :: "nat \<Rightarrow> char" where
  "digit_char d = char_of (48 + d)"

fun dec_nat :: "nat \<Rightarrow> string" where
  "dec_nat n = (if n < 10 then [digit_char n] else dec_nat (n div 10) @ [digit_char (n mod 10)])"

declare dec_nat.simps [simp del]

definition dec_int :: "int \<Rightarrow> string" where
  "dec_int i = (if i < 0 then CHR ''-'' # dec_nat (nat (- i)) else dec_nat (nat i))"

definition digit_val :: "char \<Rightarrow> nat option" where
  "digit_val c = (let n = (of_char c :: nat) in if 48 \<le> n \<and> n \<le> 57 then Some (n - 48) else None)"

fun parse_dec :: "nat \<Rightarrow> string \<Rightarrow> nat option" where
  "parse_dec acc [] = Some acc"
| "parse_dec acc (c # cs) =
     (case digit_val c of None \<Rightarrow> None | Some d \<Rightarrow> parse_dec (10 * acc + d) cs)"

definition ParseInt64 :: "string \<Rightarrow> int option" where
  "ParseInt64 s =
     (let v = (case s of
                 [] \<Rightarrow> None
               | c # cs \<Rightarrow>
                   if c = CHR ''-'' then if cs = [] then None else map_option (\<lambda>n. - int n) (parse_dec 0 cs)
                   else map_option int (parse_dec 0 s))
      in case v of None \<Rightarrow> None | Some i \<Rightarrow> if int64 i then Some i else None)"

subsection \<open>Package encoding/hex\<close>

definition hex_digit :: "nat \<Rightarrow> char" where
  "hex_digit n = (if n < 10 then char_of (48 + n) else char_of (87 + n))"

definition hex_val :: "char \<Rightarrow> nat option" where
  "hex_val c =
     (let n = (of_char c :: nat)
      in if 48 \<le> n \<and> n \<le> 57 then Some (n - 48)
         else if 97 \<le> n \<and> n \<le> 102 then Some (n - 87)
         else if 65 \<le> n \<and> n \<le> 70 then Some (n - 55)
         else None)"

fun hex_encode :: "bytes \<Rightarrow> string" where
  "hex_encode [] = []"
| "hex_encode (b # bs) = hex_digit (unat b div 16) # hex_digit (unat b mod 16) # hex_encode bs"

fun hex_decode :: "string \<Rightarrow> bytes option" where
  "hex_decode [] = Some []"
| "hex_decode [c] = None"
| "hex_decode (c # d # cs) =
     (case (hex_val c, hex_val d, hex_decode cs) of
        (Some h, Some l, Some bs) \<Rightarrow> Some (of_nat (16 * h + l) # bs)
      | _ \<Rightarrow> None)"

subsection \<open>Package encoding/base64, standard alphabet\<close>

definition b64_char :: "nat \<Rightarrow> char" where
  "b64_char n =
     (if n < 26 then char_of (65 + n) else if n < 52 then char_of (71 + n)
      else if n < 62 then char_of (n - 4) else if n = 62 then CHR ''+'' else CHR ''/'')"

definition b64_val :: "char \<Rightarrow> nat option" where
  "b64_val c =
     (let n = (of_char c :: nat)
      in if 65 \<le> n \<and> n \<le> 90 then Some (n - 65)
         else if 97 \<le> n \<and> n \<le> 122 then Some (n - 71)
         else if 48 \<le> n \<and> n \<le> 57 then Some (n + 4)
         else if n = 43 then Some 62
         else if n = 47 then Some 63
         else None)"

fun b64_encode :: "bool \<Rightarrow> bytes \<Rightarrow> string" where
  "b64_encode pad [] = []"
| "b64_encode pad [x] =
     [b64_char (unat x div 4), b64_char (unat x mod 4 * 16)] @ (if pad then ''=='' else [])"
| "b64_encode pad [x, y] =
     [b64_char (unat x div 4), b64_char (unat x mod 4 * 16 + unat y div 16),
      b64_char (unat y mod 16 * 4)] @ (if pad then ''='' else [])"
| "b64_encode pad (x # y # z # r) =
     [b64_char (unat x div 4), b64_char (unat x mod 4 * 16 + unat y div 16),
      b64_char (unat y mod 16 * 4 + unat z div 64), b64_char (unat z mod 64)] @ b64_encode pad r"

definition b64_1 :: "nat \<Rightarrow> nat \<Rightarrow> byte" where
  "b64_1 a b = of_nat (a * 4 + b div 16)"

definition b64_2 :: "nat \<Rightarrow> nat \<Rightarrow> byte" where
  "b64_2 b c = of_nat (b mod 16 * 16 + c div 4)"

definition b64_3 :: "nat \<Rightarrow> nat \<Rightarrow> byte" where
  "b64_3 c d = of_nat (c mod 4 * 64 + d)"

fun b64_quanta :: "bool \<Rightarrow> string \<Rightarrow> bytes option" where
  "b64_quanta pad [] = Some []"
| "b64_quanta pad [p, q] =
     (if pad then None
      else case (b64_val p, b64_val q) of (Some a, Some b) \<Rightarrow> Some [b64_1 a b] | _ \<Rightarrow> None)"
| "b64_quanta pad [p, q, r] =
     (if pad then None
      else case (b64_val p, b64_val q, b64_val r) of
             (Some a, Some b, Some c) \<Rightarrow> Some [b64_1 a b, b64_2 b c] | _ \<Rightarrow> None)"
| "b64_quanta pad (p # q # r # s # cs) =
     (case (b64_val p, b64_val q) of
        (Some a, Some b) \<Rightarrow>
          if pad \<and> r = CHR ''='' then (if s = CHR ''='' \<and> cs = [] then Some [b64_1 a b] else None)
          else (case b64_val r of
                  None \<Rightarrow> None
                | Some c \<Rightarrow>
                    if pad \<and> s = CHR ''='' then (if cs = [] then Some [b64_1 a b, b64_2 b c] else None)
                    else (case (b64_val s, b64_quanta pad cs) of
                            (Some d, Some bs) \<Rightarrow> Some (b64_1 a b # b64_2 b c # b64_3 c d # bs)
                          | _ \<Rightarrow> None))
      | _ \<Rightarrow> None)"
| "b64_quanta pad [p] = None"

text \<open>
  \<^verbatim>\<open>StdEncoding\<close> pads with \<^verbatim>\<open>=\<close>, \<^verbatim>\<open>RawStdEncoding\<close> does not; both decoders skip carriage
  returns and line feeds.
\<close>

definition b64_decode :: "bool \<Rightarrow> string \<Rightarrow> bytes option" where
  "b64_decode pad s = b64_quanta pad (filter (\<lambda>c. (of_char c :: nat) \<notin> {10, 13}) s)"

subsection \<open>Package encoding/binary, big endian\<close>

definition be16 :: "nat \<Rightarrow> bytes" where
  "be16 n = [of_nat (n div 256), of_nat n]"

definition be32 :: "nat \<Rightarrow> bytes" where
  "be32 n = [of_nat (n div 2 ^ 24), of_nat (n div 2 ^ 16), of_nat (n div 2 ^ 8), of_nat n]"

fun be_nat :: "bytes \<Rightarrow> nat" where
  "be_nat [] = 0"
| "be_nat (b # bs) = unat b * 256 ^ length bs + be_nat bs"

section \<open>Characters\<close>

lemma of_char_char_of [simp]: "n < 256 \<Longrightarrow> (of_char (char_of n) :: nat) = n"
  by simp

lemma char_eq_iff: "c = d \<longleftrightarrow> (of_char c :: nat) = of_char d"
  by (metis char_of_char)

lemma lower_char_idem [simp]: "lower_char (lower_char c) = lower_char c"
  by (auto simp: lower_char_def Let_def)

lemma is_space_lower [simp]: "is_space (lower_char c) = is_space c"
  by (auto simp: is_space_def lower_char_def Let_def)

lemma ToLower_idem [simp]: "ToLower (ToLower s) = ToLower s"
  by (simp add: ToLower_def)

lemma length_ToLower [simp]: "length (ToLower s) = length s"
  by (simp add: ToLower_def)

lemma ToLower_append: "ToLower (s @ t) = ToLower s @ ToLower t"
  by (simp add: ToLower_def)

section \<open>Trimming\<close>

lemma dropWhile_map_inv: "(\<And>x. P (f x) = P x) \<Longrightarrow> dropWhile P (map f xs) = map f (dropWhile P xs)"
  by (induction xs) auto

lemma TrimSpace_ToLower: "TrimSpace (ToLower s) = ToLower (TrimSpace s)"
  by (simp add: TrimSpace_def trim_left_def trim_right_def ToLower_def dropWhile_map_inv rev_map)

lemma dropWhile_nospace: "s = [] \<or> \<not> P (hd s) \<Longrightarrow> dropWhile P s = s"
  by (cases s) auto

lemma TrimSpace_id: "s = [] \<or> \<not> is_space (hd s) \<and> \<not> is_space (last s) \<Longrightarrow> TrimSpace s = s"
  by (auto simp: TrimSpace_def trim_left_def trim_right_def dropWhile_nospace hd_rev)

lemma hd_dropWhile_not: "dropWhile P s \<noteq> [] \<Longrightarrow> \<not> P (hd (dropWhile P s))"
  by (rule hd_dropWhile)

lemma TrimSpace_ends:
  assumes "TrimSpace s \<noteq> []"
  shows "\<not> is_space (hd (TrimSpace s)) \<and> \<not> is_space (last (TrimSpace s))"
proof -
  define u where "u = dropWhile is_space s"
  define v where "v = dropWhile is_space (rev u)"
  have t: "TrimSpace s = rev v"
    by (simp add: TrimSpace_def trim_left_def trim_right_def u_def v_def)
  with assms have v: "v \<noteq> []" by simp
  have "\<not> is_space (hd v)"
    using v hd_dropWhile_not [of is_space "rev u"] by (simp add: v_def)
  moreover have "\<not> is_space (last v)"
  proof -
    have "u \<noteq> []" using v by (auto simp: v_def)
    then have "\<not> is_space (hd u)" by (simp add: u_def hd_dropWhile_not)
    moreover obtain w where "rev u = w @ v"
      unfolding v_def by (metis takeWhile_dropWhile_id)
    then have "last v = hd u" using v by (metis hd_rev last_appendR rev_rev_ident)
    ultimately show ?thesis by simp
  qed
  ultimately show ?thesis
    using v by (simp add: t hd_rev last_rev)
qed

lemma TrimSpace_idem [simp]: "TrimSpace (TrimSpace s) = TrimSpace s"
  by (rule TrimSpace_id) (use TrimSpace_ends in blast)

section \<open>Splitting and joining\<close>

lemma Split_nonempty [simp]: "Split s c \<noteq> []"
  by (induction s c rule: Split.induct) (auto split: list.splits)

lemma Join_Cons: "ws \<noteq> [] \<Longrightarrow> Join (w # ws) sep = w @ sep @ Join ws sep"
  by (cases ws) auto

lemma Join_Split: "Join (Split s c) [c] = s"
proof (induction s c rule: Split.induct)
  case (2 x xs c)
  obtain w ws where sp: "Split xs c = w # ws" by (cases "Split xs c") auto
  show ?case
  proof (cases "x = c")
    case True
    then show ?thesis using "2.IH" by (simp add: Join_Cons)
  next
    case False
    then show ?thesis using "2.IH" sp by (cases ws) auto
  qed
qed simp

lemma Split_no_sep: "w \<in> set (Split s c) \<Longrightarrow> c \<notin> set w"
  by (induction s c arbitrary: w rule: Split.induct) (auto split: if_splits list.splits)

lemma Split_no: "c \<notin> set s \<Longrightarrow> Split s c = [s]"
  by (induction s c rule: Split.induct) auto

lemma Split_append_sep: "c \<notin> set w \<Longrightarrow> Split (w @ c # s) c = w # Split s c"
  by (induction w) auto

lemma Split_Join:
  "ws \<noteq> [] \<Longrightarrow> (\<And>w. w \<in> set ws \<Longrightarrow> c \<notin> set w) \<Longrightarrow> Split (Join ws [c]) c = ws"
proof (induction ws "[c]" rule: Join.induct)
  case (3 w v ws)
  then show ?case by (simp add: Split_append_sep)
qed (auto simp: Split_no)

section \<open>Decimal numbers\<close>

lemma digit_val_char [simp]: "d < 10 \<Longrightarrow> digit_val (digit_char d) = Some d"
  by (simp add: digit_val_def digit_char_def Let_def)

lemma digit_char_code [simp]: "d < 10 \<Longrightarrow> (of_char (digit_char d) :: nat) = 48 + d"
  by (simp add: digit_char_def)

lemma dec_nat_nonempty [simp]: "dec_nat n \<noteq> []"
  by (subst dec_nat.simps) simp

lemma dec_nat_digits: "c \<in> set (dec_nat n) \<Longrightarrow> 48 \<le> (of_char c :: nat) \<and> (of_char c :: nat) \<le> 57"
proof (induction n rule: dec_nat.induct)
  case (1 n)
  show ?case
  proof (cases "n < 10")
    case True
    with "1.prems" show ?thesis by (subst (asm) dec_nat.simps) auto
  next
    case False
    with "1.prems" have "c \<in> set (dec_nat (n div 10)) \<or> c = digit_char (n mod 10)"
      by (subst (asm) dec_nat.simps) auto
    then show ?thesis using "1.IH" [OF False] by auto
  qed
qed

lemma parse_dec_append: "parse_dec acc (s @ t) =
    (case parse_dec acc s of None \<Rightarrow> None | Some a \<Rightarrow> parse_dec a t)"
  by (induction acc s rule: parse_dec.induct) (auto split: option.splits)

lemma parse_dec_dec_nat: "parse_dec 0 (dec_nat n) = Some n"
proof (induction n rule: dec_nat.induct)
  case (1 n)
  show ?case
  proof (cases "n < 10")
    case True
    then show ?thesis by (subst dec_nat.simps) simp
  next
    case False
    then show ?thesis using "1.IH" [OF False]
      by (subst dec_nat.simps) (simp add: parse_dec_append)
  qed
qed

lemma dec_nat_inj: "dec_nat m = dec_nat n \<Longrightarrow> m = n"
  by (metis parse_dec_dec_nat option.inject)

lemma dec_nat_hd_not_minus: "hd (dec_nat n) \<noteq> CHR ''-''"
  using dec_nat_digits [of "hd (dec_nat n)" n] by (auto simp: char_eq_iff)

theorem ParseInt64_dec_int: "int64 i \<Longrightarrow> ParseInt64 (dec_int i) = Some i"
proof (cases "i < 0")
  case True
  assume "int64 i"
  with True show ?thesis
    by (simp add: ParseInt64_def dec_int_def parse_dec_dec_nat)
next
  case False
  assume i: "int64 i"
  obtain c cs where d: "dec_nat (nat i) = c # cs" by (cases "dec_nat (nat i)") auto
  with dec_nat_hd_not_minus [of "nat i"] have "c \<noteq> CHR ''-''" by simp
  with False d i parse_dec_dec_nat [of "nat i"] show ?thesis
    by (simp add: ParseInt64_def dec_int_def)
qed

lemma dec_int_inj: "dec_int i = dec_int j \<Longrightarrow> i = j"
proof -
  have hd: "dec_nat n \<noteq> CHR ''-'' # s" for n s
    using dec_nat_hd_not_minus [of n] by auto
  assume "dec_int i = dec_int j"
  then show "i = j"
    by (auto simp: dec_int_def hd hd [symmetric] split: if_splits dest!: dec_nat_inj)
qed

lemma dec_int_chars: "c \<in> set (dec_int i) \<Longrightarrow> c = CHR ''-'' \<or> 48 \<le> (of_char c :: nat) \<and> (of_char c :: nat) \<le> 57"
  by (auto simp: dec_int_def split: if_splits dest: dec_nat_digits)

section \<open>Hexadecimal\<close>

lemma hex_val_digit [simp]: "n < 16 \<Longrightarrow> hex_val (hex_digit n) = Some n"
  by (simp add: hex_val_def hex_digit_def Let_def)

lemma length_hex_encode [simp]: "length (hex_encode bs) = 2 * length bs"
  by (induction bs) auto

lemma length_hex_decode: "hex_decode s = Some bs \<Longrightarrow> length s = 2 * length bs"
  by (induction s arbitrary: bs rule: hex_decode.induct) (auto split: option.splits)

lemma hex_decode_encode [simp]: "hex_decode (hex_encode bs) = Some bs"
proof (induction bs)
  case (Cons b bs)
  have "unat b div 16 < 16" using unat_byte_less [of b] by simp
  with Cons show ?case by simp
qed simp

lemma hex_encode_inj [simp]: "hex_encode a = hex_encode b \<longleftrightarrow> a = b"
  by (metis hex_decode_encode option.inject)

lemma hex_val_lower: "hex_val c = Some n \<Longrightarrow> n < 16 \<and> hex_digit n = lower_char c"
proof -
  assume v: "hex_val c = Some n"
  define m where "m = (of_char c :: nat)"
  have c: "c = char_of m" by (simp add: m_def)
  from v have "48 \<le> m \<and> m \<le> 57 \<and> n = m - 48 \<or> 97 \<le> m \<and> m \<le> 102 \<and> n = m - 87
      \<or> 65 \<le> m \<and> m \<le> 70 \<and> n = m - 55"
    by (auto simp: hex_val_def Let_def m_def split: if_splits)
  then show ?thesis
    by (elim disjE conjE) (auto simp: hex_digit_def lower_char_def c)
qed

lemma hex_val_lower_char [simp]: "hex_val (lower_char c) = hex_val c"
  by (auto simp: hex_val_def lower_char_def Let_def)

lemma hex_decode_ToLower [simp]: "hex_decode (ToLower s) = hex_decode s"
  by (induction s rule: hex_decode.induct) (auto simp: ToLower_def split: option.splits)

lemma hex_encode_decode: "hex_decode s = Some bs \<Longrightarrow> hex_encode bs = ToLower s"
proof (induction s arbitrary: bs rule: hex_decode.induct)
  case (3 c d cs)
  then obtain h l bs' where v: "hex_val c = Some h" "hex_val d = Some l"
    and r: "hex_decode cs = Some bs'" and bs: "bs = of_nat (16 * h + l) # bs'"
    by (auto split: option.splits)
  have h: "h < 16" "hex_digit h = lower_char c" and l: "l < 16" "hex_digit l = lower_char d"
    using hex_val_lower v by blast+
  have "unat (of_nat (16 * h + l) :: byte) = 16 * h + l"
    using h l by (simp add: unat_of_nat del: of_nat_add of_nat_mult)
  then show ?case using bs h l "3.IH" [OF r] v r by (simp add: ToLower_def)
qed (auto simp: ToLower_def)

section \<open>Base64\<close>

lemma b64_val_char [simp]: "n < 64 \<Longrightarrow> b64_val (b64_char n) = Some n"
  by (auto simp: b64_val_def b64_char_def Let_def)

lemma b64_char_code: "n < 64 \<Longrightarrow> 43 \<le> (of_char (b64_char n) :: nat) \<and> (of_char (b64_char n) :: nat) \<noteq> 61"
  by (auto simp: b64_char_def)

lemma b64_char_not_pad [simp]: "n < 64 \<Longrightarrow> b64_char n \<noteq> CHR ''=''"
  using b64_char_code [of n] by (auto simp: char_eq_iff)

lemma b64_bytes:
  "b64_1 (unat x div 4) (unat x mod 4 * 16) = x"
  "b64_1 (unat x div 4) (unat x mod 4 * 16 + unat y div 16) = (x :: byte)"
  "b64_2 (unat x mod 4 * 16 + unat y div 16) (unat y mod 16 * 4) = (y :: byte)"
  "b64_2 (unat x mod 4 * 16 + unat y div 16) (unat y mod 16 * 4 + unat z div 64) = y"
  "b64_3 (unat y mod 16 * 4 + unat z div 64) (unat z mod 64) = (z :: byte)"
proof -
  have lt: "unat x < 256" "unat y < 256" "unat z < 256" by (rule unat_byte_less)+
  have 1: "unat x div 4 * 4 + (unat x mod 4 * 16) div 16 = unat x" by simp
  have 2: "unat x div 4 * 4 + (unat x mod 4 * 16 + unat y div 16) div 16 = unat x"
    using lt by simp
  have 3: "(unat x mod 4 * 16 + unat y div 16) mod 16 * 16 + (unat y mod 16 * 4) div 4 = unat y"
    using lt by simp
  have 4: "(unat x mod 4 * 16 + unat y div 16) mod 16 * 16 + (unat y mod 16 * 4 + unat z div 64) div 4 = unat y"
    using lt by simp
  have 5: "(unat y mod 16 * 4 + unat z div 64) mod 4 * 64 + unat z mod 64 = unat z"
    using lt by simp
  show "b64_1 (unat x div 4) (unat x mod 4 * 16) = x"
    "b64_1 (unat x div 4) (unat x mod 4 * 16 + unat y div 16) = x"
    "b64_2 (unat x mod 4 * 16 + unat y div 16) (unat y mod 16 * 4) = y"
    "b64_2 (unat x mod 4 * 16 + unat y div 16) (unat y mod 16 * 4 + unat z div 64) = y"
    "b64_3 (unat y mod 16 * 4 + unat z div 64) (unat z mod 64) = z"
    unfolding b64_1_def b64_2_def b64_3_def 1 2 3 4 5 by simp_all
qed

lemma b64_bounds:
  "unat (x :: byte) div 4 < 64" "unat x mod 4 * 16 < 64" "unat x mod 4 * 16 + unat (y :: byte) div 16 < 64"
  "unat y mod 16 * 4 < 64" "unat y mod 16 * 4 + unat (z :: byte) div 64 < 64" "unat z mod 64 < 64"
proof -
  have lt: "unat x < 256" "unat y < 256" "unat z < 256" by (rule unat_byte_less)+
  then have "unat y div 16 < 16" "unat z div 64 < 4" "unat x mod 4 < 4" "unat y mod 16 < 16" by auto
  with lt show "unat x div 4 < 64" "unat x mod 4 * 16 < 64" "unat x mod 4 * 16 + unat y div 16 < 64"
    "unat y mod 16 * 4 < 64" "unat y mod 16 * 4 + unat z div 64 < 64" "unat z mod 64 < 64"
    by linarith+
qed

lemma b64_quanta_encode: "b64_quanta pad (b64_encode pad bs) = Some bs"
  by (induction pad bs rule: b64_encode.induct) (simp_all add: b64_bounds b64_bytes)

lemma b64_encode_chars: "c \<in> set (b64_encode pad bs) \<Longrightarrow> 43 \<le> (of_char c :: nat)"
proof (induction pad bs rule: b64_encode.induct)
  case (2 pad x)
  then show ?case using b64_char_code [OF b64_bounds(1) [of x]] b64_char_code [OF b64_bounds(2) [of x]]
    by (auto split: if_splits)
next
  case (3 pad x y)
  then show ?case using b64_char_code [OF b64_bounds(1) [of x]] b64_char_code [OF b64_bounds(3) [of x y]]
      b64_char_code [OF b64_bounds(4) [of y]]
    by (auto split: if_splits)
next
  case (4 pad x y z r)
  then show ?case using b64_char_code [OF b64_bounds(1) [of x]] b64_char_code [OF b64_bounds(3) [of x y]]
      b64_char_code [OF b64_bounds(5) [of y z]] b64_char_code [OF b64_bounds(6) [of z]]
    by auto
qed simp

theorem b64_decode_encode [simp]: "b64_decode pad (b64_encode pad bs) = Some bs"
proof -
  have "filter (\<lambda>c. (of_char c :: nat) \<notin> {10, 13}) (b64_encode pad bs) = b64_encode pad bs"
    by (rule filter_True) (use b64_encode_chars in fastforce)
  then show ?thesis by (simp add: b64_decode_def b64_quanta_encode)
qed

section \<open>Big-endian integers\<close>

lemma length_be16 [simp]: "length (be16 n) = 2"
  by (simp add: be16_def)

lemma length_be32 [simp]: "length (be32 n) = 4"
  by (simp add: be32_def)

lemma be_nat_be16: "n < 2 ^ 16 \<Longrightarrow> be_nat (be16 n) = n"
  by (simp add: be16_def unat_of_nat)

lemma be_nat_be32: "n < 2 ^ 32 \<Longrightarrow> be_nat (be32 n) = n"
proof -
  assume n: "n < 2 ^ 32"
  have "n div 2 ^ 24 mod 256 * 256 ^ 3 + (n div 2 ^ 16 mod 256 * 256 ^ 2 + (n div 2 ^ 8 mod 256 * 256 + n mod 256)) = n"
  proof -
    have a: "n div 2 ^ 8 div 256 = n div 2 ^ 16" and b: "n div 2 ^ 16 div 256 = n div 2 ^ 24"
      by (simp_all add: div_mult2_eq [symmetric])
    have c: "n div 2 ^ 24 mod 256 = n div 2 ^ 24" using n by simp
    have d: "n = 256 * (n div 2 ^ 8) + n mod 256" by simp
    have e: "n div 2 ^ 8 = 256 * (n div 2 ^ 16) + n div 2 ^ 8 mod 256" using a by (metis div_mod_decomp mult.commute)
    have f: "n div 2 ^ 16 = 256 * (n div 2 ^ 24) + n div 2 ^ 16 mod 256" using b by (metis div_mod_decomp mult.commute)
    have "n = 256 * (256 * (256 * (n div 2 ^ 24) + n div 2 ^ 16 mod 256) + n div 2 ^ 8 mod 256) + n mod 256"
      unfolding e [symmetric] f [symmetric] by (rule d)
    then show ?thesis unfolding c by (simp add: distrib_left)
  qed
  with n show ?thesis by (simp add: be32_def unat_of_nat)
qed

lemma be_nat_less: "be_nat bs < 256 ^ length bs"
proof (induction bs)
  case (Cons b bs)
  have "unat b \<le> 255" using unat_byte_less [of b] by simp
  then have "unat b * 256 ^ length bs \<le> 255 * 256 ^ length bs" by (rule mult_right_mono) simp
  moreover have "(256 :: nat) ^ length (b # bs) = 255 * 256 ^ length bs + 256 ^ length bs" by simp
  ultimately show ?case using Cons unfolding be_nat.simps by linarith
qed simp

end
