(* ===== verification/Node_Ids.thy ===== *)
theory Node_Ids
  imports Go_Strings
begin

text \<open>
  \<^verbatim>\<open>core/dht/id.go\<close>: node identifiers, their XOR distance and their common prefix.

  The Go type \<^verbatim>\<open>[32]byte\<close> is the type \<open>NodeID\<close> of the byte lists of length 32. The loops over
  the 32 positions are recursions over the byte lists (\<open>equal_loop\<close>, \<open>cpl_loop\<close>,
  \<open>less_loop\<close>). The lemmas show that the distance is a metric, that the bytewise comparison
  \<open>DistanceLess\<close> compares the distances as 256-bit integers, and which distances a common prefix
  length stands for.
\<close>

section \<open>Definitions\<close>

definition IDSize :: nat where
  "IDSize = 32"

typedef NodeID = "{bs :: bytes. length bs = IDSize}" morphisms id_bytes Abs_NodeID
  by (rule exI [of _ "replicate IDSize 0"]) simp

declare id_bytes_inverse [code abstype]

instantiation NodeID :: equal
begin

definition equal_NodeID :: "NodeID \<Rightarrow> NodeID \<Rightarrow> bool" where
  "equal_NodeID a b \<longleftrightarrow> id_bytes a = id_bytes b"

instance
  by standard (simp add: equal_NodeID_def id_bytes_inject)

end

text \<open>\<^verbatim>\<open>copy(id[:], raw)\<close> into the zero value of the array.\<close>

definition id_copy :: "bytes \<Rightarrow> NodeID" where
  "id_copy bs = Abs_NodeID (take IDSize (bs @ replicate IDSize 0))"

datatype id_error = ErrHex | ErrIdLength

definition IDFromHex :: "string \<Rightarrow> id_error + NodeID" where
  "IDFromHex s =
     (case hex_decode s of
        None \<Rightarrow> Inl ErrHex
      | Some raw \<Rightarrow> if length raw \<noteq> IDSize then Inl ErrIdLength else Inr (id_copy raw))"

definition Hex :: "NodeID \<Rightarrow> string" where
  "Hex n = hex_encode (id_bytes n)"

definition ID_String :: "NodeID \<Rightarrow> string" where
  "ID_String n = take 8 (Hex n)"

fun equal_loop :: "bytes \<Rightarrow> bytes \<Rightarrow> bool" where
  "equal_loop (a # as) (b # bs) = (if a \<noteq> b then False else equal_loop as bs)"
| "equal_loop _ _ = True"

definition Equal :: "NodeID \<Rightarrow> NodeID \<Rightarrow> bool" where
  "Equal n other = equal_loop (id_bytes n) (id_bytes other)"

definition ID_XOR :: "NodeID \<Rightarrow> NodeID \<Rightarrow> NodeID" where
  "ID_XOR n other = id_copy (map2 (XOR) (id_bytes n) (id_bytes other))"

definition first_set_bit :: "byte \<Rightarrow> nat option" where
  "first_set_bit x = find (\<lambda>j. x AND push_bit (7 - j) 1 \<noteq> 0) [0..<8]"

fun cpl_loop :: "nat \<Rightarrow> bytes \<Rightarrow> bytes \<Rightarrow> nat" where
  "cpl_loop i (a # as) (b # bs) =
     (let x = a XOR b
      in if x = 0 then cpl_loop (Suc i) as bs
         else (case first_set_bit x of
                 Some j \<Rightarrow> i * 8 + j
               | None \<Rightarrow> cpl_loop (Suc i) as bs))"
| "cpl_loop i _ _ = IDSize * 8"

definition CommonPrefixLen :: "NodeID \<Rightarrow> NodeID \<Rightarrow> nat" where
  "CommonPrefixLen n other = cpl_loop 0 (id_bytes n) (id_bytes other)"

fun less_loop :: "bytes \<Rightarrow> bytes \<Rightarrow> bytes \<Rightarrow> bool" where
  "less_loop (s # ss) (a # as) (b # bs) =
     (let da = s XOR a; db = s XOR b
      in if da \<noteq> db then da < db else less_loop ss as bs)"
| "less_loop _ _ _ = False"

definition DistanceLess :: "NodeID \<Rightarrow> NodeID \<Rightarrow> NodeID \<Rightarrow> bool" where
  "DistanceLess self a b = less_loop (id_bytes self) (id_bytes a) (id_bytes b)"

definition distanceBigInt :: "NodeID \<Rightarrow> NodeID \<Rightarrow> nat" where
  "distanceBigInt a b = be_nat (id_bytes (ID_XOR a b))"

section \<open>The fixed-size array\<close>

lemma length_id_bytes [simp]: "length (id_bytes n) = IDSize"
  using id_bytes [of n] by simp

lemma id_bytes_id_copy_take [code abstract]:
  "id_bytes (id_copy bs) = take IDSize (bs @ replicate IDSize 0)"
  by (simp add: id_copy_def Abs_NodeID_inverse)

lemma id_bytes_id_copy: "length bs = IDSize \<Longrightarrow> id_bytes (id_copy bs) = bs"
  by (simp add: id_bytes_id_copy_take)

lemma id_copy_id_bytes [simp]: "id_copy (id_bytes n) = n"
  by (simp add: id_bytes_inject [symmetric] id_bytes_id_copy)

lemma NodeID_eq_iff: "a = b \<longleftrightarrow> id_bytes a = id_bytes b"
  by (simp add: id_bytes_inject)

lemma length_Hex [simp]: "length (Hex n) = 64"
  by (simp add: Hex_def IDSize_def)

lemma Hex_inj [simp]: "Hex a = Hex b \<longleftrightarrow> a = b"
  by (simp add: Hex_def NodeID_eq_iff)

lemma Hex_nonempty [simp]: "Hex n \<noteq> []"
  by (metis length_Hex list.size(3) zero_neq_numeral)

lemma IDFromHex_Hex [simp]: "IDFromHex (Hex n) = Inr n"
  by (simp add: IDFromHex_def Hex_def)

lemma IDFromHex_Inr: "IDFromHex s = Inr n \<Longrightarrow> Hex n = ToLower s"
  by (auto simp: IDFromHex_def Hex_def id_bytes_id_copy hex_encode_decode split: option.splits if_splits)

lemma IDFromHex_ToLower [simp]: "IDFromHex (ToLower s) = IDFromHex s"
  by (simp add: IDFromHex_def)

lemma IDFromHex_Inr_iff: "IDFromHex s = Inr n \<longleftrightarrow> (\<exists>raw. hex_decode s = Some raw \<and> id_bytes n = raw)"
  by (auto simp: IDFromHex_def id_bytes_id_copy split: option.splits)

lemma equal_loop_iff: "length as = length bs \<Longrightarrow> equal_loop as bs \<longleftrightarrow> as = bs"
  by (induction as bs rule: equal_loop.induct) auto

lemma Equal_iff [simp]: "Equal a b \<longleftrightarrow> a = b"
  by (simp add: Equal_def equal_loop_iff NodeID_eq_iff)

lemma id_bytes_XOR: "id_bytes (ID_XOR a b) = map2 (XOR) (id_bytes a) (id_bytes b)"
  by (simp add: ID_XOR_def id_bytes_id_copy)

lemma distanceBigInt_alt: "distanceBigInt a b = be_nat (map2 (XOR) (id_bytes a) (id_bytes b))"
  by (simp add: distanceBigInt_def id_bytes_XOR)


section \<open>The distance is a metric\<close>

lemma xor_nat_le_add: "(m XOR n :: nat) \<le> m + n"
proof (induction m arbitrary: n rule: less_induct)
  case (less m)
  show ?case
  proof (cases "m = 0")
    case False
    then have "m div 2 < m" by simp
    then have "(m div 2) XOR (n div 2) \<le> m div 2 + n div 2" by (rule less.IH)
    moreover have "(m XOR n) = of_bool (odd m \<noteq> odd n) + 2 * ((m div 2) XOR (n div 2))"
      by (subst xor_rec) simp
    moreover have "m = of_bool (odd m) + 2 * (m div 2)" "n = of_bool (odd n) + 2 * (n div 2)"
      by (auto simp: of_bool_odd_eq_mod_2)
    moreover have "(of_bool (odd m \<noteq> odd n) :: nat) \<le> of_bool (odd m) + of_bool (odd n)" by simp
    ultimately show ?thesis by linarith
  qed simp
qed

lemma unat_xor_le: "unat ((x :: byte) XOR y) \<le> unat x + unat y"
  using xor_nat_le_add [of "unat x" "unat y"] by (simp add: unsigned_xor_eq)

lemma be_nat_xor_le:
  "length us = length vs \<Longrightarrow> be_nat (map2 (XOR) us vs) \<le> be_nat us + be_nat vs"
proof (induction us vs rule: list_induct2)
  case (Cons x us y vs)
  have "unat (x XOR y) * 256 ^ length us \<le> (unat x + unat y) * 256 ^ length us"
    by (rule mult_right_mono [OF unat_xor_le]) simp
  with Cons show ?case by (simp add: distrib_right)
qed simp

lemma map2_xor_triangle:
  "length as = length bs \<Longrightarrow> length bs = length cs \<Longrightarrow>
    map2 (XOR) as (cs :: bytes) = map2 (XOR) (map2 (XOR) as bs) (map2 (XOR) bs cs)"
  by (induction as bs cs rule: list_induct3) (simp_all add: xor.left_commute xor.commute xor.assoc)

lemma distance_sym: "distanceBigInt a b = distanceBigInt b a"
proof -
  have "map2 (XOR) as bs = map2 (XOR) bs as" if "length as = length bs" for as bs :: bytes
    using that by (induction as bs rule: list_induct2) (simp_all add: xor.commute)
  then show ?thesis by (simp add: distanceBigInt_alt)
qed

lemma xor_byte_cancel: "(s :: byte) XOR x = s XOR y \<longleftrightarrow> x = y"
proof
  assume "s XOR x = s XOR y"
  then have "s XOR (s XOR x) = s XOR (s XOR y)" by (rule arg_cong)
  then show "x = y" by (simp add: xor.assoc [symmetric])
qed simp

lemma xor_byte_0: "(x :: byte) XOR y = 0 \<longleftrightarrow> x = y"
  using xor_byte_cancel [of x y x] by auto

lemma be_nat_xor_0: "length as = length bs \<Longrightarrow> be_nat (map2 (XOR) as bs) = 0 \<longleftrightarrow> as = bs"
  by (induction as bs rule: list_induct2) (auto simp: unat_eq_zero xor_byte_0)

lemma distance_0_iff: "distanceBigInt a b = 0 \<longleftrightarrow> a = b"
  by (simp add: distanceBigInt_alt be_nat_xor_0 NodeID_eq_iff)

lemma distance_triangle: "distanceBigInt a c \<le> distanceBigInt a b + distanceBigInt b c"
proof -
  have "map2 (XOR) (id_bytes a) (id_bytes c)
      = map2 (XOR) (map2 (XOR) (id_bytes a) (id_bytes b)) (map2 (XOR) (id_bytes b) (id_bytes c))"
    by (rule map2_xor_triangle) simp_all
  then show ?thesis by (simp add: distanceBigInt_alt be_nat_xor_le)
qed

section \<open>The bytewise comparison compares the distances\<close>

lemma be_nat_less_Cons:
  assumes "length us = length vs"
  shows "be_nat (x # us) < be_nat (y # vs) \<longleftrightarrow> x < y \<or> x = y \<and> be_nat us < be_nat vs"
proof -
  have lt: "be_nat us < 256 ^ length vs" "be_nat vs < 256 ^ length vs"
    using be_nat_less [of us] be_nat_less [of vs] assms by simp_all
  have strict: "unat p * 256 ^ length vs + c < unat q * 256 ^ length vs + d"
    if "unat p < unat q" "c < 256 ^ length vs" for p q :: byte and c d :: nat
  proof -
    have "Suc (unat p) * 256 ^ length vs \<le> unat q * 256 ^ length vs"
      using that(1) by (intro mult_right_mono) simp_all
    with that(2) show ?thesis by simp
  qed
  show ?thesis
  proof (cases "x = y")
    case False
    then have "unat x < unat y \<or> unat y < unat x" by (metis linorder_neqE_nat word_unat_eq_iff)
    with strict [of x y "be_nat us" "be_nat vs"] strict [of y x "be_nat vs" "be_nat us"] lt assms False
    show ?thesis by (auto simp: word_less_nat_alt)
  qed (simp add: assms)
qed

lemma less_loop_iff:
  "length ss = length as \<Longrightarrow> length as = length bs \<Longrightarrow>
    less_loop ss as bs \<longleftrightarrow> be_nat (map2 (XOR) ss as) < be_nat (map2 (XOR) ss bs)"
proof (induction ss as bs rule: list_induct3)
  case (Cons s ss a as b bs)
  have "be_nat (map2 (XOR) (s # ss) (a # as)) < be_nat (map2 (XOR) (s # ss) (b # bs)) \<longleftrightarrow>
      s XOR a < s XOR b \<or> s XOR a = s XOR b \<and> be_nat (map2 (XOR) ss as) < be_nat (map2 (XOR) ss bs)"
    unfolding list.map zip_Cons_Cons prod.case by (rule be_nat_less_Cons) (simp add: Cons)
  then show ?case by (auto simp: Cons.IH Let_def)
qed simp

lemma DistanceLess_iff: "DistanceLess self a b \<longleftrightarrow> distanceBigInt self a < distanceBigInt self b"
  by (simp add: DistanceLess_def distanceBigInt_alt less_loop_iff)

lemma distance_inj: "distanceBigInt s a = distanceBigInt s b \<longleftrightarrow> a = b"
proof
  assume eq: "distanceBigInt s a = distanceBigInt s b"
  have "as = bs" if "length ss = length as" "length as = length bs"
    and "be_nat (map2 (XOR) ss as) = be_nat (map2 (XOR) ss bs)" for ss as bs :: bytes
    using that
  proof (induction ss as bs rule: list_induct3)
    case (Cons s ss a as b bs)
    let ?u = "map2 (XOR) ss as" and ?v = "map2 (XOR) ss bs"
    have "length ?u = length ?v" using Cons by simp
    from be_nat_less_Cons [OF this, of "s XOR a" "s XOR b"]
      be_nat_less_Cons [OF this [symmetric], of "s XOR b" "s XOR a"] Cons
    have "s XOR a = s XOR b" and "be_nat ?u = be_nat ?v" by auto
    then show ?case using Cons.IH by (simp add: xor_byte_cancel)
  qed simp
  from this [of "id_bytes s" "id_bytes a" "id_bytes b"] eq show "a = b"
    by (simp add: distanceBigInt_alt NodeID_eq_iff)
qed simp

section \<open>Common prefixes and distances\<close>

lemma bit_le_nat: "bit (n :: nat) k \<Longrightarrow> 2 ^ k \<le> n"
  by (metis bit_iff_odd div_less even_zero not_le_imp_less)

lemma first_set_bit_Some:
  assumes "first_set_bit x = Some j"
  shows "j < 8" "2 ^ (7 - j) \<le> unat x" "unat x < 2 ^ (8 - j)"
proof -
  from assms have "j < 8" and b: "bit x (7 - j)" and below: "\<And>i. i < j \<Longrightarrow> \<not> bit x (7 - i)"
    by (auto simp: first_set_bit_def find_Some_iff and_exp_eq_0_iff_not_bit)
  show "j < 8" by fact
  have "bit (unat x) (7 - j)" using b by (simp add: bit_unsigned_iff)
  then show "2 ^ (7 - j) \<le> unat x" by (rule bit_le_nat)
  have "take_bit (8 - j) (unat x) = unat x"
  proof (rule bit_eqI)
    fix k
    show "bit (take_bit (8 - j) (unat x)) k = bit (unat x) k"
    proof (cases "k < 8 - j")
      case False
      have "\<not> bit x k"
      proof (cases "k < 8")
        case True
        with False have "7 - k < j" using \<open>j < 8\<close> by linarith
        then have "\<not> bit x (7 - (7 - k))" by (rule below)
        with True show ?thesis by simp
      qed (use bit_imp_le_length [of x k] in auto)
      with False show ?thesis by (simp add: bit_take_bit_iff bit_unsigned_iff)
    qed (simp add: bit_take_bit_iff)
  qed
  then show "unat x < 2 ^ (8 - j)" by (metis take_bit_nat_less_exp)
qed

lemma first_set_bit_None: "first_set_bit x = None \<Longrightarrow> x = 0"
proof -
  assume n: "first_set_bit x = None"
  have "\<not> bit x k" for k
  proof (cases "k < 8")
    case True
    then have "7 - k \<in> set [0..<8]" by auto
    with n have "x AND push_bit (7 - (7 - k)) 1 = 0" by (auto simp: first_set_bit_def find_None_iff)
    with True show ?thesis by (simp add: and_exp_eq_0_iff_not_bit)
  qed (use bit_imp_le_length [of x k] in auto)
  then show "x = 0" by (simp add: bit_eq_iff)
qed


lemma cpl_loop_bounds:
  assumes "length as = length bs" "length as + i = IDSize" "as \<noteq> bs"
  defines "r \<equiv> cpl_loop i as bs"
  shows "r < 8 * IDSize \<and> 2 ^ (8 * IDSize - Suc r) \<le> be_nat (map2 (XOR) as bs)
      \<and> be_nat (map2 (XOR) as bs) < 2 ^ (8 * IDSize - r)"
  using assms(1-3) unfolding r_def
proof (induction as bs arbitrary: i rule: list_induct2)
  case (Cons a as b bs)
  let ?x = "a XOR b" and ?r = "map2 (XOR) as bs"
  show ?case
  proof (cases "?x = 0")
    case True
    then have "a = b" by (simp add: xor_byte_0)
    with Cons.prems have "as \<noteq> bs" "length as + Suc i = IDSize" by auto
    from Cons.IH [OF this(2) this(1)] True show ?thesis by simp
  next
    case False
    then obtain j where j: "first_set_bit ?x = Some j" using first_set_bit_None by blast
    note b = first_set_bit_Some [OF j]
    have n: "8 * IDSize - (i * 8 + j) = 8 * length as + (8 - j)"
      "8 * IDSize - Suc (i * 8 + j) = 8 * length as + (7 - j)"
      using Cons.prems(1) b(1) by simp_all
    have len: "length ?r = length as" and p: "(256 :: nat) ^ length as = 2 ^ (8 * length as)"
      using Cons.hyps by (simp_all add: power_mult)
    have lo: "2 ^ (8 * length as) * 2 ^ (7 - j) \<le> 2 ^ (8 * length as) * unat ?x"
      using b(2) by (rule mult_left_mono) simp
    have "2 ^ (8 * length as) * Suc (unat ?x) \<le> 2 ^ (8 * length as) * 2 ^ (8 - j)"
      using b(3) by (intro mult_left_mono) simp_all
    then have hi: "2 ^ (8 * length as) * unat ?x + be_nat ?r < 2 ^ (8 * length as) * 2 ^ (8 - j)"
      using be_nat_less [of ?r] unfolding len p by simp
    have r: "cpl_loop i (a # as) (b # bs) = i * 8 + j" using False j by simp
    have d: "be_nat (map2 (XOR) (a # as) (b # bs)) = 2 ^ (8 * length as) * unat ?x + be_nat ?r"
      using p Cons.hyps by (simp add: mult.commute)
    have "i * 8 + j < 8 * IDSize" using Cons.prems(1) b(1) by simp
    then show ?thesis unfolding r d n power_add using lo hi by linarith
  qed
qed simp

lemma CommonPrefixLen_self [simp]: "CommonPrefixLen a a = 8 * IDSize"
proof -
  have "cpl_loop i as as = IDSize * 8" for i and as :: bytes
    by (induction as arbitrary: i) auto
  then show ?thesis by (simp add: CommonPrefixLen_def)
qed

lemma CommonPrefixLen_bounds:
  assumes "a \<noteq> b"
  shows "CommonPrefixLen a b < 8 * IDSize"
    and "2 ^ (8 * IDSize - Suc (CommonPrefixLen a b)) \<le> distanceBigInt a b"
    and "distanceBigInt a b < 2 ^ (8 * IDSize - CommonPrefixLen a b)"
  using cpl_loop_bounds [of "id_bytes a" "id_bytes b" 0] assms
  by (simp_all add: CommonPrefixLen_def distanceBigInt_alt NodeID_eq_iff)

lemma CommonPrefixLen_le: "CommonPrefixLen a b \<le> 8 * IDSize"
  by (cases "a = b") (auto dest: CommonPrefixLen_bounds(1))

lemma CommonPrefixLen_less_iff: "CommonPrefixLen a b < 8 * IDSize \<longleftrightarrow> a \<noteq> b"
  using CommonPrefixLen_bounds(1) by auto

section \<open>Properties\<close>

text \<open>
  \<open>DistanceLess\<close>, the bytewise comparator every lookup sorts with, orders the identifiers by
  their XOR distance to \<open>self\<close> read as a 256-bit big-endian integer; and that distance is a
  metric: symmetric, zero exactly between equal identifiers, with the triangle inequality.
\<close>

theorem DistanceLess_metric:
  "(DistanceLess self a b \<longleftrightarrow> distanceBigInt self a < distanceBigInt self b)
   \<and> distanceBigInt a b = distanceBigInt b a
   \<and> (distanceBigInt a b = 0 \<longleftrightarrow> a = b)
   \<and> distanceBigInt a c \<le> distanceBigInt a b + distanceBigInt b c"
  by (intro conjI DistanceLess_iff distance_sym distance_0_iff distance_triangle)

text \<open>
  \<open>CommonPrefixLen\<close> tells the magnitude of the distance: for distinct identifiers it is a
  bucket index below 256, and \<open>CommonPrefixLen a b = n\<close> holds exactly when the distance has its
  highest set bit at position \<open>255 - n\<close>.
\<close>

theorem CommonPrefixLen_distance:
  assumes "a \<noteq> b"
  shows "CommonPrefixLen a b = n \<longleftrightarrow>
    n < 256 \<and> 2 ^ (255 - n) \<le> distanceBigInt a b \<and> distanceBigInt a b < 2 ^ (256 - n)"
proof
  assume "CommonPrefixLen a b = n"
  then show "n < 256 \<and> 2 ^ (255 - n) \<le> distanceBigInt a b \<and> distanceBigInt a b < 2 ^ (256 - n)"
    using CommonPrefixLen_bounds [OF assms] by (simp add: IDSize_def)
next
  assume n: "n < 256 \<and> 2 ^ (255 - n) \<le> distanceBigInt a b \<and> distanceBigInt a b < 2 ^ (256 - n)"
  let ?m = "CommonPrefixLen a b"
  have m: "?m < 256" "2 ^ (255 - ?m) \<le> distanceBigInt a b" "distanceBigInt a b < 2 ^ (256 - ?m)"
    using CommonPrefixLen_bounds [OF assms] by (simp_all add: IDSize_def)
  have "(2 :: nat) ^ (255 - n) < 2 ^ (256 - ?m)" "(2 :: nat) ^ (255 - ?m) < 2 ^ (256 - n)"
    using n m by linarith+
  then show "?m = n" using n m(1) by (simp add: power_strict_increasing_iff)
qed

theorem CommonPrefixLen_distance_witness:
  "CommonPrefixLen (id_copy [0]) (id_copy [16]) = 3 \<longleftrightarrow>
    (3 :: nat) < 256 \<and> 2 ^ (255 - 3) \<le> distanceBigInt (id_copy [0]) (id_copy [16])
      \<and> distanceBigInt (id_copy [0]) (id_copy [16]) < 2 ^ (256 - 3)"
proof -
  have "id_bytes (id_copy [0]) ! 0 \<noteq> id_bytes (id_copy [16]) ! 0"
    by (simp add: id_bytes_id_copy_take IDSize_def)
  then have "id_copy [0] \<noteq> id_copy [16]" by metis
  then show ?thesis by (rule CommonPrefixLen_distance)
qed

text \<open>
  \<open>Hex\<close> and \<open>IDFromHex\<close> are inverse up to letter case: \<open>IDFromHex\<close> returns \<open>m\<close> exactly
  on the spellings of \<open>Hex m\<close> in any letter case, it succeeds exactly on the strings of 64
  hexadecimal digits, and the short form \<open>String\<close> logs is the first 8 digits.
\<close>

theorem IDFromHex_roundtrip:
  "(IDFromHex s = Inr m \<longleftrightarrow> Hex m = ToLower s)
   \<and> ((\<exists>n. IDFromHex s = Inr n) \<longleftrightarrow> length s = 64 \<and> list_all (\<lambda>c. hex_val c \<noteq> None) s)
   \<and> length (ID_String m) = 8"
proof -
  have dec: "(\<exists>bs. hex_decode s = Some bs) \<longleftrightarrow> even (length s) \<and> list_all (\<lambda>c. hex_val c \<noteq> None) s"
    by (induction s rule: hex_decode.induct) (auto split: option.splits)
  have "(\<exists>n. IDFromHex s = Inr n) \<longleftrightarrow> (\<exists>bs. hex_decode s = Some bs) \<and> length s = 64"
    by (auto simp: IDFromHex_def IDSize_def split: option.splits dest!: length_hex_decode)
  with dec have "(\<exists>n. IDFromHex s = Inr n) \<longleftrightarrow> length s = 64 \<and> list_all (\<lambda>c. hex_val c \<noteq> None) s"
    by auto
  moreover have "IDFromHex s = Inr m \<longleftrightarrow> Hex m = ToLower s"
    using IDFromHex_Inr IDFromHex_Hex IDFromHex_ToLower by metis
  ultimately show ?thesis by (simp add: ID_String_def)
qed

end
