(* ===== verification/Transitions.thy ===== *)
theory Transitions
  imports Go_Prelude
begin

text \<open>
  Interfaces shared by the stateful components. A component whose operations interleave is a step
  relation; a component that handles one message after the other is a step function run over a
  list. Both locales turn the preservation of an invariant by one step into its preservation by
  every run; each component that is a state machine interprets one of them on its own step.
\<close>

section \<open>Step relations\<close>

locale step_invariant =
  fixes step :: "'s \<Rightarrow> 's \<Rightarrow> bool"
    and inv :: "'s \<Rightarrow> bool"
  assumes step_inv: "inv s \<Longrightarrow> step s t \<Longrightarrow> inv t"
begin

lemma run_inv: "step\<^sup>*\<^sup>* s t \<Longrightarrow> inv s \<Longrightarrow> inv t"
  by (induction rule: rtranclp_induct) (auto intro: step_inv)

end

section \<open>Step functions\<close>

locale handler_invariant =
  fixes handle :: "'s \<Rightarrow> 'e \<Rightarrow> 's"
    and inv :: "'s \<Rightarrow> bool"
  assumes handle_inv: "inv s \<Longrightarrow> inv (handle s e)"
begin

lemma fold_inv: "inv s \<Longrightarrow> inv (foldl handle s es)"
  by (induction es arbitrary: s) (auto intro: handle_inv)

end

section \<open>Refinement\<close>

text \<open>
  A component and its specification that take the same steps: the abstraction of the next state is
  the next abstract state, as long as the invariant of the component holds.
\<close>

fun legal_run :: "('s \<Rightarrow> 'e \<Rightarrow> 's) \<Rightarrow> ('s \<Rightarrow> 'e \<Rightarrow> bool) \<Rightarrow> 's \<Rightarrow> 'e list \<Rightarrow> bool" where
  "legal_run step legal s [] = True"
| "legal_run step legal s (e # es) = (legal s e \<and> legal_run step legal (step s e) es)"

locale step_refinement =
  fixes step :: "'s \<Rightarrow> 'e \<Rightarrow> 's"
    and spec :: "'a \<Rightarrow> 'e \<Rightarrow> 'a"
    and abs :: "'s \<Rightarrow> 'a"
    and inv :: "'s \<Rightarrow> bool"
    and legal :: "'s \<Rightarrow> 'e \<Rightarrow> bool"
  assumes step_keeps: "inv s \<Longrightarrow> legal s e \<Longrightarrow> inv (step s e)"
    and step_refines: "inv s \<Longrightarrow> legal s e \<Longrightarrow> abs (step s e) = spec (abs s) e"
begin

lemma run_keeps: "inv s \<Longrightarrow> legal_run step legal s es \<Longrightarrow> inv (foldl step s es)"
  by (induction es arbitrary: s) (auto intro: step_keeps)

lemma run_refines: "inv s \<Longrightarrow> legal_run step legal s es \<Longrightarrow> abs (foldl step s es) = foldl spec (abs s) es"
  by (induction es arbitrary: s) (auto simp: step_refines [symmetric] step_keeps)

end

end
