(* ===== verification/Routing.thy ===== *)
theory Routing
  imports Node_Ids Transitions
begin

text \<open>
  \<^verbatim>\<open>core/dht/routing.go\<close>: the k-bucket routing table.

  The table is a record of the local identifier, 256 buckets and whether an eviction callback is
  installed. Its operations are functions on the record; a \<^verbatim>\<open>time.Now()\<close> is the argument
  \<open>now\<close>. A full bucket makes \<open>Update\<close> start a goroutine that pings the head of the bucket
  without holding the lock: \<open>Update\<close> returns that goroutine as a task, and \<open>maybeEvictHead\<close> is
  what the task does when the ping has answered, on the table as it is by then. The relation
  \<open>rt_step\<close> interleaves the operations with pending tasks. An index outside the array of buckets,
  where Go panics, is the result \<open>None\<close> of \<open>Remove\<close>.
\<close>

section \<open>Definitions\<close>

definition K :: nat where
  "K = 20"

record Contact =
  ID :: NodeID
  Address :: string
  AltAddresses :: "string list"
  LastSeen :: time

definition AllAddresses :: "Contact \<Rightarrow> string list" where
  "AllAddresses c = (if Address c \<noteq> [] then [Address c] else []) @ AltAddresses c"

type_synonym bucket = "Contact list"

record RoutingTable =
  self :: NodeID
  buckets :: "bucket list"
  evictionPing :: bool

definition NewRoutingTable :: "NodeID \<Rightarrow> RoutingTable" where
  "NewRoutingTable s = \<lparr>self = s, buckets = replicate (IDSize * 8) [], evictionPing = False\<rparr>"

definition SetEvictionPing :: "RoutingTable \<Rightarrow> bool \<Rightarrow> RoutingTable" where
  "SetEvictionPing rt fn = rt\<lparr>evictionPing := fn\<rparr>"

subsection \<open>Merging the addresses of a contact\<close>

fun add_address :: "string list \<times> string list \<Rightarrow> string \<Rightarrow> string list \<times> string list" where
  "add_address (seen, out) s =
     (if s = [] \<or> s \<in> set seen then (seen, out) else (s # seen, out @ [s]))"

definition mergeAddresses :: "Contact \<Rightarrow> Contact \<Rightarrow> Contact" where
  "mergeAddresses fresh prior =
     (let seen = (if Address fresh \<noteq> [] then [Address fresh] else []);
          st = foldl add_address (seen, []) (AltAddresses fresh);
          st = (if Address prior \<noteq> [] then add_address st (Address prior) else st);
          st = foldl add_address st (AltAddresses prior)
      in fresh\<lparr>AltAddresses := snd st\<rparr>)"

subsection \<open>Operations\<close>

definition set_bucket :: "RoutingTable \<Rightarrow> nat \<Rightarrow> bucket \<Rightarrow> RoutingTable" where
  "set_bucket rt idx b = rt\<lparr>buckets := (buckets rt)[idx := b]\<rparr>"

type_synonym evict_task = "nat \<times> Contact \<times> Contact"

definition Update :: "RoutingTable \<Rightarrow> time \<Rightarrow> Contact \<Rightarrow> RoutingTable \<times> evict_task option" where
  "Update rt now c0 =
     (if Equal (ID c0) (self rt) then (rt, None)
      else
        let idx = CommonPrefixLen (self rt) (ID c0);
            b = buckets rt ! idx;
            c = c0\<lparr>LastSeen := now\<rparr>
        in case find (\<lambda>e. Equal (ID e) (ID c)) b of
             Some existing \<Rightarrow>
               (set_bucket rt idx
                  (remove_first (\<lambda>e. Equal (ID e) (ID c)) b @ [mergeAddresses c existing]), None)
           | None \<Rightarrow>
               if length b < K then (set_bucket rt idx (b @ [c]), None)
               else if \<not> evictionPing rt then (rt, None)
               else (rt, Some (idx, hd b, c)))"

text \<open>
  \<open>ping\<close> is \<open>None\<close> when the callback was gone at the first lock, and otherwise whether the head
  answered.
\<close>

definition maybeEvictHead ::
  "RoutingTable \<Rightarrow> time \<Rightarrow> bool option \<Rightarrow> nat \<Rightarrow> Contact \<Rightarrow> Contact \<Rightarrow> RoutingTable" where
  "maybeEvictHead rt now ping idx head candidate =
     (case ping of
        None \<Rightarrow> rt
      | Some alive \<Rightarrow>
          let b = buckets rt ! idx
          in if alive then
               (case b of
                  [] \<Rightarrow> rt
                | h # t \<Rightarrow>
                    if Equal (ID h) (ID head) then set_bucket rt idx (t @ [h\<lparr>LastSeen := now\<rparr>])
                    else rt)
             else
               let b' = remove_first (\<lambda>c. Equal (ID c) (ID head)) b
               in if length b' < K then set_bucket rt idx (b' @ [candidate\<lparr>LastSeen := now\<rparr>])
                  else set_bucket rt idx b')"

definition Hint :: "RoutingTable \<Rightarrow> Contact \<Rightarrow> RoutingTable" where
  "Hint rt c =
     (if Equal (ID c) (self rt) then rt
      else
        let idx = CommonPrefixLen (self rt) (ID c);
            b = buckets rt ! idx
        in case find (\<lambda>e. Equal (ID e) (ID c)) b of
             Some _ \<Rightarrow> rt
           | None \<Rightarrow> if length b < K then set_bucket rt idx (c\<lparr>LastSeen := 0\<rparr> # b) else rt)"

definition Remove :: "RoutingTable \<Rightarrow> NodeID \<Rightarrow> RoutingTable option" where
  "Remove rt nid =
     (let idx = CommonPrefixLen (self rt) nid
      in if length (buckets rt) \<le> idx then None
         else Some (set_bucket rt idx (remove_first (\<lambda>c. Equal (ID c) nid) (buckets rt ! idx))))"

definition Size :: "RoutingTable \<Rightarrow> nat" where
  "Size rt = foldl (\<lambda>total b. total + length b) 0 (buckets rt)"

definition All_rt :: "RoutingTable \<Rightarrow> Contact list" where
  "All_rt rt = foldl (\<lambda>out b. out @ b) [] (buckets rt)"

subsection \<open>The n closest contacts\<close>

definition min_index :: "('a \<Rightarrow> 'a \<Rightarrow> bool) \<Rightarrow> 'a list \<Rightarrow> nat \<Rightarrow> nat" where
  "min_index lt all i =
     foldl (\<lambda>m j. if lt (all ! j) (all ! m) then j else m) i [Suc i..<length all]"

definition select_step :: "('a \<Rightarrow> 'a \<Rightarrow> bool) \<Rightarrow> 'a list \<Rightarrow> nat \<Rightarrow> 'a list" where
  "select_step lt all i =
     (let m = min_index lt all i in all[i := all ! m, m := all ! i])"

definition select_first :: "('a \<Rightarrow> 'a \<Rightarrow> bool) \<Rightarrow> 'a list \<Rightarrow> nat \<Rightarrow> 'a list" where
  "select_first lt all n = foldl (select_step lt) all [0..<n]"

definition Closest :: "RoutingTable \<Rightarrow> NodeID \<Rightarrow> nat \<Rightarrow> Contact list" where
  "Closest rt target n =
     (let all = All_rt rt;
          n = (if n > length all then length all else n)
      in take n (select_first (\<lambda>a b. DistanceLess target (ID a) (ID b)) all n))"

subsection \<open>Interleavings of the operations with pending evictions\<close>

type_synonym rt_state = "RoutingTable \<times> evict_task list"

inductive rt_step :: "rt_state \<Rightarrow> rt_state \<Rightarrow> bool" where
  step_update: "Update rt now c = (rt', t) \<Longrightarrow>
     rt_step (rt, ts) (rt', (case t of None \<Rightarrow> ts | Some x \<Rightarrow> x # ts))"
| step_hint: "rt_step (rt, ts) (Hint rt c, ts)"
| step_remove: "Remove rt nid = Some rt' \<Longrightarrow> rt_step (rt, ts) (rt', ts)"
| step_ping: "rt_step (rt, ts) (SetEvictionPing rt fn, ts)"
| step_evict: "(idx, head, candidate) \<in> set ts \<Longrightarrow>
     rt_step (rt, ts)
       (maybeEvictHead rt now ping idx head candidate, remove1 (idx, head, candidate) ts)"

definition bucket_ok :: "NodeID \<Rightarrow> nat \<Rightarrow> bucket \<Rightarrow> bool" where
  "bucket_ok s i b \<longleftrightarrow> length b \<le> K \<and> (\<forall>c\<in>set b. CommonPrefixLen s (ID c) = i)"

definition rt_inv :: "RoutingTable \<Rightarrow> bool" where
  "rt_inv rt \<longleftrightarrow> length (buckets rt) = IDSize * 8
     \<and> (\<forall>i < IDSize * 8. bucket_ok (self rt) i (buckets rt ! i))"

definition rt_distinct :: "RoutingTable \<Rightarrow> bool" where
  "rt_distinct rt \<longleftrightarrow> (\<forall>i < length (buckets rt). distinct (map ID (buckets rt ! i)))"

definition task_ok :: "RoutingTable \<Rightarrow> evict_task \<Rightarrow> bool" where
  "task_ok rt t = (case t of (idx, head, candidate) \<Rightarrow>
     idx < IDSize * 8 \<and> CommonPrefixLen (self rt) (ID candidate) = idx)"

definition rt_state_inv :: "NodeID \<Rightarrow> rt_state \<Rightarrow> bool" where
  "rt_state_inv s st \<longleftrightarrow> rt_inv (fst st) \<and> self (fst st) = s \<and> (\<forall>t\<in>set (snd st). task_ok (fst st) t)"


section \<open>Merged addresses\<close>

lemma foldl_add_address:
  assumes "foldl add_address (seen, out) xs = (seen', out')" "set out \<subseteq> set seen" "distinct out" "[] \<notin> set out"
  shows "set out' = set out \<union> (set xs - {[]} - set seen) \<and> set seen' = set seen \<union> (set xs - {[]})
    \<and> distinct out' \<and> [] \<notin> set out' \<and> set out' \<subseteq> set seen'"
  using assms
proof (induction xs arbitrary: seen out)
  case (Cons x xs)
  show ?case
  proof (cases "x = [] \<or> x \<in> set seen")
    case True
    then have "foldl add_address (seen, out) xs = (seen', out')" using Cons.prems(1) by simp
    from Cons.IH [OF this Cons.prems(2-4)] True show ?thesis by auto
  next
    case False
    then have "foldl add_address (x # seen, out @ [x]) xs = (seen', out')" using Cons.prems(1) by simp
    moreover have "set (out @ [x]) \<subseteq> set (x # seen)" "distinct (out @ [x])" "[] \<notin> set (out @ [x])"
      using Cons.prems(2-4) False by auto
    ultimately have "set out' = set (out @ [x]) \<union> (set xs - {[]} - set (x # seen)) \<and>
        set seen' = set (x # seen) \<union> (set xs - {[]}) \<and> distinct out' \<and> [] \<notin> set out' \<and> set out' \<subseteq> set seen'"
      by (rule Cons.IH)
    with Cons.prems(2) False show ?thesis by auto
  qed
qed simp

lemma mergeAddresses_alt:
  "\<exists>out. mergeAddresses fresh prior = fresh\<lparr>AltAddresses := out\<rparr> \<and> distinct out \<and> [] \<notin> set out
    \<and> set out = set (AltAddresses fresh) \<union> {Address prior} \<union> set (AltAddresses prior) - {[], Address fresh}"
proof -
  let ?seen = "if Address fresh \<noteq> [] then [Address fresh] else []"
  let ?xs = "AltAddresses fresh @ (if Address prior \<noteq> [] then [Address prior] else []) @ AltAddresses prior"
  obtain seen' out where fo: "foldl add_address (?seen, []) ?xs = (seen', out)" by fastforce
  then have "mergeAddresses fresh prior = fresh\<lparr>AltAddresses := out\<rparr>"
    by (simp add: mergeAddresses_def Let_def split: if_splits)
  moreover from foldl_add_address [OF fo] have "distinct out \<and> [] \<notin> set out
    \<and> set out = set (AltAddresses fresh) \<union> {Address prior} \<union> set (AltAddresses prior) - {[], Address fresh}"
    by auto
  ultimately show ?thesis by blast
qed

lemma mergeAddresses_simps [simp]:
  "ID (mergeAddresses fresh prior) = ID fresh"
  "Address (mergeAddresses fresh prior) = Address fresh"
  "LastSeen (mergeAddresses fresh prior) = LastSeen fresh"
proof -
  obtain out where "mergeAddresses fresh prior = fresh\<lparr>AltAddresses := out\<rparr>"
    using mergeAddresses_alt by meson
  then show "ID (mergeAddresses fresh prior) = ID fresh"
    "Address (mergeAddresses fresh prior) = Address fresh"
    "LastSeen (mergeAddresses fresh prior) = LastSeen fresh" by simp_all
qed

section \<open>Selecting the closest contacts\<close>

locale strict_key =
  fixes lt :: "'a \<Rightarrow> 'a \<Rightarrow> bool"
    and key :: "'a \<Rightarrow> nat"
  assumes less_iff: "lt a b \<longleftrightarrow> key a < key b"
begin

lemma min_index_upto:
  fixes all :: "'a list"
  assumes "i < n"
  defines "m \<equiv> foldl (\<lambda>m j. if lt (all ! j) (all ! m) then j else m) i [Suc i..<n]"
  shows "i \<le> m \<and> m < n \<and> (\<forall>j\<in>{i..<n}. key (all ! m) \<le> key (all ! j))"
  using assms(1) unfolding m_def
proof (induction n)
  case (Suc n)
  show ?case
  proof (cases "i = n")
    case False
    with Suc.prems have "i < n" by simp
    from Suc.IH [OF this] \<open>i < n\<close> show ?thesis
      by (auto simp: less_iff less_Suc_eq intro: order.trans [OF less_imp_le])
  qed simp
qed simp

lemma min_index_props:
  assumes "i < length all"
  shows "i \<le> min_index lt all i" "min_index lt all i < length all"
    and "\<And>j. i \<le> j \<Longrightarrow> j < length all \<Longrightarrow> key (all ! min_index lt all i) \<le> key (all ! j)"
  using min_index_upto [OF assms] by (auto simp: min_index_def)

lemma select_step_mset: "i < length all \<Longrightarrow> mset (select_step lt all i) = mset all"
  using min_index_props [of i all] by (simp add: select_step_def Let_def mset_swap)

lemma length_select_step [simp]: "length (select_step lt all i) = length all"
  by (simp add: select_step_def Let_def)

definition selected :: "'a list \<Rightarrow> nat \<Rightarrow> bool" where
  "selected xs i \<longleftrightarrow> sorted (map key (take i xs)) \<and> (\<forall>x\<in>set (take i xs). \<forall>y\<in>set (drop i xs). key x \<le> key y)"

lemma select_step_selected:
  assumes sel: "selected xs i" and i: "i < length xs"
  shows "selected (select_step lt xs i) (Suc i)"
proof -
  define m where "m = min_index lt xs i"
  define ys where "ys = select_step lt xs i"
  note m = min_index_props [OF i, folded m_def]
  have ys: "ys = xs[i := xs ! m, m := xs ! i]" by (simp add: ys_def select_step_def m_def Let_def)
  have len: "length ys = length xs" by (simp add: ys)
  have front: "take i ys = take i xs" using m(1) by (simp add: ys)
  have nth_i: "ys ! i = xs ! m" using i m(2) by (cases "m = i") (simp_all add: ys)
  have behind: "set (drop i ys) = set (drop i xs)"
  proof -
    have "mset ys = mset xs" unfolding ys_def by (rule select_step_mset [OF i])
    then have "mset (take i ys) + mset (drop i ys) = mset (take i xs) + mset (drop i xs)"
      by (metis append_take_drop_id mset_append)
    then have "mset (drop i ys) = mset (drop i xs)" using front by simp
    then show ?thesis by (metis set_mset_mset)
  qed
  have dropeq: "drop i ys = ys ! i # drop (Suc i) ys" using i len by (simp add: Cons_nth_drop_Suc)
  have least: "key (ys ! i) \<le> key y" if "y \<in> set (drop i ys)" for y
  proof -
    from that have "y \<in> set (drop i xs)" using behind by simp
    then obtain j where "j < length (drop i xs)" "y = drop i xs ! j" by (auto simp: in_set_conv_nth)
    then have "y = xs ! (i + j)" "i + j < length xs" by auto
    then show ?thesis using m(3) [of "i + j"] nth_i by simp
  qed
  have tk: "take (Suc i) ys = take i xs @ [ys ! i]"
    using i len front by (simp add: take_Suc_conv_app_nth)
  have in_behind: "ys ! i \<in> set (drop i xs)" using dropeq behind by (metis list.set_intros(1))
  have "sorted (map key (take (Suc i) ys))"
    using sel in_behind by (auto simp: tk sorted_append selected_def)
  moreover have "key x \<le> key y" if "x \<in> set (take (Suc i) ys)" "y \<in> set (drop (Suc i) ys)" for x y
  proof -
    have yb: "y \<in> set (drop i ys)" using that(2) dropeq by simp
    then show ?thesis using that(1) least [OF yb] sel behind by (auto simp: tk selected_def)
  qed
  ultimately show ?thesis by (simp add: selected_def ys_def)
qed

lemma select_first_props:
  "n \<le> length xs \<Longrightarrow> selected (select_first lt xs n) n \<and> mset (select_first lt xs n) = mset xs
    \<and> length (select_first lt xs n) = length xs"
proof (induction n)
  case 0
  then show ?case by (simp add: select_first_def selected_def)
next
  case (Suc n)
  then have IH: "selected (select_first lt xs n) n" "mset (select_first lt xs n) = mset xs"
    "length (select_first lt xs n) = length xs" by auto
  have st: "select_first lt xs (Suc n) = select_step lt (select_first lt xs n) n"
    by (simp add: select_first_def)
  have "n < length (select_first lt xs n)" using Suc.prems IH(3) by simp
  then show ?case using IH select_step_selected [OF IH(1)] by (simp add: st select_step_mset)
qed

lemma select_first_prefix:
  assumes "n \<le> length xs"
  shows "\<exists>s. mset s = mset xs \<and> sorted (map key s) \<and> take n (select_first lt xs n) = take n s"
proof -
  let ?r = "select_first lt xs n"
  let ?s = "take n ?r @ sort_key key (drop n ?r)"
  note p = select_first_props [OF assms]
  have "mset ?s = mset xs" using p by (metis append_take_drop_id mset_append mset_sort)
  moreover have "sorted (map key ?s)" using p by (auto simp: sorted_append selected_def)
  moreover have "take n ?r = take n ?s" using p assms by simp
  ultimately show ?thesis by blast
qed

end

interpretation closest: strict_key
  "\<lambda>a b. DistanceLess t (ID a) (ID b)" "\<lambda>c. distanceBigInt t (ID c)" for t
  by unfold_locales (rule DistanceLess_iff)

lemma All_rt_concat: "All_rt rt = concat (buckets rt)"
proof -
  have "foldl (\<lambda>out b. out @ b) acc bs = acc @ concat bs" for acc and bs :: "Contact list list"
    by (induction bs arbitrary: acc) auto
  then show ?thesis by (simp add: All_rt_def)
qed

lemma Size_All_rt: "Size rt = length (All_rt rt)"
proof -
  have "foldl (\<lambda>total b. total + length b) n bs = n + length (concat bs)" for n and bs :: "Contact list list"
    by (induction bs arbitrary: n) auto
  then show ?thesis by (simp add: Size_def All_rt_concat)
qed

lemma Closest_prefix:
  "\<exists>s. mset s = mset (All_rt rt) \<and> sorted (map (\<lambda>c. distanceBigInt target (ID c)) s)
     \<and> Closest rt target n = take n s \<and> length (Closest rt target n) = min n (Size rt)"
proof -
  let ?n = "if n > length (All_rt rt) then length (All_rt rt) else n"
  have "?n \<le> length (All_rt rt)" by simp
  from closest.select_first_prefix [OF this, of target] obtain s where s:
    "mset s = mset (All_rt rt)" "sorted (map (\<lambda>c. distanceBigInt target (ID c)) s)"
    "Closest rt target n = take ?n s" by (auto simp: Closest_def Let_def)
  then have "length s = length (All_rt rt)" by (metis size_mset)
  with s show ?thesis by (intro exI [of _ s]) (auto simp: Size_All_rt)
qed

lemma Closest_sorted: "sorted (map (\<lambda>c. distanceBigInt target (ID c)) (Closest rt target n))"
  using Closest_prefix [of rt target n] by (metis sorted_wrt_take take_map)

lemma length_Closest [simp]: "length (Closest rt target n) = min n (Size rt)"
  using Closest_prefix [of rt target n] by blast

lemma set_Closest: "set (Closest rt target n) \<subseteq> set (All_rt rt)"
  using Closest_prefix [of rt target n] by (metis set_mset_mset set_take_subset)

lemma Closest_nearest:
  "c \<in> set (Closest rt target n) \<Longrightarrow> e \<in> set (All_rt rt) \<Longrightarrow> e \<notin> set (Closest rt target n) \<Longrightarrow>
   distanceBigInt target (ID c) \<le> distanceBigInt target (ID e)"
proof -
  assume c: "c \<in> set (Closest rt target n)" and e: "e \<in> set (All_rt rt)" "e \<notin> set (Closest rt target n)"
  obtain s where s: "mset s = mset (All_rt rt)" "sorted (map (\<lambda>c. distanceBigInt target (ID c)) s)"
    "Closest rt target n = take n s" using Closest_prefix [of rt target n] by blast
  have "e \<in> set s" using e(1) s(1) by (metis set_mset_mset)
  then have "e \<in> set (drop n s)" using e(2) unfolding s(3) by (metis Un_iff append_take_drop_id set_append)
  moreover have "sorted (map (\<lambda>c. distanceBigInt target (ID c)) (take n s) @ map (\<lambda>c. distanceBigInt target (ID c)) (drop n s))"
    using s(2) by (metis append_take_drop_id map_append)
  then have "\<forall>x\<in>set (take n s). \<forall>y\<in>set (drop n s). distanceBigInt target (ID x) \<le> distanceBigInt target (ID y)"
    unfolding sorted_append set_map by blast
  ultimately show ?thesis using c unfolding s(3) by blast
qed

section \<open>Invariants\<close>

lemma rt_inv_length [simp]: "rt_inv rt \<Longrightarrow> length (buckets rt) = IDSize * 8"
  by (simp add: rt_inv_def)

lemma bucket_index_less: "c \<noteq> s \<Longrightarrow> CommonPrefixLen s c < IDSize * 8"
  using CommonPrefixLen_bounds(1) [of s c] by auto

lemma self_set_bucket [simp]: "self (set_bucket rt i b) = self rt"
  by (simp add: set_bucket_def)

lemma evictionPing_set_bucket [simp]: "evictionPing (set_bucket rt i b) = evictionPing rt"
  by (simp add: set_bucket_def)

lemma buckets_set_bucket [simp]: "buckets (set_bucket rt i b) = (buckets rt)[i := b]"
  by (simp add: set_bucket_def)

lemma rt_inv_set_bucket [wf_intros]:
  "rt_inv rt \<Longrightarrow> bucket_ok (self rt) i b \<Longrightarrow> rt_inv (set_bucket rt i b)"
  by (cases "i < length (buckets rt)") (auto simp: rt_inv_def nth_list_update list_update_beyond)

lemma rt_inv_bucket: "rt_inv rt \<Longrightarrow> i < IDSize * 8 \<Longrightarrow> bucket_ok (self rt) i (buckets rt ! i)"
  by (simp add: rt_inv_def)

lemma bucket_ok_remove [wf_intros]: "bucket_ok s i b \<Longrightarrow> bucket_ok s i (remove_first P b)"
  by (auto simp: bucket_ok_def dest: in_set_remove_firstD intro: order.trans [OF length_remove_first_le])

lemma bucket_ok_snoc [wf_intros]:
  "bucket_ok s i b \<Longrightarrow> length b < K \<Longrightarrow> CommonPrefixLen s (ID c) = i \<Longrightarrow> bucket_ok s i (b @ [c])"
  by (auto simp: bucket_ok_def)

lemma rt_inv_New: "rt_inv (NewRoutingTable s)"
  by (auto simp: rt_inv_def bucket_ok_def NewRoutingTable_def)

lemma self_Update [simp]: "self (fst (Update rt now c)) = self rt"
  by (auto simp: Update_def Let_def split: option.splits)

lemma Update_inv:
  assumes inv: "rt_inv rt"
  shows "rt_inv (fst (Update rt now c))"
    and "snd (Update rt now c) = Some t \<Longrightarrow> task_ok rt t"
proof -
  let ?i = "CommonPrefixLen (self rt) (ID c)"
  have "rt_inv (fst (Update rt now c)) \<and> (snd (Update rt now c) = Some t \<longrightarrow> task_ok rt t)"
  proof (cases "ID c = self rt")
    case False
    then have i: "?i < IDSize * 8" by (rule bucket_index_less)
    note b = rt_inv_bucket [OF inv i]
    have "length (remove_first (\<lambda>e. ID e = ID c) (buckets rt ! ?i)) < K"
      if "find (\<lambda>e. ID e = ID c) (buckets rt ! ?i) = Some e" for e
    proof -
      have "\<exists>x\<in>set (buckets rt ! ?i). ID x = ID c" using find_SomeD [OF that] by auto
      from length_remove_first [OF this] b show ?thesis by (simp add: bucket_ok_def)
    qed
    with b i inv show ?thesis
      by (auto simp: Update_def Let_def task_ok_def split: option.splits intro!: wf_intros)
  qed (simp add: Update_def inv)
  then show "rt_inv (fst (Update rt now c))" and "snd (Update rt now c) = Some t \<Longrightarrow> task_ok rt t"
    by blast+
qed

lemma Hint_inv [wf_intros]:
  assumes "rt_inv rt"
  shows "rt_inv (Hint rt c)"
proof (cases "ID c = self rt")
  case False
  then have "CommonPrefixLen (self rt) (ID c) < IDSize * 8" by (rule bucket_index_less)
  from rt_inv_bucket [OF assms this] assms show ?thesis
    by (auto simp: Hint_def Let_def bucket_ok_def split: option.splits intro!: rt_inv_set_bucket)
qed (simp add: Hint_def assms)

lemma Remove_inv:
  assumes "rt_inv rt" "Remove rt nid = Some rt'"
  shows "rt_inv rt'"
  using assms by (auto simp: Remove_def Let_def split: if_splits intro!: wf_intros rt_inv_bucket)

lemma maybeEvictHead_inv [wf_intros]:
  assumes inv: "rt_inv rt" and t: "task_ok rt (idx, head, candidate)"
  shows "rt_inv (maybeEvictHead rt now ping idx head candidate)"
proof -
  from t have i: "idx < IDSize * 8" and c: "CommonPrefixLen (self rt) (ID candidate) = idx"
    by (auto simp: task_ok_def)
  note b = rt_inv_bucket [OF inv i]
  consider "ping = None" | "ping = Some True" | "ping = Some False" by (metis (full_types) option.exhaust)
  then show ?thesis
  proof cases
    case 2
    have "bucket_ok (self rt) idx (t @ [h\<lparr>LastSeen := now\<rparr>])" if "buckets rt ! idx = h # t" for h t
      using b that by (auto simp: bucket_ok_def)
    with 2 inv show ?thesis
      by (auto simp: maybeEvictHead_def Let_def split: list.splits intro!: rt_inv_set_bucket)
  next
    case 3
    with b c inv show ?thesis by (auto simp: maybeEvictHead_def Let_def intro!: wf_intros)
  qed (simp add: maybeEvictHead_def inv)
qed

lemma self_Hint [simp]: "self (Hint rt c) = self rt"
  by (auto simp: Hint_def Let_def split: option.splits)

lemma self_Remove: "Remove rt nid = Some rt' \<Longrightarrow> self rt' = self rt"
  by (auto simp: Remove_def Let_def split: if_splits)

lemma self_maybeEvictHead [simp]: "self (maybeEvictHead rt now ping idx head candidate) = self rt"
  by (auto simp: maybeEvictHead_def Let_def split: option.splits list.splits)

lemma task_ok_cong: "self rt' = self rt \<Longrightarrow> task_ok rt' t = task_ok rt t"
  by (simp add: task_ok_def)

lemma rt_step_inv: "rt_state_inv s st \<Longrightarrow> rt_step st st' \<Longrightarrow> rt_state_inv s st'"
proof -
  assume inv: "rt_state_inv s st" and st: "rt_step st st'"
  from st inv show "rt_state_inv s st'"
  proof cases
    case (step_update rt now c rt' t ts)
    with inv Update_inv [of rt now c] self_Update [of rt now c] show ?thesis
      by (auto simp: rt_state_inv_def task_ok_cong [of rt' rt] split: option.splits)
  next
    case (step_hint rt ts c)
    with inv show ?thesis
      by (auto simp: rt_state_inv_def task_ok_cong [of "Hint rt c" rt] intro: wf_intros)
  next
    case (step_remove rt nid rt' ts)
    with inv self_Remove [OF step_remove(3)] Remove_inv [OF _ step_remove(3)] show ?thesis
      by (auto simp: rt_state_inv_def task_ok_cong [of rt' rt])
  next
    case (step_ping rt ts fn)
    with inv show ?thesis
      by (auto simp: rt_state_inv_def rt_inv_def task_ok_def SetEvictionPing_def)
  next
    case (step_evict idx head candidate ts rt now ping)
    with inv show ?thesis
      by (auto simp: rt_state_inv_def task_ok_cong [of "maybeEvictHead rt now ping idx head candidate" rt]
          intro: wf_intros dest: subsetD [OF set_remove1_subset])
  qed
qed

interpretation rt: step_invariant rt_step "rt_state_inv s" for s
  by unfold_locales (rule rt_step_inv)

lemma rt_inv_contact:
  assumes "rt_inv rt"
  shows "\<forall>c\<in>set (All_rt rt). ID c \<noteq> self rt"
proof
  fix c
  assume "c \<in> set (All_rt rt)"
  then obtain b where "b \<in> set (buckets rt)" "c \<in> set b" by (auto simp: All_rt_concat)
  then obtain i where "i < IDSize * 8" "c \<in> set (buckets rt ! i)"
    using rt_inv_length [OF assms] by (auto simp: in_set_conv_nth [of b])
  with assms have "CommonPrefixLen (self rt) (ID c) < IDSize * 8" by (auto simp: rt_inv_def bucket_ok_def)
  then show "ID c \<noteq> self rt" using CommonPrefixLen_bounds [of "self rt" "ID c"] by auto
qed

lemma rt_inv_Size:
  assumes "rt_inv rt"
  shows "Size rt \<le> IDSize * 8 * K"
proof -
  have "length (concat bs) \<le> length bs * K" if "\<forall>b\<in>set bs. length b \<le> K" for bs :: "Contact list list"
    using that by (induction bs) auto
  moreover have "\<forall>b\<in>set (buckets rt). length b \<le> K"
    using assms by (auto simp: rt_inv_def bucket_ok_def in_set_conv_nth)
  ultimately show ?thesis using assms by (metis Size_All_rt All_rt_concat rt_inv_length)
qed

lemma rt_distinct_set_bucket [wf_intros]:
  "rt_distinct rt \<Longrightarrow> distinct (map ID b) \<Longrightarrow> rt_distinct (set_bucket rt i b)"
  by (cases "i < length (buckets rt)") (auto simp: rt_distinct_def nth_list_update list_update_beyond)

lemma filter_remove_first: "filter (\<lambda>x. \<not> P x) (remove_first P xs) = filter (\<lambda>x. \<not> P x) xs"
  by (induction xs) auto

lemma Update_distinct:
  assumes "rt_inv rt" "rt_distinct rt"
  shows "rt_distinct (fst (Update rt now c))"
proof (cases "ID c = self rt")
  case False
  let ?b = "buckets rt ! CommonPrefixLen (self rt) (ID c)"
  from bucket_index_less [OF False] assms have "distinct (map ID ?b)" by (simp add: rt_distinct_def)
  with assms(2) show ?thesis
    using remove_first_key [of ID ?b "ID c"]
    by (auto simp: Update_def Let_def find_None_iff distinct_map_remove_first split: option.splits
        intro!: rt_distinct_set_bucket)
qed (simp add: Update_def assms)

lemma Hint_distinct:
  assumes "rt_inv rt" "rt_distinct rt"
  shows "rt_distinct (Hint rt c)"
proof (cases "ID c = self rt")
  case False
  let ?b = "buckets rt ! CommonPrefixLen (self rt) (ID c)"
  from bucket_index_less [OF False] assms have "distinct (map ID ?b)" by (simp add: rt_distinct_def)
  with assms(2) show ?thesis
    by (auto simp: Hint_def Let_def find_None_iff image_iff split: option.splits intro!: rt_distinct_set_bucket)
      metis
qed (simp add: Hint_def assms)

lemma Remove_distinct: "rt_distinct rt \<Longrightarrow> Remove rt nid = Some rt' \<Longrightarrow> rt_distinct rt'"
  by (auto simp: Remove_def Let_def rt_distinct_def not_le distinct_map_remove_first split: if_splits
      intro!: rt_distinct_set_bucket [unfolded rt_distinct_def, rule_format])

lemma Remove_buckets:
  assumes inv: "rt_inv rt" "rt_distinct rt" and rm: "Remove rt nid = Some rt'"
  shows "buckets rt' = map (filter (\<lambda>c. ID c \<noteq> nid)) (buckets rt)"
proof (rule nth_equalityI)
  let ?i = "CommonPrefixLen (self rt) nid"
  from rm have i: "?i < IDSize * 8" and bs: "buckets rt' = (buckets rt)[?i := remove_first (\<lambda>c. ID c = nid) (buckets rt ! ?i)]"
    using inv(1) by (auto simp: Remove_def Let_def split: if_splits)
  then show "length (buckets rt') = length (map (filter (\<lambda>c. ID c \<noteq> nid)) (buckets rt))" by simp
  fix j
  assume "j < length (buckets rt')"
  then have j: "j < IDSize * 8" using bs inv(1) by simp
  have "filter (\<lambda>c. ID c \<noteq> nid) (buckets rt ! j) = buckets rt ! j" if "j \<noteq> ?i"
    using rt_inv_bucket [OF inv(1) j] that by (auto simp: bucket_ok_def intro!: filter_True)
  moreover have "remove_first (\<lambda>c. ID c = nid) (buckets rt ! ?i) = filter (\<lambda>c. ID c \<noteq> nid) (buckets rt ! ?i)"
    using inv i by (intro remove_first_filter) (simp add: rt_distinct_def)
  ultimately show "buckets rt' ! j = map (filter (\<lambda>c. ID c \<noteq> nid)) (buckets rt) ! j"
    using i j inv(1) by (simp add: bs nth_list_update)
qed

lemma Update_task: "snd (Update rt now c) = Some t \<Longrightarrow> fst (Update rt now c) = rt"
  by (auto simp: Update_def Let_def split: if_splits option.splits)

lemma rt_steps_Update:
  "rt_step\<^sup>*\<^sup>* (rt, ts) (fst (Update rt now c), (case snd (Update rt now c) of None \<Rightarrow> ts | Some t \<Rightarrow> t # ts))"
  by (rule r_into_rtranclp) (metis prod.collapse step_update)

lemma rt_steps_Updates:
  "\<exists>ts'. rt_step\<^sup>*\<^sup>* (rt, ts) (foldl (\<lambda>rt c. fst (Update rt now c)) rt cs, ts')"
proof (induction cs arbitrary: rt ts)
  case (Cons c cs)
  show ?case
    using Cons.IH [of "fst (Update rt now c)" "case snd (Update rt now c) of None \<Rightarrow> ts | Some t \<Rightarrow> t # ts"]
      rtranclp_trans [OF rt_steps_Update [of rt ts now c]]
    by auto
qed auto

text \<open>A table whose first bucket is full, for a bucket of the twenty contacts 128 to 147.\<close>

definition sample_contact :: "nat \<Rightarrow> Contact" where
  "sample_contact i = \<lparr>ID = id_copy [of_nat (128 + i)], Address = ''a'', AltAddresses = [], LastSeen = 0\<rparr>"

definition sample_full :: RoutingTable where
  "sample_full = foldl (\<lambda>rt c. fst (Update rt 1 c))
     (SetEvictionPing (NewRoutingTable (id_copy [])) True) (map sample_contact [0..<20])"

definition sample_task :: evict_task where
  "sample_task = (0, (sample_contact 0)\<lparr>LastSeen := 1\<rparr>, (sample_contact 20)\<lparr>LastSeen := 2\<rparr>)"

definition sample_again :: "RoutingTable \<Rightarrow> RoutingTable \<times> evict_task option" where
  "sample_again full = Update (the (Remove full (ID (sample_contact 5)))) 3 (sample_contact 20)"

definition sample_check :: "RoutingTable \<Rightarrow> bool" where
  "sample_check full \<longleftrightarrow> snd (Update full 2 (sample_contact 20)) = Some sample_task
     \<and> Remove full (ID (sample_contact 5)) \<noteq> None \<and> snd (sample_again full) = None
     \<and> \<not> distinct (map ID (buckets
           (maybeEvictHead (fst (sample_again full)) 4 (Some False)
              (fst sample_task) (fst (snd sample_task)) (snd (snd sample_task))) ! 0))"

lemma sample_check: "sample_check sample_full"
  by code_simp

lemma sample_reachable:
  assumes full: "rt_step\<^sup>*\<^sup>* st (full, ts)" and "sample_check full"
  shows "\<exists>rt ts'. rt_step\<^sup>*\<^sup>* st (rt, ts') \<and> \<not> distinct (map ID (buckets rt ! 0))"
proof -
  obtain i h c where t: "sample_task = (i, h, c)" by (cases sample_task)
  note chk = assms(2) [unfolded sample_check_def t, simplified]
  obtain rem where rem: "Remove full (ID (sample_contact 5)) = Some rem" using chk by auto
  let ?again = "fst (sample_again full)"
  have "rt_step (full, ts) (full, sample_task # ts)"
    using rt_step.step_update [of full 2 "sample_contact 20" full "Some sample_task" ts] chk
      Update_task [of full 2 "sample_contact 20"] t by (metis option.simps(5) prod.collapse)
  moreover have "rt_step (full, sample_task # ts) (rem, sample_task # ts)" by (rule step_remove [OF rem])
  moreover have "rt_step (rem, sample_task # ts) (?again, sample_task # ts)"
    using rt_step.step_update [of rem 3 "sample_contact 20" ?again None "sample_task # ts"] chk rem
    by (simp add: sample_again_def) (metis prod.collapse)
  moreover have "rt_step (?again, sample_task # ts) (maybeEvictHead ?again 4 (Some False) i h c, ts)"
    using rt_step.step_evict [of i h c "sample_task # ts" ?again 4 "Some False"] by (simp add: t)
  ultimately have "rt_step\<^sup>*\<^sup>* st (maybeEvictHead ?again 4 (Some False) i h c, ts)"
    using full by (meson rtranclp.rtrancl_into_rtrancl)
  then show ?thesis using chk by blast
qed


section \<open>Properties\<close>

text \<open>
  \<open>Closest\<close> returns the first \<open>min n Size\<close> entries of the list of all contacts sorted by
  their distance to the target: nothing closer is left out, and the result is in order.
\<close>

theorem Closest_spec:
  "\<exists>s. mset s = mset (All_rt rt) \<and> sorted (map (\<lambda>c. distanceBigInt target (ID c)) s)
     \<and> Closest rt target n = take n s \<and> length (Closest rt target n) = min n (Size rt)"
  by (rule Closest_prefix)

text \<open>
  C26: in every state that any interleaving of \<open>Update\<close>, \<open>Hint\<close>, \<open>Remove\<close>, \<open>SetEvictionPing\<close>
  and pending evictions reaches from an empty table, each of the 256 buckets holds at most \<open>K\<close>
  contacts, each contact is in the bucket of its common prefix with the local node, the local node
  is never a contact of its own table, and the table holds at most \<open>256 * K\<close> contacts.
\<close>

theorem rt_reachable_inv:
  assumes "rt_step\<^sup>*\<^sup>* (NewRoutingTable s, []) (rt, ts)"
  shows "rt_inv rt \<and> self rt = s \<and> s \<notin> ID ` set (All_rt rt) \<and> Size rt \<le> IDSize * 8 * K"
proof -
  have "rt_state_inv s (NewRoutingTable s, [])"
    using rt_inv_New by (simp add: rt_state_inv_def) (simp add: NewRoutingTable_def)
  from rt.run_inv [OF assms this] have "rt_inv rt" "self rt = s" by (auto simp: rt_state_inv_def)
  then show ?thesis using rt_inv_contact [of rt] rt_inv_Size [of rt] by auto
qed

theorem rt_reachable_inv_witness:
  "rt_inv (Hint (NewRoutingTable (id_copy [])) (sample_contact 0))
     \<and> Size (Hint (NewRoutingTable (id_copy [])) (sample_contact 0)) \<le> IDSize * 8 * K"
  using rt_reachable_inv [OF r_into_rtranclp [of rt_step, OF step_hint]] by blast

text \<open>
  \<open>Update\<close> with a contact that is not the local node touches one bucket only and keeps its
  other contacts in order. A known contact, or one there is room for, ends at the tail with the
  new primary address and the current time; a new contact for a full bucket changes nothing and
  is handed to the eviction of the bucket's head when a callback is installed.
\<close>

theorem Update_spec:
  assumes "rt_inv rt" and "ID c \<noteq> self rt"
    and "i = CommonPrefixLen (self rt) (ID c)" and "b = buckets rt ! i"
    and "Update rt now c = (rt', task)" and "b' = buckets rt' ! i"
  shows "(\<forall>j. j \<noteq> i \<longrightarrow> buckets rt' ! j = buckets rt ! j)
    \<and> filter (\<lambda>e. ID e \<noteq> ID c) b' = filter (\<lambda>e. ID e \<noteq> ID c) b
    \<and> (if ID c \<in> ID ` set b \<or> length b < K
       then b' \<noteq> [] \<and> ID (last b') = ID c \<and> Address (last b') = Address c \<and> LastSeen (last b') = now
         \<and> task = None
       else rt' = rt \<and> task = (if evictionPing rt then Some (i, hd b, c\<lparr>LastSeen := now\<rparr>) else None))"
proof -
  from assms have i: "i < length (buckets rt)" using bucket_index_less [OF assms(2)] by simp
  have none: "find (\<lambda>e. ID e = ID c) b = None \<longleftrightarrow> ID c \<notin> ID ` set b"
    unfolding find_None_iff image_iff by (auto dest: sym)
  show ?thesis
  proof (cases "find (\<lambda>e. ID e = ID c) b")
    case None
    with none assms i show ?thesis by (auto simp: Update_def Let_def split: if_splits)
  next
    case (Some e)
    with none have "ID c \<in> ID ` set b" by simp
    with Some assms i show ?thesis by (auto simp: Update_def Let_def filter_remove_first)
  qed
qed

theorem Update_spec_witness:
  "ID (last (buckets (fst (Update (NewRoutingTable (id_copy [])) 7 (sample_contact 0))) ! 0))
     = ID (sample_contact 0)"
proof -
  have "ID (sample_contact 0) \<noteq> self (NewRoutingTable (id_copy []))"
    and i: "0 = CommonPrefixLen (self (NewRoutingTable (id_copy []))) (ID (sample_contact 0))"
    by code_simp+
  from Update_spec [OF rt_inv_New this refl prod.collapse [symmetric] refl, of 7]
  show ?thesis by (simp add: NewRoutingTable_def IDSize_def K_def)
qed

text \<open>
  Merging keeps every non-empty address of both contacts and adds none, the primary address
  stays the fresh one, and the alternatives are free of duplicates, of the empty string and of the
  primary.
\<close>

theorem mergeAddresses_spec:
  "set (AllAddresses (mergeAddresses fresh prior)) =
      (set (AllAddresses fresh) \<union> set (AllAddresses prior)) - {[]}
   \<and> mergeAddresses fresh prior = fresh\<lparr>AltAddresses := AltAddresses (mergeAddresses fresh prior)\<rparr>
   \<and> distinct (AllAddresses (mergeAddresses fresh prior))"
proof -
  obtain out where "mergeAddresses fresh prior = fresh\<lparr>AltAddresses := out\<rparr>" "distinct out" "[] \<notin> set out"
    "set out = set (AltAddresses fresh) \<union> {Address prior} \<union> set (AltAddresses prior) - {[], Address fresh}"
    using mergeAddresses_alt by meson
  then show ?thesis by (auto simp: AllAddresses_def)
qed

text \<open>
  A contact can be in its bucket twice. An eviction that was started for a candidate, and ends
  after the candidate has entered the bucket another way, appends it without looking for it.
\<close>

theorem rt_reachable_duplicate:
  "\<exists>rt ts. rt_step\<^sup>*\<^sup>* (NewRoutingTable (id_copy []), []) (rt, ts) \<and> \<not> rt_distinct rt"
proof -
  let ?rt0 = "SetEvictionPing (NewRoutingTable (id_copy [])) True"
  have "rt_step\<^sup>*\<^sup>* (NewRoutingTable (id_copy []), []) (?rt0, [])" by (rule r_into_rtranclp [of rt_step, OF step_ping])
  moreover obtain ts where "rt_step\<^sup>*\<^sup>* (?rt0, []) (sample_full, ts)"
    unfolding sample_full_def using rt_steps_Updates by blast
  ultimately have "rt_step\<^sup>*\<^sup>* (NewRoutingTable (id_copy []), []) (sample_full, ts)"
    by (rule rtranclp_trans)
  from sample_reachable [OF this sample_check] obtain rt ts' where
    r: "rt_step\<^sup>*\<^sup>* (NewRoutingTable (id_copy []), []) (rt, ts')"
    and dup: "\<not> distinct (map ID (buckets rt ! 0))" by blast
  have "rt_state_inv (id_copy []) (NewRoutingTable (id_copy []), [])"
    using rt_inv_New by (simp add: rt_state_inv_def) (simp add: NewRoutingTable_def)
  from rt.run_inv [OF r this] have "0 < length (buckets rt)" by (simp add: rt_state_inv_def IDSize_def)
  with r dup show ?thesis by (auto simp: rt_distinct_def)
qed

text \<open>
  \<open>Remove\<close> deletes exactly the contact with the given identifier when the contacts of the
  table are distinct, and panics exactly when it is asked to remove the local node: there is no
  bucket 256.
\<close>

theorem Remove_spec:
  assumes "rt_inv rt" and "rt_distinct rt"
  shows "(Remove rt nid = None \<longleftrightarrow> nid = self rt)
    \<and> (\<forall>rt'. Remove rt nid = Some rt' \<longrightarrow>
        All_rt rt' = filter (\<lambda>c. ID c \<noteq> nid) (All_rt rt) \<and> rt_inv rt' \<and> rt_distinct rt')"
proof -
  have "IDSize * 8 \<le> CommonPrefixLen (self rt) nid \<longleftrightarrow> nid = self rt"
    using bucket_index_less [of nid "self rt"] by (cases "nid = self rt") auto
  then have "Remove rt nid = None \<longleftrightarrow> nid = self rt"
    using assms(1) by (auto simp: Remove_def Let_def)
  moreover have "All_rt rt' = filter (\<lambda>c. ID c \<noteq> nid) (All_rt rt)" if "Remove rt nid = Some rt'" for rt'
    using that Remove_buckets [OF assms that] by (simp add: All_rt_concat filter_concat)
  ultimately show ?thesis using Remove_inv [OF assms(1)] Remove_distinct [OF assms(2)] by blast
qed

theorem Remove_spec_witness:
  "Remove (NewRoutingTable (id_copy [])) (id_copy []) = None"
  using Remove_spec [OF rt_inv_New, of "id_copy []" "id_copy []"]
  by (simp add: rt_distinct_def NewRoutingTable_def)

end
