(* ===== verification/Local_Store.thy ===== *)
theory Local_Store
  imports Node_Ids Transitions
begin

text \<open>
  \<^verbatim>\<open>core/dht/store.go\<close>: the local key-value store with its byte budget, its per-peer quota,
  its least-recently-used eviction and its mirror on disk.

  The record \<open>localStore\<close> has the fields of the Go struct and the contents of the store directory
  (\<open>files\<close>: file name to bytes and modification time). Keys are the hexadecimal strings the code
  uses. \<^verbatim>\<open>time.Now()\<close> is an argument, and so is the order in which Go ranges over the map of
  values before it sorts the entries by their last access: as \<^verbatim>\<open>sort.Slice\<close> is not stable, a
  stable sort of an arbitrary enumeration is what it can produce. \<open>put\<close> releases its lock before it
  writes the file, so it is split into \<open>put_locked\<close> and \<open>put_disk\<close>, which other operations can
  separate. The byte counters are integers: sums of the lengths of values in memory are far below
  the 64 bits of the source.
\<close>

section \<open>Definitions\<close>

definition MaxValueSize :: nat where
  "MaxValueSize = 64 * 1024"

definition DefaultStoreBudgetBytes :: int where
  "DefaultStoreBudgetBytes = 2 ^ 30"

definition DefaultPerPeerBudgetBytes :: int where
  "DefaultPerPeerBudgetBytes = 64 * 2 ^ 20"

definition ContentAddress :: "(bytes \<Rightarrow> bytes) \<Rightarrow> bytes \<Rightarrow> NodeID" where
  "ContentAddress sha256 value = id_copy (sha256 value)"

record localStore =
  data :: "(string, bytes) fmap"
  access :: "(string, time) fmap"
  total_st :: int
  maxBytes :: int
  dataDir :: string
  attribution :: "(string, string) fmap"
  perPeer :: "(string, int) fmap"
  perPeerMax :: int
  files :: "(string, bytes \<times> time) fmap"

definition newLocalStore :: localStore where
  "newLocalStore = \<lparr>data = fmempty, access = fmempty, total_st = 0, maxBytes = 0, dataDir = '''',
     attribution = fmempty, perPeer = fmempty, perPeerMax = 0, files = fmempty\<rparr>"

subsection \<open>Eviction\<close>

definition refund_peer :: "localStore \<Rightarrow> string \<Rightarrow> int \<Rightarrow> localStore" where
  "refund_peer s hex n =
     (case fmlookup (attribution s) hex of
        None \<Rightarrow> s
      | Some attr \<Rightarrow>
          if attr = [] then s
          else
            let u = fmget0 (perPeer s) attr - n
            in s\<lparr>perPeer := (if u \<le> 0 then fmdrop attr (perPeer s) else fmupd attr u (perPeer s))\<rparr>)"

text \<open>The body that \<open>Delete\<close> and the eviction loop share: an entry that is present is dropped.\<close>

definition drop_entry :: "localStore \<Rightarrow> string \<Rightarrow> localStore" where
  "drop_entry s hex =
     (case fmlookup (data s) hex of
        None \<Rightarrow> s
      | Some v \<Rightarrow>
          let s1 = refund_peer (s\<lparr>total_st := total_st s - int (length v)\<rparr>) hex (int (length v))
          in s1\<lparr>data := fmdrop hex (data s1), access := fmdrop hex (access s1),
               attribution := fmdrop hex (attribution s1),
               files := (if dataDir s1 \<noteq> [] then fmdrop hex (files s1) else files s1)\<rparr>)"

fun evict_loop :: "localStore \<Rightarrow> int \<Rightarrow> string list \<Rightarrow> localStore" where
  "evict_loop s cap [] = s"
| "evict_loop s cap (e # es) =
     (if total_st s \<le> cap then s else evict_loop (drop_entry s e) cap es)"

definition evictUntilUnder :: "string list \<Rightarrow> localStore \<Rightarrow> int \<Rightarrow> localStore" where
  "evictUntilUnder ks s cap =
     (if cap \<le> 0 \<and> maxBytes s \<le> 0 then s
      else if total_st s \<le> cap then s
      else evict_loop s cap (sort_key (\<lambda>k. fmget0 (access s) k) ks))"

definition evictToFit :: "string list \<Rightarrow> localStore \<Rightarrow> int \<Rightarrow> localStore" where
  "evictToFit ks s needed =
     (if maxBytes s \<le> 0 then s
      else
        let target = maxBytes s - needed;
            target = (if target < 0 then 0 else target)
        in evictUntilUnder ks s target)"

subsection \<open>Writing a file atomically\<close>

datatype fs_fault = OpenFault | CopyFault nat | SyncFault | CloseFault | RenameFault

type_synonym dir_files = "(string, bytes \<times> time) fmap"

definition tmp_name :: "string \<Rightarrow> string" where
  "tmp_name path = path @ ''.tmp''"

text \<open>The result is the directory and whether an error was returned.\<close>

definition writeAtomic :: "fs_fault option \<Rightarrow> time \<Rightarrow> dir_files \<Rightarrow> string \<Rightarrow> bytes \<Rightarrow> dir_files \<times> bool" where
  "writeAtomic fault now fs path d =
     (let tmpPath = tmp_name path
      in case fault of
           Some OpenFault \<Rightarrow> (fs, True)
         | Some (CopyFault n) \<Rightarrow> (fmdrop tmpPath (fmupd tmpPath (take n d, now) fs), True)
         | Some SyncFault \<Rightarrow> (fmdrop tmpPath (fmupd tmpPath (d, now) fs), True)
         | Some CloseFault \<Rightarrow> (fmdrop tmpPath (fmupd tmpPath (d, now) fs), True)
         | Some RenameFault \<Rightarrow> (fmupd tmpPath (d, now) fs, True)
         | None \<Rightarrow> (fmupd path (d, now) (fmdrop tmpPath (fmupd tmpPath (d, now) fs)), False))"

text \<open>
  The directories a crash can leave behind: before the temporary file is opened, after it was
  truncated, after the first \<open>n\<close> bytes were copied, and after the rename.
\<close>

inductive writeAtomic_crash :: "time \<Rightarrow> dir_files \<Rightarrow> string \<Rightarrow> bytes \<Rightarrow> dir_files \<Rightarrow> bool" where
  crash_before: "writeAtomic_crash now fs path d fs"
| crash_copy: "writeAtomic_crash now fs path d (fmupd (tmp_name path) (take n d, now) fs)"
| crash_renamed: "writeAtomic_crash now fs path d (fst (writeAtomic None now fs path d))"

subsection \<open>Operations\<close>

definition over_quota :: "localStore \<Rightarrow> string \<Rightarrow> int \<Rightarrow> string \<Rightarrow> bool" where
  "over_quota s hex sz peerID =
     (if peerID \<noteq> [] \<and> perPeerMax s > 0 then
        let current = fmget0 (perPeer s) peerID;
            current = (case (fmlookup (attribution s) hex, fmlookup (data s) hex) of
                         (Some oldAttr, Some old) \<Rightarrow>
                           if oldAttr = peerID then current - int (length old) else current
                       | _ \<Rightarrow> current)
        in current + sz > perPeerMax s
      else False)"

definition refund_old :: "localStore \<Rightarrow> string \<Rightarrow> localStore" where
  "refund_old s hex =
     (case fmlookup (data s) hex of
        None \<Rightarrow> s
      | Some old \<Rightarrow>
          refund_peer (s\<lparr>total_st := total_st s - int (length old)\<rparr>) hex (int (length old)))"

definition store_value :: "time \<Rightarrow> localStore \<Rightarrow> string \<Rightarrow> bytes \<Rightarrow> string \<Rightarrow> localStore" where
  "store_value now s hex value peerID =
     (let sz = int (length value);
          s1 = s\<lparr>data := fmupd hex value (data s), access := fmupd hex now (access s),
                 total_st := total_st s + sz\<rparr>
      in if peerID \<noteq> []
         then s1\<lparr>attribution := fmupd hex peerID (attribution s1),
                perPeer := fmupd peerID (fmget0 (perPeer s1) peerID + sz) (perPeer s1)\<rparr>
         else s1\<lparr>attribution := fmdrop hex (attribution s1)\<rparr>)"

definition put_locked ::
  "string list \<Rightarrow> time \<Rightarrow> localStore \<Rightarrow> NodeID \<Rightarrow> bytes \<Rightarrow> string \<Rightarrow> localStore \<times> bool" where
  "put_locked ks now s key value peerID =
     (let hex = Hex key;
          sz = int (length value)
      in if over_quota s hex sz peerID then (s, False)
         else (store_value now (evictToFit ks (refund_old s hex) sz) hex value peerID, True))"

definition put_disk :: "fs_fault option \<Rightarrow> time \<Rightarrow> localStore \<Rightarrow> NodeID \<Rightarrow> bytes \<Rightarrow> localStore" where
  "put_disk fault now s key value =
     (if dataDir s = [] then s
      else s\<lparr>files := fst (writeAtomic fault now (files s) (Hex key) value)\<rparr>)"

definition put ::
  "string list \<Rightarrow> fs_fault option \<Rightarrow> time \<Rightarrow> localStore \<Rightarrow> NodeID \<Rightarrow> bytes \<Rightarrow> string \<Rightarrow> localStore \<times> bool"
  where
  "put ks fault now s key value peerID =
     (case put_locked ks now s key value peerID of
        (s1, False) \<Rightarrow> (s1, False)
      | (s1, True) \<Rightarrow> (put_disk fault now s1 key value, True))"

definition store_Put ::
  "string list \<Rightarrow> fs_fault option \<Rightarrow> time \<Rightarrow> localStore \<Rightarrow> NodeID \<Rightarrow> bytes \<Rightarrow> localStore" where
  "store_Put ks fault now s key value = fst (put ks fault now s key value '''')"

definition PutAttributed ::
  "string list \<Rightarrow> fs_fault option \<Rightarrow> time \<Rightarrow> localStore \<Rightarrow> NodeID \<Rightarrow> bytes \<Rightarrow> string \<Rightarrow> localStore \<times> bool"
  where
  "PutAttributed ks fault now s key value peerID = put ks fault now s key value peerID"

definition SetPerPeerMax :: "localStore \<Rightarrow> int \<Rightarrow> localStore" where
  "SetPerPeerMax s m = s\<lparr>perPeerMax := m\<rparr>"

definition PerPeerUsage :: "localStore \<Rightarrow> string \<Rightarrow> int" where
  "PerPeerUsage s peerID = fmget0 (perPeer s) peerID"

definition store_Delete :: "localStore \<Rightarrow> NodeID \<Rightarrow> localStore" where
  "store_Delete s key = drop_entry s (Hex key)"

definition store_Get :: "time \<Rightarrow> localStore \<Rightarrow> NodeID \<Rightarrow> localStore \<times> bytes option" where
  "store_Get now s key =
     (case fmlookup (data s) (Hex key) of
        None \<Rightarrow> (s, None)
      | Some v \<Rightarrow> (s\<lparr>access := fmupd (Hex key) now (access s)\<rparr>, Some v))"

definition store_Size :: "localStore \<Rightarrow> nat" where
  "store_Size s = fcard (fmdom (data s))"

definition TotalBytes :: "localStore \<Rightarrow> int" where
  "TotalBytes s = total_st s"

subsection \<open>Loading the store directory\<close>

text \<open>
  A directory entry with what the operating system answers for it: its name, whether it is a
  directory, the bytes if it can be read and the modification time if it can be had.
\<close>

record dir_entry =
  entry_name :: string
  entry_IsDir :: bool
  entry_bytes :: "bytes option"
  entry_ModTime :: "time option"

definition Ext :: "string \<Rightarrow> string" where
  "Ext path = (let r = takeWhile (\<lambda>c. c \<noteq> CHR ''.'') (rev path)
     in if length r = length path then '''' else CHR ''.'' # rev r)"

definition load_entry :: "time \<Rightarrow> localStore \<Rightarrow> dir_entry \<Rightarrow> localStore" where
  "load_entry now s e =
     (if entry_IsDir e then s
      else if Ext (entry_name e) = ''.tmp'' then s
      else case IDFromHex (entry_name e) of
             Inl _ \<Rightarrow> s
           | Inr _ \<Rightarrow>
               (case entry_bytes e of
                  None \<Rightarrow> s
                | Some d \<Rightarrow>
                    if length d > MaxValueSize then s
                    else s\<lparr>data := fmupd (entry_name e) d (data s),
                           total_st := total_st s + int (length d),
                           access := fmupd (entry_name e)
                             (case entry_ModTime e of Some t \<Rightarrow> t | None \<Rightarrow> now) (access s)\<rparr>))"

definition loadFromDisk :: "time \<Rightarrow> localStore \<Rightarrow> dir_entry list option \<Rightarrow> localStore option" where
  "loadFromDisk now s entries = map_option (foldl (load_entry now) s) entries"

datatype store_error = ErrCreateStoreDir | ErrLoadStore

text \<open>\<open>entries\<close> is what \<^verbatim>\<open>os.ReadDir\<close> returns, \<open>fs\<close> the directory it describes.\<close>

definition newLocalStoreWithLimit ::
  "string list \<Rightarrow> time \<Rightarrow> bool \<Rightarrow> dir_entry list option \<Rightarrow> dir_files \<Rightarrow> string \<Rightarrow> int
     \<Rightarrow> store_error + localStore" where
  "newLocalStoreWithLimit ks now mkdir_ok entries fs dir limit =
     (let s = newLocalStore\<lparr>maxBytes := limit\<rparr>
      in if dir = [] then Inr s
         else if \<not> mkdir_ok then Inl ErrCreateStoreDir
         else case loadFromDisk now (s\<lparr>dataDir := dir @ ''/store'', files := fs\<rparr>) entries of
                None \<Rightarrow> Inl ErrLoadStore
              | Some s1 \<Rightarrow> Inr (evictUntilUnder ks s1 (maxBytes s1)))"

definition newLocalStoreWithDir ::
  "string list \<Rightarrow> time \<Rightarrow> bool \<Rightarrow> dir_entry list option \<Rightarrow> dir_files \<Rightarrow> string \<Rightarrow> store_error + localStore"
  where
  "newLocalStoreWithDir ks now mkdir_ok entries fs dir =
     newLocalStoreWithLimit ks now mkdir_ok entries fs dir 0"


text \<open>The listing of a directory of plain files that can all be read.\<close>

definition dir_listing :: "string list \<Rightarrow> dir_files \<Rightarrow> dir_entry list" where
  "dir_listing names fs =
     map (\<lambda>n. \<lparr>entry_name = n, entry_IsDir = False, entry_bytes = map_option fst (fmlookup fs n),
               entry_ModTime = map_option snd (fmlookup fs n)\<rparr>) names"

subsection \<open>Interleavings\<close>

text \<open>
  A state is the store and the file writes that are still pending: \<open>put\<close> has released the lock
  and not yet written its file. Values have at most \<open>M\<close> bytes.
\<close>

type_synonym store_state = "localStore \<times> (NodeID \<times> bytes) list"

inductive store_step :: "nat \<Rightarrow> store_state \<Rightarrow> store_state \<Rightarrow> bool" for M where
  sstep_put: "set ks = fset (fmdom (data s)) \<Longrightarrow> length v \<le> M \<Longrightarrow> put_locked ks now s k v p = (s', True) \<Longrightarrow>
     store_step M (s, ws) (s', (k, v) # ws)"
| sstep_reject: "put_locked ks now s k v p = (s', False) \<Longrightarrow> store_step M (s, ws) (s', ws)"
| sstep_write: "(k, v) \<in> set ws \<Longrightarrow> store_step M (s, ws) (put_disk fault now s k v, remove1 (k, v) ws)"
| sstep_get: "store_step M (s, ws) (fst (store_Get now s k), ws)"
| sstep_delete: "store_step M (s, ws) (store_Delete s k, ws)"
| sstep_quota: "store_step M (s, ws) (SetPerPeerMax s m, ws)"

section \<open>Accounting\<close>

text \<open>
  \<open>bytes_held\<close> and \<open>peer_bytes\<close> are the sums the counters \<open>total_st\<close> and \<open>perPeer\<close> stand for.
  While a \<open>put\<close> overwrites a key, the size of the old value is refunded before the old value
  leaves the map: \<open>except\<close> leaves that key out of the sums.
\<close>

definition bytes_held :: "(string, bytes) fmap \<Rightarrow> int" where
  "bytes_held m = fmsum (\<lambda>k v. int (length v)) m"

definition peer_bytes :: "(string, bytes) fmap \<Rightarrow> (string, string) fmap \<Rightarrow> string \<Rightarrow> int" where
  "peer_bytes m att p = fmsum (\<lambda>k v. if fmlookup att k = Some p then int (length v) else 0) m"

fun except :: "string option \<Rightarrow> (string, 'v) fmap \<Rightarrow> (string, 'v) fmap" where
  "except None m = m"
| "except (Some k) m = fmdrop k m"

definition store_shape :: "localStore \<Rightarrow> bool" where
  "store_shape s \<longleftrightarrow> fmdom (access s) = fmdom (data s) \<and> fmdom (attribution s) |\<subseteq>| fmdom (data s)
     \<and> (\<forall>k. fmlookup (attribution s) k \<noteq> Some []) \<and> (\<forall>p. 0 \<le> fmget0 (perPeer s) p)
     \<and> fmget0 (perPeer s) [] = 0"

definition under_counted :: "string option \<Rightarrow> localStore \<Rightarrow> bool" where
  "under_counted h s \<longleftrightarrow> total_st s \<le> bytes_held (except h (data s))
     \<and> (\<forall>p. p \<noteq> [] \<longrightarrow> fmget0 (perPeer s) p \<le> peer_bytes (except h (data s)) (attribution s) p)"

definition counted :: "string option \<Rightarrow> localStore \<Rightarrow> bool" where
  "counted h s \<longleftrightarrow> total_st s = bytes_held (except h (data s))
     \<and> (\<forall>p. p \<noteq> [] \<longrightarrow> fmget0 (perPeer s) p = peer_bytes (except h (data s)) (attribution s) p)"

definition store_inv :: "localStore \<Rightarrow> bool" where
  "store_inv s \<longleftrightarrow> store_shape s \<and> under_counted None s"

definition store_exact :: "localStore \<Rightarrow> bool" where
  "store_exact s \<longleftrightarrow> store_shape s \<and> counted None s"

lemma store_exact_inv: "store_exact s \<Longrightarrow> store_inv s"
  by (simp add: store_exact_def store_inv_def counted_def under_counted_def)

lemma bytes_empty [simp]: "bytes_held fmempty = 0" "peer_bytes fmempty att p = 0"
  by (simp_all add: bytes_held_def peer_bytes_def)

lemma bytes_held_nonneg: "0 \<le> bytes_held m"
  by (simp add: bytes_held_def fmsum_nonneg)

lemma peer_bytes_nonneg: "0 \<le> peer_bytes m att p"
  by (simp add: peer_bytes_def fmsum_nonneg)

lemma peer_bytes_drop_attr [store_simps]:
  "peer_bytes (fmdrop e m) (fmdrop e att) p = peer_bytes (fmdrop e m) att p"
  unfolding peer_bytes_def by (rule fmsum_cong) (simp split: if_splits)

lemma peer_bytes_upd_attr [store_simps]:
  "peer_bytes (fmdrop e m) (fmupd e q att) p = peer_bytes (fmdrop e m) att p"
  unfolding peer_bytes_def by (rule fmsum_cong) (simp split: if_splits)

lemma bytes_held_drop: "fmlookup m k = Some v \<Longrightarrow> bytes_held m = int (length v) + bytes_held (fmdrop k m)"
  by (simp add: bytes_held_def fmsum_split [of m k v])

lemma peer_bytes_drop:
  "fmlookup m k = Some v \<Longrightarrow>
     peer_bytes m att p = (if fmlookup att k = Some p then int (length v) else 0) + peer_bytes (fmdrop k m) att p"
  by (simp add: peer_bytes_def fmsum_split [of m k v])

lemma fmdrop_absent [simp]: "fmlookup m k = None \<Longrightarrow> fmdrop k m = m"
  by (rule fmap_ext) simp

lemma bytes_held_upd: "bytes_held (fmupd k v m) = int (length v) + bytes_held (fmdrop k m)"
  using bytes_held_drop [of "fmupd k v m" k v] by (simp add: fmdrop_fmupd_same)

lemma peer_bytes_upd:
  "peer_bytes (fmupd k v m) att p
     = (if fmlookup att k = Some p then int (length v) else 0) + peer_bytes (fmdrop k m) att p"
  using peer_bytes_drop [of "fmupd k v m" k v att p] by (simp add: fmdrop_fmupd_same)

lemma refund_peer_simps [simp]:
  "data (refund_peer s h n) = data s" "access (refund_peer s h n) = access s"
  "total_st (refund_peer s h n) = total_st s" "maxBytes (refund_peer s h n) = maxBytes s"
  "dataDir (refund_peer s h n) = dataDir s" "attribution (refund_peer s h n) = attribution s"
  "perPeerMax (refund_peer s h n) = perPeerMax s" "files (refund_peer s h n) = files s"
  by (auto simp: refund_peer_def Let_def split: option.splits)

lemma refund_peer_perPeer:
  "\<forall>k. fmlookup (attribution s) k \<noteq> Some [] \<Longrightarrow>
   fmget0 (perPeer (refund_peer s h n)) p =
     (if fmlookup (attribution s) h = Some p then max 0 (fmget0 (perPeer s) p - n) else fmget0 (perPeer s) p)"
  by (auto simp: refund_peer_def Let_def store_simps split: option.splits)

lemma drop_entry_absent [simp]: "fmlookup (data s) e = None \<Longrightarrow> drop_entry s e = s"
  by (simp add: drop_entry_def)

lemma drop_entry_simps [simp]:
  "data (drop_entry s e) = fmdrop e (data s)"
  "maxBytes (drop_entry s e) = maxBytes s" "dataDir (drop_entry s e) = dataDir s"
  "perPeerMax (drop_entry s e) = perPeerMax s"
  by (auto simp: drop_entry_def Let_def split: option.splits)

lemma drop_entry_present:
  assumes "fmlookup (data s) e = Some v"
  shows "access (drop_entry s e) = fmdrop e (access s)"
    and "attribution (drop_entry s e) = fmdrop e (attribution s)"
    and "total_st (drop_entry s e) = total_st s - int (length v)"
    and "perPeer (drop_entry s e) = perPeer (refund_peer s e (int (length v)))"
  using assms by (auto simp: drop_entry_def Let_def refund_peer_def split: option.splits)

lemma drop_entry_shape [wf_intros]:
  assumes "store_shape s"
  shows "store_shape (drop_entry s e)"
proof (cases "fmlookup (data s) e")
  case (Some v)
  have na: "\<forall>k. fmlookup (attribution s) k \<noteq> Some []" using assms by (simp add: store_shape_def)
  show ?thesis
    using assms by (auto simp: store_shape_def drop_entry_present [OF Some] refund_peer_perPeer [OF na])
qed (simp add: assms)

lemma except_drop: "except h (fmdrop e m) = fmdrop e (except h m)"
  by (cases h) (simp_all add: fmdrop_comm)

lemma except_lookup: "h \<noteq> Some e \<Longrightarrow> fmlookup (except h m) e = fmlookup m e"
  by (cases h) auto

lemma drop_entry_under_counted:
  assumes "store_shape s" "under_counted h s"
  shows "under_counted h (drop_entry s e)"
proof (cases "fmlookup (data s) e")
  case (Some v)
  have na: "\<forall>k. fmlookup (attribution s) k \<noteq> Some []" and pos: "\<forall>p. 0 \<le> fmget0 (perPeer s) p"
    using assms(1) by (auto simp: store_shape_def)
  let ?m = "except h (data s)"
  have sums: "bytes_held ?m \<le> int (length v) + bytes_held (fmdrop e ?m) \<and>
    peer_bytes ?m (attribution s) p \<le> (if fmlookup (attribution s) e = Some p then int (length v) else 0)
       + peer_bytes (fmdrop e ?m) (attribution s) p" for p
  proof (cases "h = Some e")
    case False
    then have "fmlookup ?m e = Some v" using Some by (simp add: except_lookup)
    then show ?thesis using bytes_held_drop [of ?m e v] peer_bytes_drop [of ?m e v "attribution s" p] by simp
  qed simp
  have "total_st (drop_entry s e) \<le> bytes_held (fmdrop e ?m)"
    using sums [of "[]"] assms(2) by (simp add: drop_entry_present [OF Some] under_counted_def)
  moreover have "fmget0 (perPeer (drop_entry s e)) p \<le> peer_bytes (fmdrop e ?m) (attribution s) p" if "p \<noteq> []" for p
  proof -
    have "fmget0 (perPeer s) p \<le> peer_bytes ?m (attribution s) p" "0 \<le> fmget0 (perPeer s) p"
      using assms(2) pos that by (auto simp: under_counted_def)
    then show ?thesis
      using sums [of p] peer_bytes_nonneg [of "fmdrop e ?m" "attribution s" p]
      by (simp add: drop_entry_present [OF Some] refund_peer_perPeer [OF na] split: if_splits)
  qed
  ultimately show ?thesis
    by (simp add: under_counted_def except_drop drop_entry_present [OF Some] peer_bytes_drop_attr)
qed (simp add: assms)

lemma drop_entry_counted:
  assumes "store_shape s" "counted h s" "h \<noteq> Some e"
  shows "counted h (drop_entry s e)"
proof (cases "fmlookup (data s) e")
  case (Some v)
  have na: "\<forall>k. fmlookup (attribution s) k \<noteq> Some []" using assms(1) by (auto simp: store_shape_def)
  have lk: "fmlookup (except h (data s)) e = Some v" using Some assms(3) by (simp add: except_lookup)
  note sums = bytes_held_drop [OF lk] peer_bytes_drop [OF lk, of "attribution s"]
  have "fmget0 (perPeer (drop_entry s e)) p = peer_bytes (fmdrop e (except h (data s))) (attribution s) p"
    if "p \<noteq> []" for p
  proof -
    have "fmget0 (perPeer s) p = peer_bytes (except h (data s)) (attribution s) p"
      using assms(2) that by (auto simp: counted_def)
    then show ?thesis
      using sums(2) [of p] peer_bytes_nonneg [of "fmdrop e (except h (data s))" "attribution s" p]
      by (simp add: drop_entry_present [OF Some] refund_peer_perPeer [OF na] split: if_splits)
  qed
  then show ?thesis using sums(1) assms(2)
    by (simp add: counted_def except_drop drop_entry_present [OF Some] peer_bytes_drop_attr)
qed (simp add: assms)

section \<open>The eviction loop\<close>

lemma evict_loop_inv:
  assumes "\<And>s e. e \<in> set es \<Longrightarrow> P s \<Longrightarrow> P (drop_entry s e)" "P s"
  shows "P (evict_loop s cap es)"
  using assms by (induction s cap es rule: evict_loop.induct) auto

lemma evict_loop_simps [simp]:
  "maxBytes (evict_loop s cap es) = maxBytes s" "dataDir (evict_loop s cap es) = dataDir s"
  "perPeerMax (evict_loop s cap es) = perPeerMax s"
  by (induction s cap es rule: evict_loop.induct) simp_all

lemma evictUntilUnder_inv:
  assumes "\<And>s e. e \<in> set ks \<Longrightarrow> P s \<Longrightarrow> P (drop_entry s e)" "P s"
  shows "P (evictUntilUnder ks s cap)"
  unfolding evictUntilUnder_def using assms by (auto intro!: evict_loop_inv [of _ P])

lemma evictToFit_inv:
  assumes "\<And>s e. e \<in> set ks \<Longrightarrow> P s \<Longrightarrow> P (drop_entry s e)" "P s"
  shows "P (evictToFit ks s n)"
  unfolding evictToFit_def Let_def using assms by (auto intro!: evictUntilUnder_inv [of _ P])

lemma evict_loop_reaches:
  "store_shape s \<Longrightarrow> under_counted h s \<Longrightarrow> 0 \<le> cap \<Longrightarrow> fset (fmdom (data s)) \<subseteq> set es \<Longrightarrow>
    total_st (evict_loop s cap es) \<le> cap"
proof (induction s cap es rule: evict_loop.induct)
  case (1 s cap)
  then have "data s = fmempty" by (intro fmap_ext) (auto simp: fmlookup_dom_iff)
  then have "except h (data s) = fmempty" by (cases h) auto
  with 1 show ?case by (simp add: under_counted_def bytes_held_def)
next
  case (2 s cap e es)
  show ?case
  proof (cases "total_st s \<le> cap")
    case False
    have "fset (fmdom (data (drop_entry s e))) \<subseteq> set es" using 2(5) by auto
    with False 2 show ?thesis by (simp add: drop_entry_shape drop_entry_under_counted)
  qed simp
qed

lemma evict_loop_prefix:
  "\<exists>n \<le> length es. evict_loop s cap es = foldl drop_entry s (take n es)
     \<and> (\<forall>m<n. cap < total_st (foldl drop_entry s (take m es)))"
proof (induction s cap es rule: evict_loop.induct)
  case (2 s cap e es)
  show ?case
  proof (cases "total_st s \<le> cap")
    case False
    with 2 obtain n where n: "n \<le> length es" "evict_loop (drop_entry s e) cap es = foldl drop_entry (drop_entry s e) (take n es)"
      "\<forall>m<n. cap < total_st (foldl drop_entry (drop_entry s e) (take m es))" by blast
    have "cap < total_st (foldl drop_entry s (take m (e # es)))" if "m < Suc n" for m
      using that n(3) False by (cases m) auto
    with n False show ?thesis by (intro exI [of _ "Suc n"]) auto
  qed (auto intro: exI [of _ 0])
qed auto

lemma drop_entries_lookup:
  "fmlookup (data (foldl drop_entry s es)) k = (if k \<in> set es then None else fmlookup (data s) k)"
  by (induction es arbitrary: s) auto

lemma drop_entry_access: "k \<noteq> e \<Longrightarrow> fmlookup (access (drop_entry s e)) k = fmlookup (access s) k"
  by (cases "fmlookup (data s) e") (simp_all add: drop_entry_present)

lemma drop_entry_attribution: "k \<noteq> e \<Longrightarrow> fmlookup (attribution (drop_entry s e)) k = fmlookup (attribution s) k"
  by (cases "fmlookup (data s) e") (simp_all add: drop_entry_present)

section \<open>Storing a value\<close>

lemma refund_old_simps [simp]:
  "data (refund_old s h) = data s" "access (refund_old s h) = access s"
  "maxBytes (refund_old s h) = maxBytes s" "dataDir (refund_old s h) = dataDir s"
  "attribution (refund_old s h) = attribution s" "perPeerMax (refund_old s h) = perPeerMax s"
  by (auto simp: refund_old_def split: option.splits)

lemma refund_old_absent [simp]: "fmlookup (data s) h = None \<Longrightarrow> refund_old s h = s"
  by (simp add: refund_old_def)

lemma refund_old_present:
  assumes "fmlookup (data s) h = Some v"
  shows "total_st (refund_old s h) = total_st s - int (length v)"
    and "perPeer (refund_old s h) = perPeer (refund_peer s h (int (length v)))"
  using assms by (auto simp: refund_old_def refund_peer_def split: option.splits)

lemma refund_old_shape:
  assumes "store_shape s"
  shows "store_shape (refund_old s h)"
proof (cases "fmlookup (data s) h")
  case (Some v)
  have na: "\<forall>k. fmlookup (attribution s) k \<noteq> Some []" using assms by (simp add: store_shape_def)
  show ?thesis
    using assms by (auto simp: store_shape_def refund_old_present [OF Some] refund_peer_perPeer [OF na])
qed (simp add: assms)

text \<open>Refunding is what dropping the entry does to the counters.\<close>

lemma refund_old_drop:
  "total_st (refund_old s h) = total_st (drop_entry s h)"
  "perPeer (refund_old s h) = perPeer (drop_entry s h)"
  by (cases "fmlookup (data s) h"; simp add: refund_old_present drop_entry_present)+

lemma refund_old_under_counted:
  "store_inv s \<Longrightarrow> under_counted (Some h) (refund_old s h)"
  using drop_entry_under_counted [of s None h] drop_entry_attribution [of _ h s]
  by (cases "fmlookup (data s) h")
     (simp_all add: store_inv_def under_counted_def refund_old_drop drop_entry_present peer_bytes_drop_attr)

lemma refund_old_counted:
  "store_exact s \<Longrightarrow> counted (Some h) (refund_old s h)"
  using drop_entry_counted [of s None h]
  by (cases "fmlookup (data s) h")
     (simp_all add: store_exact_def counted_def refund_old_drop drop_entry_present peer_bytes_drop_attr)

lemma store_value_simps [simp]:
  "data (store_value now s h v p) = fmupd h v (data s)"
  "access (store_value now s h v p) = fmupd h now (access s)"
  "total_st (store_value now s h v p) = total_st s + int (length v)"
  "maxBytes (store_value now s h v p) = maxBytes s" "dataDir (store_value now s h v p) = dataDir s"
  "perPeerMax (store_value now s h v p) = perPeerMax s" "files (store_value now s h v p) = files s"
  "attribution (store_value now s h v p) =
     (if p \<noteq> [] then fmupd h p (attribution s) else fmdrop h (attribution s))"
  "p \<noteq> [] \<Longrightarrow> fmget0 (perPeer (store_value now s h v p)) q =
     fmget0 (perPeer s) q + (if q = p then int (length v) else 0)"
  "perPeer (store_value now s h v []) = perPeer s"
  by (auto simp: store_value_def Let_def store_simps)

lemma store_value_shape:
  "store_shape s \<Longrightarrow> store_shape (store_value now s h v p)"
  by (cases "p = []") (auto simp: store_shape_def fmdom_drop)

lemma store_value_under_counted:
  "under_counted (Some h) s \<Longrightarrow> under_counted None (store_value now s h v p)"
  by (cases "p = []")
     (simp_all add: under_counted_def bytes_held_upd peer_bytes_upd peer_bytes_upd_attr peer_bytes_drop_attr)

lemma store_value_counted:
  "counted (Some h) s \<Longrightarrow> counted None (store_value now s h v p)"
  by (cases "p = []")
     (simp_all add: counted_def bytes_held_upd peer_bytes_upd peer_bytes_upd_attr peer_bytes_drop_attr)

lemma put_locked_inv:
  assumes "store_inv s"
  shows "store_inv (fst (put_locked ks now s key v p))"
proof -
  let ?s1 = "refund_old s (Hex key)"
  let ?P = "\<lambda>s. store_shape s \<and> under_counted (Some (Hex key)) s"
  have "?P ?s1" using assms refund_old_under_counted refund_old_shape by (auto simp: store_inv_def)
  then have "?P (evictToFit ks ?s1 (int (length v)))"
    by (rule evictToFit_inv [where P = ?P, rotated]) (simp add: drop_entry_shape drop_entry_under_counted)
  then show ?thesis using assms
    by (simp add: put_locked_def Let_def store_inv_def store_value_shape store_value_under_counted)
qed

text \<open>The counters stay exact unless the eviction drops the very entry that was just refunded.\<close>

definition double_refund :: "string list \<Rightarrow> localStore \<Rightarrow> NodeID \<Rightarrow> bytes \<Rightarrow> bool" where
  "double_refund ks s key v \<longleftrightarrow> fmlookup (data s) (Hex key) \<noteq> None
     \<and> fmlookup (data (evictToFit ks (refund_old s (Hex key)) (int (length v)))) (Hex key) = None"

lemma put_locked_exact:
  assumes "store_exact s" "\<not> double_refund ks s key v"
  shows "store_exact (fst (put_locked ks now s key v p))"
proof -
  let ?h = "Hex key" and ?s1 = "refund_old s (Hex key)"
  let ?s2 = "evictToFit ks ?s1 (int (length v))"
  let ?P = "\<lambda>x. store_shape x \<and> (fmlookup (data s) ?h = None \<longrightarrow> fmlookup (data x) ?h = None \<and> counted None x)
     \<and> (fmlookup (data x) ?h \<noteq> None \<longrightarrow> counted (Some ?h) x)"
  have "?P ?s1" using assms(1) refund_old_counted refund_old_shape by (auto simp: store_exact_def)
  then have "?P ?s2"
    by (rule evictToFit_inv [where P = ?P, rotated]) (auto simp: drop_entry_shape drop_entry_counted)
  moreover have "counted (Some ?h) ?s2" if "counted None ?s2" "fmlookup (data ?s2) ?h = None"
    using that by (simp add: counted_def)
  ultimately have "store_shape ?s2 \<and> counted (Some ?h) ?s2" using assms(2) unfolding double_refund_def by metis
  then show ?thesis using assms(1)
    by (simp add: put_locked_def Let_def store_exact_def store_value_shape store_value_counted)
qed

lemma put_disk_simps [simp]:
  "data (put_disk f now s k v) = data s" "access (put_disk f now s k v) = access s"
  "total_st (put_disk f now s k v) = total_st s" "maxBytes (put_disk f now s k v) = maxBytes s"
  "dataDir (put_disk f now s k v) = dataDir s" "attribution (put_disk f now s k v) = attribution s"
  "perPeer (put_disk f now s k v) = perPeer s" "perPeerMax (put_disk f now s k v) = perPeerMax s"
  by (simp_all add: put_disk_def)

lemma put_disk_inv [simp]:
  "store_inv (put_disk f now s k v) = store_inv s" "store_exact (put_disk f now s k v) = store_exact s"
  by (simp_all add: store_inv_def store_exact_def store_shape_def under_counted_def counted_def)

lemma put_cases:
  "fst (put ks f now s k v p) = (if over_quota s (Hex k) (int (length v)) p then s
     else put_disk f now (fst (put_locked ks now s k v p)) k v)"
  "snd (put ks f now s k v p) \<longleftrightarrow> \<not> over_quota s (Hex k) (int (length v)) p"
  by (simp_all add: put_def put_locked_def Let_def)

lemma put_inv [wf_intros]: "store_inv s \<Longrightarrow> store_inv (fst (put ks f now s k v p))"
  by (simp add: put_cases put_locked_inv)

lemma store_Delete_inv [wf_intros]: "store_inv s \<Longrightarrow> store_inv (store_Delete s k)"
  by (simp add: store_Delete_def store_inv_def drop_entry_shape drop_entry_under_counted)

lemma store_Delete_exact: "store_exact s \<Longrightarrow> store_exact (store_Delete s k)"
  by (simp add: store_Delete_def store_exact_def drop_entry_shape drop_entry_counted)

lemma store_Get_simps [simp]:
  "data (fst (store_Get now s k)) = data s" "total_st (fst (store_Get now s k)) = total_st s"
  "maxBytes (fst (store_Get now s k)) = maxBytes s" "dataDir (fst (store_Get now s k)) = dataDir s"
  "attribution (fst (store_Get now s k)) = attribution s" "perPeer (fst (store_Get now s k)) = perPeer s"
  "perPeerMax (fst (store_Get now s k)) = perPeerMax s" "files (fst (store_Get now s k)) = files s"
  "snd (store_Get now s k) = fmlookup (data s) (Hex k)"
  by (auto simp: store_Get_def split: option.splits)

lemma store_Get_shape: "store_shape s \<Longrightarrow> store_shape (fst (store_Get now s k))"
  by (auto simp: store_shape_def store_Get_def fmlookup_dom_iff split: option.splits)

lemma store_Get_inv [wf_intros]: "store_inv s \<Longrightarrow> store_inv (fst (store_Get now s k))"
  by (simp add: store_inv_def store_Get_shape under_counted_def)

lemma store_Get_exact: "store_exact s \<Longrightarrow> store_exact (fst (store_Get now s k))"
  by (simp add: store_exact_def store_Get_shape counted_def)

section \<open>What stays in the store\<close>

lemma evictToFit_lookup:
  assumes "fmlookup (data (evictToFit ks s n)) k = Some w"
  shows "fmlookup (data s) k = Some w"
proof -
  let ?P = "\<lambda>x. \<forall>w. fmlookup (data x) k = Some w \<longrightarrow> fmlookup (data s) k = Some w"
  have "?P (evictToFit ks s n)" by (rule evictToFit_inv [where P = ?P]) auto
  with assms show ?thesis by blast
qed

lemma evictToFit_simps [simp]:
  "maxBytes (evictToFit ks s n) = maxBytes s" "dataDir (evictToFit ks s n) = dataDir s"
  "perPeerMax (evictToFit ks s n) = perPeerMax s"
  by (simp_all add: evictToFit_def evictUntilUnder_def Let_def)

lemma put_locked_lookup:
  "\<not> over_quota s (Hex k) (int (length v)) p \<Longrightarrow>
   data (fst (put_locked ks now s k v p)) = fmupd (Hex k) v (data (evictToFit ks (refund_old s (Hex k)) (int (length v))))"
  by (simp add: put_locked_def Let_def)

lemma evictToFit_total:
  assumes "store_shape s" "under_counted h s" "fset (fmdom (data s)) \<subseteq> set ks" "0 < maxBytes s"
  shows "total_st (evictToFit ks s n) \<le> max 0 (maxBytes s - n)"
proof -
  have "total_st (evictUntilUnder ks s cap) \<le> cap" if "0 \<le> cap" for cap
    using evict_loop_reaches [OF assms(1,2) that, of "sort_key (fmget0 (access s)) ks"] assms(3,4)
    by (simp add: evictUntilUnder_def)
  then show ?thesis using assms(4) by (simp add: evictToFit_def Let_def max_def)
qed

lemma drop_entry_perPeer_le:
  assumes "store_shape s"
  shows "fmget0 (perPeer (drop_entry s e)) p \<le> fmget0 (perPeer s) p"
proof (cases "fmlookup (data s) e")
  case (Some v)
  have na: "\<forall>k. fmlookup (attribution s) k \<noteq> Some []" and "0 \<le> fmget0 (perPeer s) p"
    using assms by (auto simp: store_shape_def)
  then show ?thesis by (simp add: drop_entry_present [OF Some] refund_peer_perPeer [OF na])
qed simp

lemma evictToFit_perPeer_le:
  assumes "store_shape s"
  shows "fmget0 (perPeer (evictToFit ks s n)) p \<le> fmget0 (perPeer s) p"
proof -
  let ?P = "\<lambda>x. store_shape x \<and> fmget0 (perPeer x) p \<le> fmget0 (perPeer s) p"
  have "?P (evictToFit ks s n)"
  proof (rule evictToFit_inv [where P = ?P])
    show "?P (drop_entry x e)" if "?P x" for x e
      using that drop_entry_perPeer_le [of x e p] by (auto intro: drop_entry_shape)
  qed (simp add: assms)
  then show ?thesis by blast
qed

section \<open>The store as an interface\<close>

locale kv_store =
  fixes find_value :: "'s \<Rightarrow> NodeID \<Rightarrow> bytes option"
    and put_value :: "'a \<Rightarrow> 's \<Rightarrow> NodeID \<Rightarrow> bytes \<Rightarrow> 's \<times> bool"
    and delete_value :: "'s \<Rightarrow> NodeID \<Rightarrow> 's"
  assumes put_same: "put_value a s k v = (s', True) \<Longrightarrow> find_value s' k = Some v"
    and put_other: "put_value a s k v = (s', ok) \<Longrightarrow> j \<noteq> k \<Longrightarrow> find_value s' j = Some w \<Longrightarrow> find_value s j = Some w"
    and put_rejected: "put_value a s k v = (s', False) \<Longrightarrow> s' = s"
    and delete_same: "find_value (delete_value s k) k = None"
    and delete_other: "j \<noteq> k \<Longrightarrow> find_value (delete_value s k) j = find_value s j"
begin

definition all_stored :: "(NodeID \<Rightarrow> bytes \<Rightarrow> bool) \<Rightarrow> 's \<Rightarrow> bool" where
  "all_stored P s \<longleftrightarrow> (\<forall>k v. find_value s k = Some v \<longrightarrow> P k v)"

lemma all_stored_put: "all_stored P s \<Longrightarrow> P k v \<Longrightarrow> all_stored P (fst (put_value a s k v))"
proof -
  assume P: "all_stored P s" "P k v"
  obtain s' ok where p: "put_value a s k v = (s', ok)" by (cases "put_value a s k v")
  have "P j w" if "find_value s' j = Some w" for j w
  proof (cases "j = k")
    case True
    then show ?thesis using that p P put_same [of a s k v s'] put_rejected [of a s k v s']
      by (cases ok) (auto simp: all_stored_def)
  next
    case False
    then show ?thesis using put_other [OF p False that] P by (simp add: all_stored_def)
  qed
  then show ?thesis by (simp add: all_stored_def p)
qed

lemma all_stored_delete: "all_stored P s \<Longrightarrow> all_stored (\<lambda>j w. P j w \<and> j \<noteq> k) (delete_value s k)"
  unfolding all_stored_def by (metis delete_other delete_same option.distinct(1))

lemma all_stored_mono: "all_stored P s \<Longrightarrow> (\<And>k v. P k v \<Longrightarrow> Q k v) \<Longrightarrow> all_stored Q s"
  by (simp add: all_stored_def)

end

definition store_find :: "localStore \<Rightarrow> NodeID \<Rightarrow> bytes option" where
  "store_find s k = fmlookup (data s) (Hex k)"

interpretation store: kv_store store_find
  "\<lambda>(ks, fault, now, peer) s k v. put ks fault now s k v peer" store_Delete
proof (unfold_locales, goal_cases)
  case (1 a s k v s')
  then show ?case
    by (cases a) (auto simp: store_find_def put_def put_locked_def Let_def split: prod.splits bool.splits if_splits)
next
  case (2 a s k v s' ok j w)
  then show ?case using evictToFit_lookup [of _ "refund_old s (Hex k)" "int (length v)" "Hex j" w]
    by (cases a) (auto simp: store_find_def put_def put_locked_def Let_def Hex_inj split: prod.splits bool.splits if_splits)
next
  case (3 a s k v s')
  then show ?case
    by (cases a) (auto simp: put_def put_locked_def Let_def split: prod.splits bool.splits if_splits)
qed (auto simp: store_find_def store_Delete_def Hex_inj)

section \<open>Invariants of every interleaving\<close>

definition budget_inv :: "nat \<Rightarrow> int \<Rightarrow> store_state \<Rightarrow> bool" where
  "budget_inv M limit st \<longleftrightarrow> store_inv (fst st) \<and> maxBytes (fst st) = limit
     \<and> (0 < limit \<longrightarrow> total_st (fst st) \<le> max limit (int M))"

lemma put_locked_maxBytes [simp]: "maxBytes (fst (put_locked ks now s k v p)) = maxBytes s"
  by (simp add: put_locked_def Let_def)

lemma put_locked_total:
  assumes "store_inv s" "fset (fmdom (data s)) \<subseteq> set ks" "0 < maxBytes s"
    "\<not> over_quota s (Hex k) (int (length v)) p"
  shows "total_st (fst (put_locked ks now s k v p)) \<le> max (maxBytes s) (int (length v))"
  using evictToFit_total [of "refund_old s (Hex k)" "Some (Hex k)" ks "int (length v)"] assms
    refund_old_under_counted [of s "Hex k"] refund_old_shape [of s "Hex k"]
  by (auto simp: put_locked_def Let_def store_inv_def)

lemma store_Delete_total: "total_st (store_Delete s k) \<le> total_st s"
  by (cases "fmlookup (data s) (Hex k)") (simp_all add: store_Delete_def drop_entry_present)

lemma budget_inv_step: "budget_inv M limit st \<Longrightarrow> store_step M st st' \<Longrightarrow> budget_inv M limit st'"
proof -
  assume inv: "budget_inv M limit st" and st: "store_step M st st'"
  from st inv show "budget_inv M limit st'"
  proof cases
    case (sstep_put ks s v now k p s' ws)
    then have "\<not> over_quota s (Hex k) (int (length v)) p" and s': "s' = fst (put_locked ks now s k v p)"
      by (auto simp: put_locked_def Let_def split: if_splits)
    moreover have "store_inv s" "maxBytes s = limit" using inv sstep_put(1) by (simp_all add: budget_inv_def)
    ultimately show ?thesis
      using put_locked_total [of s ks k v p now] put_locked_inv [of s ks now k v p] sstep_put(2,3,4)
      by (simp add: budget_inv_def) linarith
  next
    case (sstep_reject ks now s k v p s' ws)
    then have "s' = s" by (auto simp: put_locked_def Let_def split: if_splits)
    with sstep_reject inv show ?thesis by (simp add: budget_inv_def)
  next
    case (sstep_delete s ws k)
    with inv store_Delete_total [of s k] show ?thesis
      by (auto simp: budget_inv_def store_Delete_inv) (simp_all add: store_Delete_def)
  qed (auto simp: budget_inv_def SetPerPeerMax_def store_inv_def store_shape_def under_counted_def
        store_Get_shape [unfolded store_shape_def])
qed

interpretation store_runs: step_invariant "store_step M" "budget_inv M limit" for M limit
  by unfold_locales (rule budget_inv_step)

section \<open>The mirror on disk\<close>

lemma writeAtomic_lookup:
  assumes "writeAtomic fault now fs path d = (fs', err)" "n \<noteq> tmp_name path"
  shows "fmlookup fs' n = (if n = path \<and> fault = None then Some (d, now) else fmlookup fs n)"
  using assms by (auto simp: writeAtomic_def Let_def split: option.splits fs_fault.splits)

lemma Ext_tmp_name: "Ext (tmp_name path) = ''.tmp''"
  by (simp add: Ext_def tmp_name_def Let_def)

lemma load_entry_lookup:
  "fmlookup (data (load_entry now s e)) n =
     (if n = entry_name e \<and> \<not> entry_IsDir e \<and> Ext n \<noteq> ''.tmp'' \<and> (\<exists>i. IDFromHex n = Inr i)
         \<and> (\<exists>d. entry_bytes e = Some d \<and> length d \<le> MaxValueSize)
      then entry_bytes e else fmlookup (data s) n)"
  by (auto simp: load_entry_def split: sum.splits option.splits)

definition loadable :: "string \<Rightarrow> bytes \<Rightarrow> bool" where
  "loadable n d \<longleftrightarrow> Ext n \<noteq> ''.tmp'' \<and> (\<exists>i. IDFromHex n = Inr i) \<and> length d \<le> MaxValueSize"

lemma load_listing_lookup:
  "fmlookup (data (foldl (load_entry now) s (dir_listing names fs))) n =
     (case fmlookup fs n of
        Some (d, t) \<Rightarrow> if n \<in> set names \<and> loadable n d then Some d else fmlookup (data s) n
      | None \<Rightarrow> fmlookup (data s) n)"
  by (induction names arbitrary: s)
     (auto simp: dir_listing_def load_entry_lookup loadable_def split: option.splits)

lemma hex_decode_chars: "hex_decode s = Some bs \<Longrightarrow> \<forall>c\<in>set s. hex_val c \<noteq> None"
  by (induction s arbitrary: bs rule: hex_decode.induct) (auto split: option.splits)

lemma IDFromHex_Ext: "IDFromHex n = Inr i \<Longrightarrow> Ext n \<noteq> ''.tmp''"
proof -
  assume "IDFromHex n = Inr i"
  then have "\<forall>c\<in>set n. hex_val c \<noteq> None" using hex_decode_chars by (auto simp: IDFromHex_Inr_iff)
  moreover have "hex_val (CHR ''.'') = None" by code_simp
  ultimately have "CHR ''.'' \<notin> set n" by auto
  then have "takeWhile (\<lambda>c. c \<noteq> CHR ''.'') (rev n) = rev n" by (auto simp: takeWhile_eq_all_conv)
  then show ?thesis unfolding Ext_def Let_def by (simp only: length_rev) simp
qed

lemma loadable_Hex [simp]: "loadable (Hex k) d \<longleftrightarrow> length d \<le> MaxValueSize"
  using IDFromHex_Ext [OF IDFromHex_Hex [of k]] by (simp add: loadable_def)

lemma not_loadable_tmp [simp]: "\<not> loadable (tmp_name path) d"
  by (simp add: loadable_def Ext_tmp_name)

definition mirrored :: "localStore \<Rightarrow> bool" where
  "mirrored s \<longleftrightarrow> dataDir s \<noteq> [] \<and> (\<forall>n. map_option fst (fmlookup (files s) n) = fmlookup (data s) n)
     \<and> (\<forall>n v. fmlookup (data s) n = Some v \<longrightarrow> loadable n v)"

lemma files_drop_entry:
  "files (drop_entry s e) = (if fmlookup (data s) e \<noteq> None \<and> dataDir s \<noteq> [] then fmdrop e (files s) else files s)"
  by (auto simp: drop_entry_def Let_def split: option.splits)

lemma mirrored_drop_entry [wf_intros]: "mirrored s \<Longrightarrow> mirrored (drop_entry s e)"
  by (cases "fmlookup (data s) e") (auto simp: mirrored_def files_drop_entry)

lemma files_refund_old [simp]: "files (refund_old s h) = files s"
  by (auto simp: refund_old_def split: option.splits)

lemma mirrored_refund_old: "mirrored s \<Longrightarrow> mirrored (refund_old s h)"
  by (simp add: mirrored_def)

lemma mirrored_put:
  assumes "mirrored s" "length v \<le> MaxValueSize"
  shows "mirrored (fst (put ks None now s k v p))"
proof -
  let ?s2 = "evictToFit ks (refund_old s (Hex k)) (int (length v))"
  have m: "mirrored ?s2"
    by (rule evictToFit_inv [where P = mirrored]) (auto intro: mirrored_drop_entry mirrored_refund_old assms(1))
  then have tmp: "fmlookup (data ?s2) (tmp_name (Hex k)) = None" "fmlookup (files ?s2) (tmp_name (Hex k)) = None"
    unfolding mirrored_def by (metis not_loadable_tmp option.exhaust option.map_disc_iff)+
  have "put_locked ks now s k v p = (store_value now ?s2 (Hex k) v p, True)" if "\<not> over_quota s (Hex k) (int (length v)) p"
    using that by (simp add: put_locked_def Let_def)
  moreover have "mirrored (put_disk None now (store_value now ?s2 (Hex k) v p) k v)"
    using m tmp assms(2) by (auto simp: mirrored_def put_disk_def writeAtomic_def Let_def)
  ultimately show ?thesis using assms(1) by (simp add: put_cases)
qed

lemma mirrored_reload:
  assumes "mirrored s" "set names = fset (fmdom (files s))"
  shows "data (foldl (load_entry now) (newLocalStore\<lparr>maxBytes := m, dataDir := d, files := f\<rparr>) (dir_listing names (files s))) = data s"
proof (rule fmap_ext)
  fix n
  have "map_option fst (fmlookup (files s) n) = fmlookup (data s) n"
    and "fmlookup (data s) n = Some v \<Longrightarrow> loadable n v" for v
    using assms(1) by (auto simp: mirrored_def)
  then show "fmlookup (data (foldl (load_entry now) (newLocalStore\<lparr>maxBytes := m, dataDir := d, files := f\<rparr>)
      (dir_listing names (files s)))) n = fmlookup (data s) n"
    unfolding load_listing_lookup assms(2)
    by (cases "fmlookup (files s) n") (auto simp: newLocalStore_def fmlookup_dom_iff)
qed

lemma load_entry_exact:
  assumes "store_exact s" "fmlookup (data s) (entry_name e) = None" "attribution s = fmempty"
  shows "store_exact (load_entry now s e)"
  using assms
  by (auto simp: load_entry_def store_exact_def store_shape_def counted_def bytes_held_upd peer_bytes_upd
      split: sum.splits option.splits)

lemma load_entry_simps [simp]:
  "attribution (load_entry now s e) = attribution s" "maxBytes (load_entry now s e) = maxBytes s"
  by (auto simp: load_entry_def split: sum.splits option.splits)

lemma load_exact:
  "store_exact s \<Longrightarrow> attribution s = fmempty \<Longrightarrow> distinct (map entry_name es) \<Longrightarrow>
   \<forall>e\<in>set es. fmlookup (data s) (entry_name e) = None \<Longrightarrow>
   store_exact (foldl (load_entry now) s es) \<and> maxBytes (foldl (load_entry now) s es) = maxBytes s"
proof (induction es arbitrary: s)
  case (Cons e es)
  have "\<forall>e'\<in>set es. fmlookup (data (load_entry now s e)) (entry_name e') = None"
    using Cons.prems(3,4) by (auto simp: load_entry_lookup) (metis image_eqI)
  with Cons.IH [of "load_entry now s e"] Cons.prems load_entry_exact [of s e now] show ?case by simp
qed simp

lemma store_exact_new: "store_exact (newLocalStore\<lparr>maxBytes := m, dataDir := d, files := f\<rparr>)"
  by (simp add: store_exact_def store_shape_def counted_def newLocalStore_def bytes_held_def peer_bytes_def)

lemma evictUntilUnder_exact: "store_exact s \<Longrightarrow> store_exact (evictUntilUnder ks s cap)"
  unfolding store_exact_def
  by (rule evictUntilUnder_inv [where P = "\<lambda>s. store_shape s \<and> counted None s"])
     (auto intro: drop_entry_shape drop_entry_counted)


section \<open>Properties\<close>



text \<open>
  A \<open>put\<close> that does not evict the entry it overwrites keeps the counters exact. When it is
  accepted, the bytes really stored are then within the budget (or are the new value alone), and the
  bytes really attributed to the storing peer are within its quota.
\<close>

theorem put_exact:
  assumes "store_exact s" and "\<not> double_refund ks s k v" and "fset (fmdom (data s)) \<subseteq> set ks"
    and "put ks fault now s k v p = (s', True)"
  shows "store_exact s'
    \<and> (0 < maxBytes s \<longrightarrow> bytes_held (data s') \<le> max (maxBytes s) (int (length v)))
    \<and> (p \<noteq> [] \<and> 0 < perPeerMax s \<longrightarrow> peer_bytes (data s') (attribution s') p \<le> perPeerMax s)"
proof -
  let ?h = "Hex k" and ?n = "int (length v)"
  let ?s1 = "refund_old s ?h" and ?l = "fst (put_locked ks now s k v p)"
  have q: "\<not> over_quota s ?h ?n p" and s': "s' = put_disk fault now ?l k v"
    using put_cases [of ks fault now s k v p] assms(4) by (auto split: if_splits)
  have ex: "store_exact s'" unfolding s' by (simp add: put_locked_exact [OF assms(1,2)])
  moreover have "bytes_held (data s') \<le> max (maxBytes s) ?n" if "0 < maxBytes s"
    using ex put_locked_total [OF store_exact_inv [OF assms(1)] assms(3) that q, of now]
    by (simp add: s' store_exact_def counted_def)
  moreover have "peer_bytes (data s') (attribution s') p \<le> perPeerMax s" if p: "p \<noteq> []" "0 < perPeerMax s"
  proof -
    have l: "?l = store_value now (evictToFit ks ?s1 ?n) ?h v p" using q by (simp add: put_locked_def Let_def)
    have sh: "store_shape s" using assms(1) by (simp add: store_exact_def)
    have na: "\<forall>k. fmlookup (attribution s) k \<noteq> Some []" using sh by (simp add: store_shape_def)
    have "fmget0 (perPeer ?s1) p + ?n \<le> perPeerMax s"
    proof (cases "fmlookup (data s) ?h")
      case None
      then show ?thesis using q p by (auto simp: over_quota_def Let_def split: option.splits)
    next
      case (Some old)
      have "fmget0 (perPeer s) p = peer_bytes (data s) (attribution s) p"
        using assms(1) p(1) by (simp add: store_exact_def counted_def)
      then have "fmlookup (attribution s) ?h = Some p \<Longrightarrow> int (length old) \<le> fmget0 (perPeer s) p"
        using peer_bytes_drop [OF Some, of "attribution s" p] peer_bytes_nonneg [of "fmdrop ?h (data s)" "attribution s" p]
        by simp
      then show ?thesis using q p Some
        by (auto simp: over_quota_def Let_def refund_old_present [OF Some] refund_peer_perPeer [OF na] split: option.splits if_splits)
    qed
    moreover have "fmget0 (perPeer (evictToFit ks ?s1 ?n)) p \<le> fmget0 (perPeer ?s1) p"
      by (rule evictToFit_perPeer_le [OF refund_old_shape [OF sh]])
    moreover have "peer_bytes (data s') (attribution s') p = fmget0 (perPeer s') p"
      using ex p(1) by (simp add: store_exact_def counted_def)
    moreover have "fmget0 (perPeer s') p = fmget0 (perPeer (evictToFit ks ?s1 ?n)) p + ?n"
      using p(1) by (simp add: s' l)
    ultimately show ?thesis by simp
  qed
  ultimately show ?thesis by blast
qed

text \<open>Three puts by one peer into a store with a budget of ten bytes.\<close>

definition sample_store0 :: localStore where
  "sample_store0 = newLocalStore\<lparr>maxBytes := 10\<rparr>"

definition sample_store1 :: "NodeID \<Rightarrow> localStore" where
  "sample_store1 a = sample_store0\<lparr>data := fmupd (Hex a) (replicate 5 0) fmempty,
     access := fmupd (Hex a) 1 fmempty, total_st := 5, attribution := fmupd (Hex a) ''p'' fmempty,
     perPeer := fmupd ''p'' 5 fmempty\<rparr>"

definition sample_store2 :: "NodeID \<Rightarrow> NodeID \<Rightarrow> localStore" where
  "sample_store2 a b = sample_store0\<lparr>
     data := fmupd (Hex b) (replicate 5 0) (fmupd (Hex a) (replicate 5 0) fmempty),
     access := fmupd (Hex b) 2 (fmupd (Hex a) 1 fmempty), total_st := 10,
     attribution := fmupd (Hex b) ''p'' (fmupd (Hex a) ''p'' fmempty), perPeer := fmupd ''p'' 10 (fmupd ''p'' 5 fmempty)\<rparr>"

lemmas put_evals = put_locked_def over_quota_def refund_old_def refund_peer_def store_value_def
  evictToFit_def evictUntilUnder_def drop_entry_def sample_store0_def sample_store1_def sample_store2_def
  newLocalStore_def fmget0_def Let_def

lemma sample_put1: "put_locked [] 1 sample_store0 a (replicate 5 0) ''p'' = (sample_store1 a, True)"
  by (simp add: put_evals)

lemma sample_put2:
  "a \<noteq> b \<Longrightarrow> put_locked [Hex a] 2 (sample_store1 a) b (replicate 5 0) ''p'' = (sample_store2 a b, True)"
  by (simp add: put_evals)

lemma sample_put3:
  assumes "a \<noteq> b" "s = fst (put_locked [Hex a, Hex b] 3 (sample_store2 a b) a (replicate 10 0) ''p'')"
  shows "put_locked [Hex a, Hex b] 3 (sample_store2 a b) a (replicate 10 0) ''p'' = (s, True)"
    and "bytes_held (data s) = 15" "total_st s = 10" "dataDir s = []"
    and "peer_bytes (data s) (attribution s) ''p'' = 15" "fmget0 (perPeer s) ''p'' = 10"
proof -
  show "put_locked [Hex a, Hex b] 3 (sample_store2 a b) a (replicate 10 0) ''p'' = (s, True)"
    and "bytes_held (data s) = 15" "total_st s = 10" "dataDir s = []"
    and "peer_bytes (data s) (attribution s) ''p'' = 15" "fmget0 (perPeer s) ''p'' = 10"
  using assms by (simp_all add: put_evals bytes_held_upd peer_bytes_upd fmdrop_fmupd)
qed

theorem put_exact_witness:
  "let s = fst (put [Hex (id_copy [])] None 1 (sample_store0\<lparr>perPeerMax := 20\<rparr>) (id_copy []) (replicate 5 0) ''p'')
   in store_exact s \<and> bytes_held (data s) \<le> 10 \<and> peer_bytes (data s) (attribution s) ''p'' \<le> 20"
proof -
  let ?s = "sample_store0\<lparr>perPeerMax := 20\<rparr>"
  let ?p = "put [Hex (id_copy [])] None 1 ?s (id_copy []) (replicate 5 0) ''p''"
  have ok: "snd ?p" by (simp add: put_cases put_evals)
  have "\<not> double_refund [Hex (id_copy [])] ?s (id_copy []) (replicate 5 0)"
    by (simp add: double_refund_def put_evals)
  moreover have "store_exact ?s"
    by (simp add: store_exact_def store_shape_def counted_def put_evals bytes_held_def peer_bytes_def)
  moreover have "fset (fmdom (data ?s)) \<subseteq> set [Hex (id_copy [])]" by (simp add: put_evals)
  moreover have "?p = (fst ?p, True)" using ok by (metis prod.collapse)
  ultimately have "store_exact (fst ?p) \<and>
    (0 < maxBytes ?s \<longrightarrow> bytes_held (data (fst ?p)) \<le> max (maxBytes ?s) (int (length (replicate 5 (0 :: byte)))))
    \<and> (''p'' \<noteq> [] \<and> 0 < perPeerMax ?s \<longrightarrow> peer_bytes (data (fst ?p)) (attribution (fst ?p)) ''p'' \<le> perPeerMax ?s)"
    using put_exact by blast
  then show ?thesis by (simp add: Let_def sample_store0_def newLocalStore_def)
qed

text \<open>
  Overwriting an entry that the eviction then picks refunds its size twice. With a budget of 10
  bytes, three puts leave 15 bytes in the store while the total counter says 10, and the peer that
  stored them has 15 bytes with a counter of 10: the budget and the quota no longer bound what is
  stored.
\<close>

theorem put_double_refund:
  "\<exists>s. (store_step 10)\<^sup>*\<^sup>* (newLocalStore\<lparr>maxBytes := 10\<rparr>, []) (s, [])
     \<and> bytes_held (data s) = 15 \<and> total_st s = 10
     \<and> peer_bytes (data s) (attribution s) ''p'' = 15 \<and> fmget0 (perPeer s) ''p'' = 10"
proof -
  have "id_copy [0] \<noteq> id_copy [1]" by code_simp
  then obtain a b :: NodeID where ab: "a \<noteq> b" by blast
  define s where "s = fst (put_locked [Hex a, Hex b] 3 (sample_store2 a b) a (replicate 10 0) ''p'')"
  note p3 = sample_put3 [OF ab s_def]
  let ?v = "replicate 5 (0 :: byte)" and ?w = "replicate 10 (0 :: byte)"
  have "store_step 10 (sample_store0, []) (sample_store1 a, [(a, ?v)])"
    by (rule sstep_put [OF _ _ sample_put1]) (simp_all add: put_evals)
  moreover have "store_step 10 (sample_store1 a, [(a, ?v)]) (sample_store2 a b, [(b, ?v), (a, ?v)])"
    by (rule sstep_put [OF _ _ sample_put2 [OF ab]]) (simp_all add: put_evals)
  moreover have "store_step 10 (sample_store2 a b, [(b, ?v), (a, ?v)]) (s, [(a, ?w), (b, ?v), (a, ?v)])"
    by (rule sstep_put [OF _ _ p3(1)]) (auto simp: put_evals)
  moreover have "store_step 10 (s, (k, v) # ws) (s, ws)" for k v ws
    using sstep_write [of k v "(k, v) # ws" 10 s None 0] p3(4) by (simp add: put_disk_def)
  ultimately have "(store_step 10)\<^sup>*\<^sup>* (sample_store0, []) (s, [])"
    by (meson converse_rtranclp_into_rtranclp rtranclp.rtrancl_refl)
  then show ?thesis using p3 unfolding sample_store0_def by blast
qed

text \<open>
  The eviction drops the least recently used entries and no more than needed. What it leaves
  is the store without a prefix of the entries in the order of their last access; the counter is
  under the cap; no entry that stays was used before one that went; and without its last
  deletion the counter would be over the cap.
\<close>

theorem evictUntilUnder_lru:
  assumes "store_inv s" and "mset ks = mset_set (fset (fmdom (data s)))" and "0 < cap"
    and "s' = evictUntilUnder ks s cap"
  shows "total_st s' \<le> cap
    \<and> (\<exists>gone. s' = foldl drop_entry s gone \<and> set gone \<subseteq> set ks
         \<and> (\<forall>e\<in>set gone. \<forall>k\<in>set ks - set gone. fmget0 (access s) e \<le> fmget0 (access s) k)
         \<and> (gone \<noteq> [] \<longrightarrow> cap < total_st (foldl drop_entry s (butlast gone))))"
proof -
  let ?es = "sort_key (fmget0 (access s)) ks"
  have ks: "set ks = fset (fmdom (data s))"
    using assms(2) by (metis finite_fset finite_set_mset_mset_set set_mset_mset)
  show ?thesis
  proof (cases "total_st s \<le> cap")
    case True
    then show ?thesis using assms(3,4) by (intro conjI exI [of _ "[]"]) (auto simp: evictUntilUnder_def)
  next
    case False
    then have s': "s' = evict_loop s cap ?es" using assms(3,4) by (simp add: evictUntilUnder_def)
    obtain n where n: "n \<le> length ?es" "s' = foldl drop_entry s (take n ?es)"
      "\<forall>m<n. cap < total_st (foldl drop_entry s (take m ?es))"
      using evict_loop_prefix [of ?es s cap] s' by blast
    have le: "\<forall>e\<in>set (take n ?es). \<forall>k\<in>set (drop n ?es). fmget0 (access s) e \<le> fmget0 (access s) k"
    proof -
      have "sorted (map (fmget0 (access s)) (take n ?es @ drop n ?es))" by simp
      then show ?thesis unfolding map_append sorted_append by auto
    qed
    have sub: "set (take n ?es) \<subseteq> set ks" using set_take_subset [of n ?es] by simp
    have rest: "set ks - set (take n ?es) \<subseteq> set (drop n ?es)"
      using set_append [of "take n ?es" "drop n ?es"] by auto
    have last: "take n ?es \<noteq> [] \<Longrightarrow> cap < total_st (foldl drop_entry s (butlast (take n ?es)))"
      using n(1,3) by (auto simp: butlast_take) 
    have "total_st s' \<le> cap"
      unfolding s' using evict_loop_reaches [of s None cap ?es] assms(1,3) ks by (simp add: store_inv_def)
    with n(2) le sub rest last show ?thesis by blast
  qed
qed

lemma sample_store2_inv: "a \<noteq> b \<Longrightarrow> store_inv (sample_store2 a b)"
  by (auto simp: store_inv_def store_shape_def under_counted_def put_evals bytes_held_upd peer_bytes_upd fmdrop_fmupd)

theorem evictUntilUnder_lru_witness:
  "total_st (evictUntilUnder [Hex (id_copy []), Hex (id_copy [1])] (sample_store2 (id_copy []) (id_copy [1])) 5) \<le> 5"
proof -
  let ?a = "id_copy []" and ?b = "id_copy [1]"
  have ab: "?a \<noteq> ?b" by code_simp
  have "store_inv (sample_store2 ?a ?b)" using ab by (rule sample_store2_inv)
  then show ?thesis using ab evictUntilUnder_lru [of "sample_store2 ?a ?b" "[Hex ?a, Hex ?b]" 5, OF _ _ _ refl]
    by (simp add: put_evals)
qed

text \<open>
  The store as a map. After an accepted \<open>put\<close> the key has the new value; every other key has
  its old value or was evicted; a rejected \<open>put\<close> changes nothing; \<open>Delete\<close> removes its key and
  no other; \<open>Get\<close> returns the value and changes no value.
\<close>

theorem store_map:
  "(snd (put ks fault now s k v p) \<longrightarrow> store_find (fst (put ks fault now s k v p)) k = Some v)
   \<and> (\<not> snd (put ks fault now s k v p) \<longrightarrow> fst (put ks fault now s k v p) = s)
   \<and> (\<forall>j. j \<noteq> k \<longrightarrow> store_find (fst (put ks fault now s k v p)) j \<in> {store_find s j, None})
   \<and> (\<forall>j. store_find (store_Delete s k) j = (if j = k then None else store_find s j))
   \<and> snd (store_Get now s k) = store_find s k \<and> store_find (fst (store_Get now s k)) = store_find s"
proof -
  obtain s' ok where p: "put ks fault now s k v p = (s', ok)" by (cases "put ks fault now s k v p")
  have "store_find s' j \<in> {store_find s j, None}" if "j \<noteq> k" for j
    using store.put_other [of "(ks, fault, now, p)" s k v s' ok j] p that by (cases "store_find s' j") auto
  then show ?thesis
    using p store.put_same [of "(ks, fault, now, p)" s k v s'] store.put_rejected [of "(ks, fault, now, p)" s k v s']
      store.delete_same [of s k] store.delete_other [of _ k s]
    by (cases ok) (auto simp: store_find_def)
qed

theorem store_map_witness:
  "store_find (store_Put [] None 1 newLocalStore (id_copy []) [7]) (id_copy []) = Some [7]"
  using store_map [of "[]" None 1 newLocalStore "id_copy []" "[7]" "[]"]
  by (simp add: store_Put_def put_cases put_evals)

text \<open>
  A crash while a file is written loses nothing. Whatever directory the crash leaves, the store
  loaded from it has the values of the directory before the write, with the key at its old or at
  its new value; the temporary file is never loaded.
\<close>

theorem writeAtomic_crash_safe:
  assumes "writeAtomic_crash now fs (Hex k) v fs'" and "length v \<le> MaxValueSize"
    and "set names = fset (fmdom fs)" and "set names' = fset (fmdom fs')"
    and "before = data (foldl (load_entry t) newLocalStore (dir_listing names fs))"
    and "after = data (foldl (load_entry t) newLocalStore (dir_listing names' fs'))"
  shows "after = before \<or> after = fmupd (Hex k) v before"
proof -
  define val where "val fs n = (case fmlookup fs n of Some (d, u) \<Rightarrow> if loadable n d then Some d else None | None \<Rightarrow> None)"
    for fs :: dir_files and n
  have b: "fmlookup before n = val fs n" "fmlookup after n = val fs' n" for n
    unfolding assms(5,6) load_listing_lookup val_def assms(3,4)
    by (auto simp: newLocalStore_def fmlookup_dom_iff split: option.splits)
  from assms(1) show ?thesis
  proof cases
    case crash_before
    then show ?thesis using b by (intro disjI1 fmap_ext) simp
  next
    case (crash_copy n)
    then have "val fs' n = val fs n" for n by (auto simp: val_def split: option.splits)
    then show ?thesis using b by (intro disjI1 fmap_ext) simp
  next
    case crash_renamed
    have "val fs' n = (if n = Hex k then Some v else val fs n)" for n
      using assms(2) by (auto simp: crash_renamed val_def writeAtomic_def Let_def split: option.splits)
    then show ?thesis using b by (intro disjI2 fmap_ext) simp
  qed
qed

theorem writeAtomic_crash_safe_witness:
  "fmlookup (data (foldl (load_entry 0) newLocalStore
      (dir_listing [tmp_name (Hex (id_copy []))] (fmupd (tmp_name (Hex (id_copy []))) ([1], 5) fmempty)))) (Hex (id_copy []))
     \<in> {None, Some [1, 2]}"
proof -
  have c: "writeAtomic_crash 5 fmempty (Hex (id_copy [])) [1, 2] (fmupd (tmp_name (Hex (id_copy []))) ([1], 5) fmempty)"
    using crash_copy [of 5 fmempty "Hex (id_copy [])" "[1, 2]" 1] by simp
  show ?thesis
    using writeAtomic_crash_safe [OF c, of "[]" "[tmp_name (Hex (id_copy []))]" _ 0, OF _ _ _ refl refl]
    by (auto simp: MaxValueSize_def dir_listing_def newLocalStore_def)
qed

text \<open>
  While files can be written, the directory mirrors the memory: \<open>put\<close>, \<open>Delete\<close> and \<open>Get\<close>
  keep it so, and a store opened on the directory later, without a limit, has the same values.
\<close>

theorem store_restart:
  assumes "mirrored s" and "length v \<le> MaxValueSize" and "dir \<noteq> []"
    and "set names = fset (fmdom (files s))"
  shows "mirrored (fst (put ks None now s k v p)) \<and> mirrored (store_Delete s k) \<and> mirrored (fst (store_Get now s k))
    \<and> (\<exists>r. newLocalStoreWithDir ks now True (Some (dir_listing names (files s))) (files s) dir = Inr r \<and> data r = data s)"
proof -
  have "mirrored (store_Delete s k)" unfolding store_Delete_def by (rule mirrored_drop_entry [OF assms(1)])
  moreover have "mirrored (fst (store_Get now s k))" using assms(1) by (simp add: mirrored_def)
  moreover have "maxBytes (foldl (load_entry now) x es) = maxBytes x" for x es
    by (induction es arbitrary: x) simp_all
  then have "\<exists>r. newLocalStoreWithDir ks now True (Some (dir_listing names (files s))) (files s) dir = Inr r \<and> data r = data s"
    using mirrored_reload [OF assms(1,4), where now = now and m = 0 and d = "dir @ ''/store''" and f = "files s"] assms(3)
    by (simp add: newLocalStoreWithDir_def newLocalStoreWithLimit_def loadFromDisk_def evictUntilUnder_def)
  ultimately show ?thesis using mirrored_put [OF assms(1,2)] by blast
qed

theorem store_restart_witness:
  "mirrored (fst (put [] None 1 (newLocalStore\<lparr>dataDir := ''d''\<rparr>) (id_copy []) [7] []))"
  using store_restart [of "newLocalStore\<lparr>dataDir := ''d''\<rparr>" "[7]" "''d''" "[]" "[]" 1 "id_copy []" "[]"]
  by (simp add: mirrored_def newLocalStore_def MaxValueSize_def)

text \<open>
  Opening a store on a directory with distinct file names counts its bytes exactly, trims it to
  the budget and admits only files that are named by an identifier and hold at most
  \<open>MaxValueSize\<close> bytes.
\<close>

theorem store_open:
  assumes "newLocalStoreWithLimit ks now True (Some (dir_listing names fs)) fs dir limit = Inr s"
    and "distinct names" and "dir \<noteq> []" and "fset (fmdom fs) \<subseteq> set ks" and "set names = fset (fmdom fs)"
  shows "store_exact s \<and> (0 < limit \<longrightarrow> bytes_held (data s) \<le> limit)
    \<and> (\<forall>n v. fmlookup (data s) n = Some v \<longrightarrow> loadable n v \<and> (\<exists>t. fmlookup fs n = Some (v, t)))"
proof -
  let ?s0 = "newLocalStore\<lparr>maxBytes := limit, dataDir := dir @ ''/store'', files := fs\<rparr>"
  let ?s1 = "foldl (load_entry now) ?s0 (dir_listing names fs)"
  have nm: "map entry_name (dir_listing names fs) = names" by (simp add: dir_listing_def comp_def)
  have l: "store_exact ?s1 \<and> maxBytes ?s1 = limit"
    using load_exact [OF store_exact_new, where es = "dir_listing names fs" and now = now] assms(2) nm
    by (simp add: newLocalStore_def)
  have s: "s = evictUntilUnder ks ?s1 limit"
    using assms(1,3) l by (simp add: newLocalStoreWithLimit_def loadFromDisk_def)
  have ex: "store_exact s" unfolding s using l by (simp add: evictUntilUnder_exact)
  have from1: "\<forall>n v. fmlookup (data s) n = Some v \<longrightarrow> fmlookup (data ?s1) n = Some v"
    unfolding s by (rule evictUntilUnder_inv [where P = "\<lambda>x. \<forall>n v. fmlookup (data x) n = Some v \<longrightarrow> fmlookup (data ?s1) n = Some v"]) auto
  have one: "loadable n v \<and> (\<exists>t. fmlookup fs n = Some (v, t))" if "fmlookup (data ?s1) n = Some v" for n v
    using that unfolding load_listing_lookup by (auto simp: newLocalStore_def split: option.splits if_splits)
  have "fset (fmdom (data ?s1)) \<subseteq> set ks"
    using one assms(4) by (fastforce simp: fmlookup_dom_iff)
  then have "total_st s \<le> limit" if "0 < limit"
    unfolding s using evict_loop_reaches [of ?s1 None limit "sort_key (fmget0 (access ?s1)) ks"] that store_exact_inv [of ?s1] l
    by (auto simp: evictUntilUnder_def store_inv_def)
  with ex from1 one show ?thesis by (auto simp: store_exact_def counted_def)
qed

theorem store_open_witness:
  "\<exists>s. newLocalStoreWithLimit [Hex (id_copy [])] 0 True
     (Some (dir_listing [Hex (id_copy [])] (fmupd (Hex (id_copy [])) ([7], 1) fmempty)))
     (fmupd (Hex (id_copy [])) ([7], 1) fmempty) ''d'' 5 = Inr s \<and> store_exact s"
proof -
  let ?fs = "fmupd (Hex (id_copy [])) ([7], 1) fmempty" and ?n = "[Hex (id_copy [])]"
  obtain s where s: "newLocalStoreWithLimit ?n 0 True (Some (dir_listing ?n ?fs)) ?fs ''d'' 5 = Inr s"
    by (simp add: newLocalStoreWithLimit_def loadFromDisk_def Let_def)
  then have "store_exact s" using store_open [OF s] by simp
  with s show ?thesis by blast
qed

text \<open>
  A deletion does not purge a value whose file write is still pending. From an empty store on
  disk, some interleaving ends with no write pending and the value deleted from memory, but with its
  file in the directory, where the next start loads it again.
\<close>

theorem store_purge_race:
  "\<exists>s. (store_step MaxValueSize)\<^sup>*\<^sup>* (newLocalStore\<lparr>dataDir := ''d''\<rparr>, []) (s, [])
     \<and> store_find s (id_copy []) = None \<and> fmlookup (files s) (Hex (id_copy [])) = Some ([7], 3)"
proof -
  let ?k = "id_copy []" and ?s0 = "newLocalStore\<lparr>dataDir := ''d''\<rparr>"
  define s1 where "s1 = fst (put_locked [] 1 ?s0 ?k [7] [])"
  have "put_locked [] 1 ?s0 ?k [7] [] = (s1, True)" by (simp add: s1_def put_evals)
  then have "store_step MaxValueSize (?s0, []) (s1, [(?k, [7])])"
    by (rule sstep_put [rotated 2]) (simp_all add: newLocalStore_def MaxValueSize_def)
  moreover have "store_step MaxValueSize (s1, [(?k, [7])]) (store_Delete s1 ?k, [(?k, [7])])" by (rule sstep_delete)
  moreover have "store_step MaxValueSize (store_Delete s1 ?k, [(?k, [7])]) (put_disk None 3 (store_Delete s1 ?k) ?k [7], [])"
    using sstep_write [of ?k "[7]" "[(?k, [7])]" MaxValueSize "store_Delete s1 ?k" None 3] by simp
  ultimately have "(store_step MaxValueSize)\<^sup>*\<^sup>* (?s0, []) (put_disk None 3 (store_Delete s1 ?k) ?k [7], [])"
    by (meson converse_rtranclp_into_rtranclp rtranclp.rtrancl_refl)
  moreover have "store_find (put_disk None 3 (store_Delete s1 ?k) ?k [7]) ?k = None"
    by (simp add: store_find_def store_Delete_def)
  moreover have "fmlookup (files (put_disk None 3 (store_Delete s1 ?k) ?k [7])) (Hex ?k) = Some ([7], 3)"
    by (simp add: put_disk_def store_Delete_def s1_def put_evals writeAtomic_def)
  ultimately show ?thesis by blast
qed

end
