(* ===== verification/Identity.thy ===== *)
theory Identity
  imports Go_Strings
begin

text \<open>
  \<^verbatim>\<open>core/crypto\<close>: the identity of a peer, its export and import, and signatures.

  SHA-256 and Ed25519 are parameters: the record \<open>prims\<close> has the hash, the public key of a seed,
  signing and verification. \<open>prims_ok\<close> states what is documented of them: the sizes, and that a
  signature made with a key verifies under its public key. An Ed25519 private key is, as in Go, the
  32 bytes of the seed followed by the 32 bytes of the public key. Key files are a map from paths to
  contents; the random seed of a new identity is an argument.
\<close>

section \<open>Definitions\<close>

record prims =
  sha256 :: "bytes \<Rightarrow> bytes"
  ed_public :: "bytes \<Rightarrow> bytes"
  ed_sign :: "bytes \<Rightarrow> bytes \<Rightarrow> bytes"
  ed_verify :: "bytes \<Rightarrow> bytes \<Rightarrow> bytes \<Rightarrow> bool"

definition prims_ok :: "prims \<Rightarrow> bool" where
  "prims_ok c \<longleftrightarrow> (\<forall>d. length (sha256 c d) = 32)
     \<and> (\<forall>seed. length seed = 32 \<longrightarrow> length (ed_public c seed) = 32)
     \<and> (\<forall>seed d. length seed = 32 \<longrightarrow> ed_verify c (ed_public c seed) d (ed_sign c (seed @ ed_public c seed) d))"

record Identity =
  PublicKey :: bytes
  PrivateKey :: bytes

definition KeyExportPrefix :: string where
  "KeyExportPrefix = ''altnet-key-1:''"

definition NewKeyFromSeed :: "prims \<Rightarrow> bytes \<Rightarrow> bytes" where
  "NewKeyFromSeed c seed = seed @ ed_public c seed"

definition key_Public :: "bytes \<Rightarrow> bytes" where
  "key_Public priv = drop 32 priv"

definition key_Seed :: "bytes \<Rightarrow> bytes" where
  "key_Seed priv = take 32 priv"

text \<open>\<open>seed\<close> is what the random source gives, or \<open>None\<close> when it fails.\<close>

definition NewIdentity :: "prims \<Rightarrow> bytes option \<Rightarrow> Identity option" where
  "NewIdentity c seed =
     map_option (\<lambda>s. \<lparr>PublicKey = ed_public c s, PrivateKey = NewKeyFromSeed c s\<rparr>) seed"

definition PublicKeyToID :: "prims \<Rightarrow> bytes \<Rightarrow> string" where
  "PublicKeyToID c pub = hex_encode (sha256 c pub)"

definition Identity_ID :: "prims \<Rightarrow> Identity \<Rightarrow> string" where
  "Identity_ID c i = PublicKeyToID c (PublicKey i)"

definition ShortID :: "prims \<Rightarrow> Identity \<Rightarrow> string" where
  "ShortID c i = (let full = Identity_ID c i in if length full \<le> 8 then full else take 8 full)"

type_synonym key_files = "(string, string) fmap"

datatype key_error =
    ErrKeyDir | ErrKeyWrite | ErrKeyRead | ErrKeyDecode | ErrKeySize | ErrKeyGenerate
  | ErrKeyPrefix | ErrKeyBase64 | ErrKeyLength | ErrKeyChecksum

definition Save :: "bool \<Rightarrow> bool \<Rightarrow> key_files \<Rightarrow> Identity \<Rightarrow> string \<Rightarrow> key_error + key_files" where
  "Save mkdir_ok write_ok fs i path =
     (if \<not> mkdir_ok then Inl ErrKeyDir
      else if \<not> write_ok then Inl ErrKeyWrite
      else Inr (fmupd path (hex_encode (PrivateKey i)) fs))"

definition Load :: "key_files \<Rightarrow> string \<Rightarrow> key_error + Identity" where
  "Load fs path =
     (case fmlookup fs path of
        None \<Rightarrow> Inl ErrKeyRead
      | Some d \<Rightarrow>
          (case hex_decode d of
             None \<Rightarrow> Inl ErrKeyDecode
           | Some raw \<Rightarrow>
               if length raw \<noteq> 64 then Inl ErrKeySize
               else Inr \<lparr>PublicKey = key_Public raw, PrivateKey = raw\<rparr>))"

definition Export :: "prims \<Rightarrow> Identity \<Rightarrow> string" where
  "Export c i =
     (let seed = key_Seed (PrivateKey i);
          body = seed @ take 4 (sha256 c seed)
      in KeyExportPrefix @ b64_encode False body)"

definition ImportKey :: "prims \<Rightarrow> string \<Rightarrow> key_error + Identity" where
  "ImportKey c s0 =
     (let s = TrimSpace s0
      in if \<not> HasPrefix s KeyExportPrefix then Inl ErrKeyPrefix
         else case b64_decode False (TrimPrefix s KeyExportPrefix) of
                None \<Rightarrow> Inl ErrKeyBase64
              | Some body \<Rightarrow>
                  if length body \<noteq> 32 + 4 then Inl ErrKeyLength
                  else
                    let seed = take 32 body;
                        gotSum = take 4 (drop 32 body);
                        wantSum = sha256 c seed
                    in if gotSum \<noteq> take 4 wantSum then Inl ErrKeyChecksum
                       else
                         let priv = NewKeyFromSeed c seed
                         in Inr \<lparr>PublicKey = key_Public priv, PrivateKey = priv\<rparr>)"

definition LoadOrCreate ::
  "prims \<Rightarrow> bytes option \<Rightarrow> bool \<Rightarrow> bool \<Rightarrow> key_files \<Rightarrow> string \<Rightarrow> key_error + Identity \<times> key_files" where
  "LoadOrCreate c seed mkdir_ok write_ok fs path =
     (if fmlookup fs path \<noteq> None then map_sum (\<lambda>e. e) (\<lambda>i. (i, fs)) (Load fs path)
      else case NewIdentity c seed of
             None \<Rightarrow> Inl ErrKeyGenerate
           | Some i \<Rightarrow> map_sum (\<lambda>e. e) (\<lambda>fs'. (i, fs')) (Save mkdir_ok write_ok fs i path))"

subsection \<open>Signatures\<close>

definition Sign :: "prims \<Rightarrow> Identity \<Rightarrow> bytes \<Rightarrow> string" where
  "Sign c i d = hex_encode (ed_sign c (PrivateKey i) d)"

text \<open>\<open>Verify\<close> is true when the source returns no error; its one error is \<^verbatim>\<open>ErrBadSignature\<close>.\<close>

definition Verify :: "prims \<Rightarrow> bytes \<Rightarrow> bytes \<Rightarrow> string \<Rightarrow> bool" where
  "Verify c pub d sigHex =
     (case hex_decode sigHex of None \<Rightarrow> False | Some sig \<Rightarrow> ed_verify c pub d sig)"

definition PublicKeyFromHex :: "string \<Rightarrow> bytes option" where
  "PublicKeyFromHex s =
     (case hex_decode s of None \<Rightarrow> None | Some raw \<Rightarrow> if length raw \<noteq> 32 then None else Some raw)"

definition PublicKeyToHex :: "bytes \<Rightarrow> string" where
  "PublicKeyToHex pub = hex_encode pub"

section \<open>Well-formed identities\<close>

definition identity_ok :: "prims \<Rightarrow> Identity \<Rightarrow> bool" where
  "identity_ok c i \<longleftrightarrow> (\<exists>seed. length seed = 32 \<and> i = \<lparr>PublicKey = ed_public c seed, PrivateKey = NewKeyFromSeed c seed\<rparr>)"

lemma NewIdentity_ok: "length seed = 32 \<Longrightarrow> NewIdentity c (Some seed) = Some i \<Longrightarrow> identity_ok c i"
  by (auto simp: NewIdentity_def identity_ok_def)

lemma Sign_Verify: "prims_ok c \<Longrightarrow> identity_ok c i \<Longrightarrow> Verify c (PublicKey i) d (Sign c i d)"
  by (auto simp: prims_ok_def identity_ok_def Verify_def Sign_def NewKeyFromSeed_def)

lemma PublicKeyFromHex_ToHex:
  "length pub = 32 \<Longrightarrow> PublicKeyFromHex (PublicKeyToHex pub) = Some pub"
  by (simp add: PublicKeyFromHex_def PublicKeyToHex_def)

lemma PublicKey_length: "prims_ok c \<Longrightarrow> identity_ok c i \<Longrightarrow> length (PublicKey i) = 32"
  by (auto simp: prims_ok_def identity_ok_def)

lemma PublicKeyFromHex_ToLower [simp]: "PublicKeyFromHex (ToLower s) = PublicKeyFromHex s"
  by (simp add: PublicKeyFromHex_def)

lemma PublicKeyFromHex_Some: "PublicKeyFromHex s = Some pub \<Longrightarrow> length pub = 32 \<and> PublicKeyToHex pub = ToLower s"
  by (auto simp: PublicKeyFromHex_def PublicKeyToHex_def hex_encode_decode split: option.splits if_splits)

lemma PublicKeyToID_length: "prims_ok c \<Longrightarrow> length (PublicKeyToID c pub) = 64"
  by (simp add: PublicKeyToID_def prims_ok_def)

text \<open>A concrete instance of the primitives, for the witnesses.\<close>

definition toy_prims :: prims where
  "toy_prims = \<lparr>sha256 = (\<lambda>d. take 32 (d @ replicate 32 0)), ed_public = (\<lambda>seed. seed),
     ed_sign = (\<lambda>priv d. drop 32 priv @ d), ed_verify = (\<lambda>pub d sig. sig = pub @ d)\<rparr>"

lemma toy_prims_ok [simp]: "prims_ok toy_prims"
proof -
  have "length (take 32 (d @ replicate 32 0)) = 32" for d :: bytes by (simp add: min_def)
  then show ?thesis by (simp add: prims_ok_def toy_prims_def)
qed

definition toy_identity :: Identity where
  "toy_identity = \<lparr>PublicKey = replicate 32 1, PrivateKey = replicate 64 1\<rparr>"

lemma toy_identity_ok [simp]: "identity_ok toy_prims toy_identity"
  unfolding identity_ok_def toy_identity_def
  by (rule exI [of _ "replicate 32 1"]) (simp add: toy_prims_def NewKeyFromSeed_def replicate_add [symmetric])

section \<open>Properties\<close>

lemma b64_encode_not_space: "c \<in> set (b64_encode pad bs) \<Longrightarrow> \<not> is_space c"
  using b64_encode_chars by (fastforce simp: is_space_def)

lemma TrimSpace_Export: "TrimSpace (Export c i) = Export c i"
proof (rule TrimSpace_id, rule disjI2, rule conjI)
  have "hd (Export c i) = CHR ''a''" by (simp add: Export_def Let_def KeyExportPrefix_def)
  then show "\<not> is_space (hd (Export c i))" by (simp add: is_space_def)
  have "\<not> is_space x" if "x \<in> set (Export c i)" for x
    using that b64_encode_not_space by (auto simp: Export_def Let_def KeyExportPrefix_def is_space_def)
  moreover have "Export c i \<noteq> []" by (simp add: Export_def Let_def KeyExportPrefix_def)
  ultimately show "\<not> is_space (last (Export c i))" by simp
qed

text \<open>
  An identity survives its export and import, and its key file. Conversely, whatever
  \<open>ImportKey\<close> accepts is a consistent key pair, and its checksum matches its seed.
\<close>

theorem identity_roundtrip:
  assumes "prims_ok c" and "identity_ok c i"
  shows "ImportKey c (Export c i) = Inr i
    \<and> (\<exists>fs'. Save True True fs i path = Inr fs' \<and> Load fs' path = Inr i)
    \<and> (\<forall>s j. ImportKey c s = Inr j \<longrightarrow> identity_ok c j
         \<and> b64_decode False (TrimPrefix (TrimSpace s) KeyExportPrefix)
             = Some (key_Seed (PrivateKey j) @ take 4 (sha256 c (key_Seed (PrivateKey j)))))"
proof -
  from assms obtain seed where seed: "length seed = 32" "length (ed_public c seed) = 32" "length (sha256 c seed) = 32"
    and i: "i = \<lparr>PublicKey = ed_public c seed, PrivateKey = seed @ ed_public c seed\<rparr>"
    by (auto simp: prims_ok_def identity_ok_def NewKeyFromSeed_def)
  have "ImportKey c (Export c i) = Inr i"
    unfolding ImportKey_def TrimSpace_Export
    using seed by (simp add: Export_def Let_def HasPrefix_def TrimPrefix_def i key_Seed_def key_Public_def NewKeyFromSeed_def)
  moreover have "\<exists>fs'. Save True True fs i path = Inr fs' \<and> Load fs' path = Inr i"
    using seed by (simp add: Save_def Load_def i key_Public_def)
  moreover have "identity_ok c j \<and> b64_decode False (TrimPrefix (TrimSpace s) KeyExportPrefix)
      = Some (key_Seed (PrivateKey j) @ take 4 (sha256 c (key_Seed (PrivateKey j))))" if imp: "ImportKey c s = Inr j" for s j
  proof -
    from imp obtain body where b: "b64_decode False (TrimPrefix (TrimSpace s) KeyExportPrefix) = Some body" "length body = 36"
      "take 4 (drop 32 body) = take 4 (sha256 c (take 32 body))"
      "j = \<lparr>PublicKey = ed_public c (take 32 body), PrivateKey = NewKeyFromSeed c (take 32 body)\<rparr>"
      by (auto simp: ImportKey_def Let_def key_Public_def NewKeyFromSeed_def split: option.splits if_splits)
    have "body = take 32 body @ take 4 (drop 32 body)" using b(2) by simp
    with b show ?thesis unfolding identity_ok_def by (auto simp: key_Seed_def NewKeyFromSeed_def intro!: exI [of _ "take 32 body"])
  qed
  ultimately show ?thesis by blast
qed

theorem identity_roundtrip_witness: "ImportKey toy_prims (Export toy_prims toy_identity) = Inr toy_identity"
  using identity_roundtrip [OF toy_prims_ok toy_identity_ok] by blast

end
