(* ===== verification/Go_Json.thy ===== *)
theory Go_Json
  imports Go_Strings
begin

text \<open>
  The part of Go's package \<^verbatim>\<open>encoding/json\<close> that the sources use: compact \<^verbatim>\<open>Marshal\<close>,
  \<^verbatim>\<open>Unmarshal\<close> and the first value a \<^verbatim>\<open>Decoder\<close> reads.

  A JSON text is a byte string. \<open>quote\<close> is the encoder's string escaping (with the HTML escapes
  that \<^verbatim>\<open>Marshal\<close> has on, and invalid UTF-8 replaced), \<open>unquote_body\<close> the decoder's. The
  parser takes the depth that is left of Go's limit of 10000 nested values, and fuel, of which the
  length of the text is enough. Structs are decoded by \<open>dec_struct\<close> from a table of fields: an
  exact name match, else one that ignores case; a repeated key is decoded again onto the value it
  has; \<^verbatim>\<open>null\<close> leaves a field as it is (a slice becomes nil); a value of the wrong type is an
  error. Where a key that holds a slice occurs three times, Go can show elements that were cut off
  by the second occurrence; this is not modelled.
\<close>

section \<open>Definitions\<close>

subsection \<open>UTF-8\<close>

definition between :: "nat \<Rightarrow> nat \<Rightarrow> char \<Rightarrow> bool" where
  "between a b c \<longleftrightarrow> a \<le> (of_char c :: nat) \<and> (of_char c :: nat) \<le> b"

abbreviation cont :: "char \<Rightarrow> bool" where
  "cont \<equiv> between 128 191"

text \<open>The length of the encoding of the rune that a string starts with, if it is valid.\<close>

fun utf8_len :: "string \<Rightarrow> nat option" where
  "utf8_len [] = None"
| "utf8_len (a # s) =
     (if between 0 127 a then Some 1
      else if between 194 223 a then (case s of b # _ \<Rightarrow> if cont b then Some 2 else None | _ \<Rightarrow> None)
      else if between 224 239 a then
        (case s of
           b # c # _ \<Rightarrow>
             if (if of_char a = (224 :: nat) then between 160 191 b
                 else if of_char a = (237 :: nat) then between 128 159 b else cont b) \<and> cont c
             then Some 3 else None
         | _ \<Rightarrow> None)
      else if between 240 244 a then
        (case s of
           b # c # d # _ \<Rightarrow>
             if (if of_char a = (240 :: nat) then between 144 191 b
                 else if of_char a = (244 :: nat) then between 128 143 b else cont b) \<and> cont c \<and> cont d
             then Some 4 else None
         | _ \<Rightarrow> None)
      else None)"

definition encode_rune :: "nat \<Rightarrow> string" where
  "encode_rune r =
     (if r < 128 then [char_of r]
      else if r < 2048 then [char_of (192 + r div 64), char_of (128 + r mod 64)]
      else if r < 65536 then [char_of (224 + r div 4096), char_of (128 + r div 64 mod 64), char_of (128 + r mod 64)]
      else [char_of (240 + r div 262144), char_of (128 + r div 4096 mod 64), char_of (128 + r div 64 mod 64),
            char_of (128 + r mod 64)])"

definition RuneError :: string where
  "RuneError = encode_rune 65533"

subsection \<open>Values and their printer\<close>

datatype json =
    JNull
  | JBool bool
  | JNum string
  | JStr string
  | JArr "json list"
  | JObj "(string \<times> json) list"

definition u_escape :: "nat \<Rightarrow> string" where
  "u_escape n = CHR 0x5C # CHR ''u'' # [hex_digit (n div 4096), hex_digit (n div 256 mod 16), hex_digit (n div 16 mod 16), hex_digit (n mod 16)]"

definition quote_char :: "char \<Rightarrow> string" where
  "quote_char c =
     (let n = (of_char c :: nat)
      in if n = 34 \<or> n = 92 then [CHR 0x5C, c]
         else if n = 8 then [CHR 0x5C, CHR ''b'']
         else if n = 12 then [CHR 0x5C, CHR ''f'']
         else if n = 10 then [CHR 0x5C, CHR ''n'']
         else if n = 13 then [CHR 0x5C, CHR ''r'']
         else if n = 9 then [CHR 0x5C, CHR ''t'']
         else if n < 32 \<or> n = 60 \<or> n = 62 \<or> n = 38 then u_escape n
         else [c])"

function quote_body :: "string \<Rightarrow> string" where
  "quote_body s =
     (case s of
        [] \<Rightarrow> []
      | c # cs \<Rightarrow>
          (case utf8_len s of
             None \<Rightarrow> u_escape 65533 @ quote_body cs
           | Some n \<Rightarrow>
               (if n \<le> 1 then quote_char c @ quote_body cs
                else if take n s = encode_rune 8232 then u_escape 8232 @ quote_body (drop n s)
                else if take n s = encode_rune 8233 then u_escape 8233 @ quote_body (drop n s)
                else take n s @ quote_body (drop n s))))"
  by pat_completeness auto
termination by (relation "measure length") auto

declare quote_body.simps [simp del]

definition dquote :: char where
  "dquote = CHR 0x22"

definition quote :: "string \<Rightarrow> string" where
  "quote s = dquote # quote_body s @ [dquote]"

fun print_json :: "json \<Rightarrow> string" where
  "print_json JNull = ''null''"
| "print_json (JBool b) = (if b then ''true'' else ''false'')"
| "print_json (JNum n) = n"
| "print_json (JStr s) = quote s"
| "print_json (JArr js) = CHR ''['' # Join (map print_json js) '','' @ '']''"
| "print_json (JObj kvs) = CHR ''{'' # Join (map (\<lambda>(k, j). quote k @ '':'' @ print_json j) kvs) '','' @ ''}''"

subsection \<open>Parser\<close>

definition json_space :: "char \<Rightarrow> bool" where
  "json_space c \<longleftrightarrow> (of_char c :: nat) \<in> {9, 10, 13, 32}"

definition skip :: "string \<Rightarrow> string" where
  "skip s = dropWhile json_space s"

definition getu4 :: "string \<Rightarrow> (nat \<times> string) option" where
  "getu4 s =
     (case s of
        a # b # c # d # r \<Rightarrow>
          (case (hex_val a, hex_val b, hex_val c, hex_val d) of
             (Some x, Some y, Some z, Some w) \<Rightarrow> Some (4096 * x + 256 * y + 16 * z + w, r)
           | _ \<Rightarrow> None)
      | _ \<Rightarrow> None)"

text \<open>After a \<^verbatim>\<open>\u\<close>: a pair of surrogates is one rune, a lone one the replacement character.\<close>

definition unescape_u :: "string \<Rightarrow> (string \<times> string) option" where
  "unescape_u s =
     (case getu4 s of
        None \<Rightarrow> None
      | Some (r1, rest) \<Rightarrow>
          if 55296 \<le> r1 \<and> r1 < 57344 then
            (case rest of
               a # b # rest2 \<Rightarrow>
                 if of_char a = (92 :: nat) \<and> b = CHR ''u'' then
                   (case getu4 rest2 of
                      Some (r2, rest3) \<Rightarrow>
                        if r1 < 56320 \<and> 56320 \<le> r2 \<and> r2 < 57344
                        then Some (encode_rune (65536 + (r1 - 55296) * 1024 + (r2 - 56320)), rest3)
                        else Some (RuneError, rest)
                    | None \<Rightarrow> Some (RuneError, rest))
                 else Some (RuneError, rest)
             | _ \<Rightarrow> Some (RuneError, rest))
          else Some (encode_rune r1, rest))"

definition unescape :: "string \<Rightarrow> (string \<times> string) option" where
  "unescape s =
     (case s of
        [] \<Rightarrow> None
      | c # r \<Rightarrow>
          if of_char c = (34 :: nat) \<or> of_char c = (92 :: nat) \<or> c = CHR ''/'' then Some ([c], r)
          else if c = CHR ''b'' then Some ([CHR 0x08], r)
          else if c = CHR ''f'' then Some ([CHR 0x0C], r)
          else if c = CHR ''n'' then Some ([CHR 0x0A], r)
          else if c = CHR ''r'' then Some ([CHR 0x0D], r)
          else if c = CHR ''t'' then Some ([CHR 0x09], r)
          else if c = CHR ''u'' then unescape_u r
          else None)"

lemma getu4_length: "getu4 s = Some (n, r) \<Longrightarrow> length r < length s"
  by (auto simp: getu4_def split: list.splits option.splits)

lemma unescape_u_length: "unescape_u s = Some (t, r) \<Longrightarrow> length r < length s"
  by (auto simp: unescape_u_def split: option.splits list.splits if_splits dest!: getu4_length)

lemma unescape_length: "unescape s = Some (t, r) \<Longrightarrow> length r < length s"
  by (auto simp: unescape_def split: list.splits if_splits dest!: unescape_u_length)

function unquote_body :: "string \<Rightarrow> (string \<times> string) option" where
  "unquote_body s =
     (case s of
        [] \<Rightarrow> None
      | c # cs \<Rightarrow>
          let n = (of_char c :: nat)
          in if n = 34 then Some ([], cs)
             else if n = 92 then
               (case unescape cs of
                  None \<Rightarrow> None
                | Some (t, r) \<Rightarrow> map_option (\<lambda>(u, q). (t @ u, q)) (unquote_body r))
             else if n < 32 then None
             else case utf8_len s of
                    None \<Rightarrow> map_option (\<lambda>(u, q). (RuneError @ u, q)) (unquote_body cs)
                  | Some k \<Rightarrow>
                      map_option (\<lambda>(u, q). (take (max 1 k) s @ u, q)) (unquote_body (drop (max 1 k) s)))"
  by pat_completeness auto
termination by (relation "measure length") (auto dest: unescape_length)

declare unquote_body.simps [simp del]

definition is_digit :: "char \<Rightarrow> bool" where
  "is_digit c \<longleftrightarrow> between 48 57 c"

definition scan_int :: "string \<Rightarrow> (string \<times> string) option" where
  "scan_int s =
     (case s of
        [] \<Rightarrow> None
      | c # r \<Rightarrow>
          if c = CHR ''0'' then Some (''0'', r)
          else if is_digit c then Some (takeWhile is_digit s, dropWhile is_digit s)
          else None)"

definition scan_frac :: "string \<Rightarrow> (string \<times> string) option" where
  "scan_frac s =
     (case s of
        [] \<Rightarrow> Some ([], [])
      | c # r \<Rightarrow>
          if c = CHR ''.'' then
            (if takeWhile is_digit r = [] then None
             else Some (c # takeWhile is_digit r, dropWhile is_digit r))
          else Some ([], s))"

definition scan_exp :: "string \<Rightarrow> (string \<times> string) option" where
  "scan_exp s =
     (case s of
        [] \<Rightarrow> Some ([], [])
      | c # r \<Rightarrow>
          if c = CHR ''e'' \<or> c = CHR ''E'' then
            (let (sgn, q) = (case r of
                               [] \<Rightarrow> ([], [])
                             | x # xs \<Rightarrow> if x = CHR ''+'' \<or> x = CHR ''-'' then ([x], xs) else ([], r))
             in if takeWhile is_digit q = [] then None
                else Some (c # sgn @ takeWhile is_digit q, dropWhile is_digit q))
          else Some ([], s))"

definition scan_number :: "string \<Rightarrow> (string \<times> string) option" where
  "scan_number s =
     (let (sgn, s1) = (case s of
                         [] \<Rightarrow> ([], [])
                       | c # r \<Rightarrow> if c = CHR ''-'' then ([c], r) else ([], s))
      in case scan_int s1 of
           None \<Rightarrow> None
         | Some (i, s2) \<Rightarrow>
             (case scan_frac s2 of
                None \<Rightarrow> None
              | Some (f, s3) \<Rightarrow>
                  (case scan_exp s3 of
                     None \<Rightarrow> None
                   | Some (e, s4) \<Rightarrow> Some (sgn @ i @ f @ e, s4))))"

fun parse_value :: "nat \<Rightarrow> nat \<Rightarrow> string \<Rightarrow> (json \<times> string) option"
  and parse_elems :: "nat \<Rightarrow> nat \<Rightarrow> string \<Rightarrow> (json list \<times> string) option"
  and parse_members :: "nat \<Rightarrow> nat \<Rightarrow> string \<Rightarrow> ((string \<times> json) list \<times> string) option" where
  "parse_value d 0 s = None"
| "parse_value d (Suc n) s =
     (case skip s of
        [] \<Rightarrow> None
      | c # r \<Rightarrow>
          if c = dquote then map_option (\<lambda>(t, q). (JStr t, q)) (unquote_body r)
          else if c = CHR ''{'' then
            (if d = 0 then None
             else case skip r of
                    [] \<Rightarrow> None
                  | e # q \<Rightarrow>
                      if e = CHR ''}'' then Some (JObj [], q)
                      else map_option (\<lambda>(kvs, z). (JObj kvs, z)) (parse_members (d - 1) n r))
          else if c = CHR ''['' then
            (if d = 0 then None
             else case skip r of
                    [] \<Rightarrow> None
                  | e # q \<Rightarrow>
                      if e = CHR '']'' then Some (JArr [], q)
                      else map_option (\<lambda>(js, z). (JArr js, z)) (parse_elems (d - 1) n r))
          else if HasPrefix (c # r) ''null'' then Some (JNull, drop 4 (c # r))
          else if HasPrefix (c # r) ''true'' then Some (JBool True, drop 4 (c # r))
          else if HasPrefix (c # r) ''false'' then Some (JBool False, drop 5 (c # r))
          else map_option (\<lambda>(t, q). (JNum t, q)) (scan_number (c # r)))"
| "parse_elems d 0 s = None"
| "parse_elems d (Suc n) s =
     (case parse_value d n s of
        None \<Rightarrow> None
      | Some (j, r) \<Rightarrow>
          (case skip r of
             [] \<Rightarrow> None
           | c # q \<Rightarrow>
               if c = CHR '','' then map_option (\<lambda>(js, z). (j # js, z)) (parse_elems d n q)
               else if c = CHR '']'' then Some ([j], q)
               else None))"
| "parse_members d 0 s = None"
| "parse_members d (Suc n) s =
     (case skip s of
        [] \<Rightarrow> None
      | c # r \<Rightarrow>
          if c \<noteq> dquote then None
          else case unquote_body r of
                 None \<Rightarrow> None
               | Some (k, r1) \<Rightarrow>
                   (case skip r1 of
                      [] \<Rightarrow> None
                    | e # r2 \<Rightarrow>
                        if e \<noteq> CHR '':'' then None
                        else case parse_value d n r2 of
                               None \<Rightarrow> None
                             | Some (j, r3) \<Rightarrow>
                                 (case skip r3 of
                                    [] \<Rightarrow> None
                                  | f # q \<Rightarrow>
                                      if f = CHR '','' then
                                        map_option (\<lambda>(kvs, z). ((k, j) # kvs, z)) (parse_members d n q)
                                      else if f = CHR ''}'' then Some ([(k, j)], q)
                                      else None)))"

definition maxNestingDepth :: nat where
  "maxNestingDepth = 10000"

definition json_first :: "string \<Rightarrow> (json \<times> string) option" where
  "json_first s = parse_value maxNestingDepth (2 * length s + 1) s"

definition json_parse :: "string \<Rightarrow> json option" where
  "json_parse s =
     (case json_first s of
        Some (j, r) \<Rightarrow> if skip r = [] then Some j else None
      | None \<Rightarrow> None)"

subsection \<open>Structs\<close>

text \<open>Case folding to ASCII: the long s and the Kelvin sign fold to letters of ASCII too.\<close>

fun fold_name :: "string \<Rightarrow> string" where
  "fold_name (a # b # c # s) =
     (if [of_char a, of_char b] = [197, 191 :: nat] then CHR ''s'' # fold_name (c # s)
      else if [of_char a, of_char b, of_char c] = [226, 132, 170 :: nat] then CHR ''k'' # fold_name s
      else lower_char a # fold_name (b # c # s))"
| "fold_name [a, b] = (if [of_char a, of_char b] = [197, 191 :: nat] then ''s'' else [lower_char a, lower_char b])"
| "fold_name [a] = [lower_char a]"
| "fold_name [] = []"

type_synonym 's field_dec = "json \<Rightarrow> 's \<Rightarrow> 's option"

definition find_field :: "(string \<times> 's field_dec) list \<Rightarrow> string \<Rightarrow> 's field_dec option" where
  "find_field fs k =
     (case find (\<lambda>f. fst f = k) fs of
        Some f \<Rightarrow> Some (snd f)
      | None \<Rightarrow> map_option snd (find (\<lambda>f. fold_name (fst f) = fold_name k) fs))"

fun dec_members :: "(string \<times> 's field_dec) list \<Rightarrow> (string \<times> json) list \<Rightarrow> 's \<Rightarrow> 's option" where
  "dec_members fs [] x = Some x"
| "dec_members fs ((k, j) # kvs) x =
     (case find_field fs k of
        None \<Rightarrow> dec_members fs kvs x
      | Some f \<Rightarrow> (case f j x of None \<Rightarrow> None | Some y \<Rightarrow> dec_members fs kvs y))"

definition dec_struct :: "(string \<times> 's field_dec) list \<Rightarrow> 's field_dec" where
  "dec_struct fs j x =
     (case j of
        JObj kvs \<Rightarrow> dec_members fs kvs x
      | JNull \<Rightarrow> Some x
      | _ \<Rightarrow> None)"

definition dec_string :: "string field_dec" where
  "dec_string j x = (case j of JStr s \<Rightarrow> Some s | JNull \<Rightarrow> Some x | _ \<Rightarrow> None)"

definition dec_bool :: "bool field_dec" where
  "dec_bool j x = (case j of JBool b \<Rightarrow> Some b | JNull \<Rightarrow> Some x | _ \<Rightarrow> None)"

definition dec_int64 :: "int field_dec" where
  "dec_int64 j x = (case j of JNum s \<Rightarrow> ParseInt64 s | JNull \<Rightarrow> Some x | _ \<Rightarrow> None)"

definition dec_uint32 :: "int field_dec" where
  "dec_uint32 j x =
     (case j of
        JNum s \<Rightarrow>
          (case s of
             [] \<Rightarrow> None
           | c # cs \<Rightarrow> (case parse_dec 0 s of
                        None \<Rightarrow> None
                      | Some n \<Rightarrow> if n < 2 ^ 32 then Some (int n) else None))
      | JNull \<Rightarrow> Some x
      | _ \<Rightarrow> None)"

fun dec_elems :: "'a field_dec \<Rightarrow> 'a \<Rightarrow> json list \<Rightarrow> 'a list \<Rightarrow> 'a list option" where
  "dec_elems f zero [] old = Some []"
| "dec_elems f zero (j # js) old =
     (case f j (case old of [] \<Rightarrow> zero | x # _ \<Rightarrow> x) of
        None \<Rightarrow> None
      | Some y \<Rightarrow> map_option (Cons y) (dec_elems f zero js (tl old)))"

definition dec_slice :: "'a field_dec \<Rightarrow> 'a \<Rightarrow> 'a list field_dec" where
  "dec_slice f zero j x =
     (case j of
        JArr js \<Rightarrow> dec_elems f zero js x
      | JNull \<Rightarrow> Some []
      | _ \<Rightarrow> None)"

text \<open>The decoder of one field of a struct, from the decoder of its type.\<close>

definition field :: "'a field_dec \<Rightarrow> ('s \<Rightarrow> 'a) \<Rightarrow> (('a \<Rightarrow> 'a) \<Rightarrow> 's \<Rightarrow> 's) \<Rightarrow> 's field_dec" where
  "field dec get upd j x = map_option (\<lambda>y. upd (\<lambda>_. y) x) (dec j (get x))"

text \<open>A field with the option \<^verbatim>\<open>omitempty\<close> is left out when it is empty.\<close>

definition omit :: "bool \<Rightarrow> string \<Rightarrow> json \<Rightarrow> (string \<times> json) list" where
  "omit is_empty k j = (if is_empty then [] else [(k, j)])"

definition Marshal :: "json \<Rightarrow> bytes" where
  "Marshal j = bytes_of_string (print_json j)"

definition Unmarshal :: "'s field_dec \<Rightarrow> string \<Rightarrow> 's \<Rightarrow> 's option" where
  "Unmarshal dec s x = (case json_parse s of None \<Rightarrow> None | Some j \<Rightarrow> dec j x)"

definition Decode :: "'s field_dec \<Rightarrow> string \<Rightarrow> 's \<Rightarrow> 's option" where
  "Decode dec s x = (case json_first s of None \<Rightarrow> None | Some (j, r) \<Rightarrow> dec j x)"

definition int_json :: "int \<Rightarrow> json" where
  "int_json i = JNum (dec_int i)"

section \<open>Lengths and fuel\<close>

lemma length_skip: "length (skip s) \<le> length s"
  by (simp add: skip_def length_dropWhile_le)

declare utf8_len.simps(2) [simp del]

lemma map_option_pair_Some: "map_option (\<lambda>(a, b). (f a, b)) x = Some (y, r) \<longleftrightarrow> (\<exists>a. x = Some (a, r) \<and> y = f a)"
  by (cases x) auto

lemma unquote_body_length: "unquote_body s = Some (t, r) \<Longrightarrow> length r < length s"
proof (induction s arbitrary: t r rule: length_induct)
  case (1 s)
  have IH: "length q < length s" if "unquote_body s' = Some (u, q)" "length s' < length s" for s' u q
    using 1(1) that by (meson order.strict_trans)
  show ?case
  proof (cases s)
    case (Cons c cs)
    consider "of_char c = (34 :: nat)" | "of_char c = (92 :: nat)" | "of_char c \<noteq> (34 :: nat)" "of_char c \<noteq> (92 :: nat)" by blast
    then show ?thesis
    proof cases
      case 1
      then show ?thesis using \<open>unquote_body s = _\<close> by (simp add: unquote_body.simps [of "c # cs"] Cons)
    next
      case 2
      with \<open>unquote_body s = _\<close> obtain t' r' u where "unescape cs = Some (t', r')" "unquote_body r' = Some (u, r)"
        by (auto simp: unquote_body.simps [of "c # cs"] Cons split: option.splits)
      then show ?thesis using IH [of r' u r] unescape_length [of cs t' r'] by (simp add: Cons)
    next
      case 3
      have d: "length (drop (max 1 m) (c # cs)) < length s" for m by (simp add: Cons)
      show ?thesis
      proof (cases "utf8_len (c # cs)")
        case None
        with 3 \<open>unquote_body s = _\<close> obtain u where "unquote_body cs = Some (u, r)"
          by (auto simp: unquote_body.simps [of "c # cs"] Cons Let_def split: if_splits)
        then show ?thesis using IH [of cs u r] by (simp add: Cons)
      next
        case (Some k)
        with 3 \<open>unquote_body s = _\<close> obtain u where "unquote_body (drop (max 1 k) (c # cs)) = Some (u, r)"
          by (auto simp: unquote_body.simps [of "c # cs"] Cons Let_def split: if_splits)
        then show ?thesis using IH [OF _ d] by blast
      qed
    qed
  qed (use 1 in \<open>simp add: unquote_body.simps\<close>)
qed

lemma dropWhile_length_less: "takeWhile P r \<noteq> [] \<Longrightarrow> length (dropWhile P r) < length r"
  by (cases r) (auto simp: less_Suc_eq_le length_dropWhile_le split: if_splits)

lemma scan_number_length:
  assumes "scan_number s = Some (t, r)"
  shows "length r < length s"
proof -
  have i: "length s2 < length s1" if "scan_int s1 = Some (i, s2)" for s1 s2 i
    using that length_dropWhile_le [of is_digit "tl s1"]
    by (auto simp: scan_int_def less_Suc_eq_le split: list.splits if_splits)
  have f: "length s3 \<le> length s2" if "scan_frac s2 = Some (f, s3)" for s2 s3 f
    using that length_dropWhile_le [of is_digit "tl s2"] by (auto simp: scan_frac_def split: list.splits if_splits)
  have e: "length s4 \<le> length s3" if "scan_exp s3 = Some (e, s4)" for s3 s4 e
    using that length_dropWhile_le [of is_digit "tl s3"] length_dropWhile_le [of is_digit "tl (tl s3)"]
    by (auto simp: scan_exp_def split: list.splits if_splits prod.splits)
  show ?thesis
    using assms by (auto simp: scan_number_def split: option.splits list.splits if_splits dest!: i f e)
qed

lemma skip_Cons_length: "skip s = c # r \<Longrightarrow> length r < length s"
  using length_skip [of s] by simp

lemma parse_length:
  "parse_value d n s = Some (j, r) \<Longrightarrow> length r < length s"
  "parse_elems d n s = Some (js, r) \<Longrightarrow> length r < length s"
  "parse_members d n s = Some (kvs, r) \<Longrightarrow> length r < length s"
proof (induction n arbitrary: d s j r js kvs)
  case 0
  {
    case 1
    then show ?case by simp
  next
    case 2
    then show ?case by simp
  next
    case 3
    then show ?case by simp
  }
next
  case (Suc n)
  {
    case 1
    then obtain c q where sk: "skip s = c # q" by (auto split: list.splits)
    note lq = skip_Cons_length [OF sk]
    from 1 show ?case
      unfolding parse_value.simps sk list.case
      using lq by (auto simp: map_option_pair_Some split: if_splits list.splits
          dest!: unquote_body_length scan_number_length skip_Cons_length Suc.IH)
  next
    case 2
    then obtain j0 r0 c q where v: "parse_value d n s = Some (j0, r0)" and sk: "skip r0 = c # q"
      by (auto split: option.splits list.splits)
    have "length q < length s" using Suc.IH(1) [OF v] skip_Cons_length [OF sk] by simp
    with 2 v sk show ?case
      by (auto simp: map_option_pair_Some split: if_splits dest!: Suc.IH(2))
  next
    case 3
    then obtain c r1 k r2 e r3 j0 r4 f q where st: "skip s = c # r1" "unquote_body r1 = Some (k, r2)"
      "skip r2 = e # r3" "parse_value d n r3 = Some (j0, r4)" "skip r4 = f # q"
      by (auto split: option.splits list.splits if_splits)
    have "length q < length s"
      using Suc.IH(1) [OF st(4)] st(1,3,5) [THEN skip_Cons_length] unquote_body_length [OF st(2)] by simp
    with 3 st show ?case
      by (auto simp: map_option_pair_Some split: if_splits dest!: Suc.IH(3))
  }
qed

lemma parse_fuel:
  "2 * length s + 1 \<le> n \<Longrightarrow> 2 * length s + 1 \<le> m \<Longrightarrow> parse_value d n s = parse_value d m s"
  "2 * length s + 2 \<le> n \<Longrightarrow> 2 * length s + 2 \<le> m \<Longrightarrow> parse_elems d n s = parse_elems d m s"
  "2 * length s + 2 \<le> n \<Longrightarrow> 2 * length s + 2 \<le> m \<Longrightarrow> parse_members d n s = parse_members d m s"
proof (induction n arbitrary: d s m)
  case (Suc n)
  {
    case 1
    then obtain m' where m: "m = Suc m'" by (cases m) auto
    have IH: "parse_members d' n r = parse_members d' m' r" "parse_elems d' n r = parse_elems d' m' r"
      if "length r < length s" for d' r
      using that 1 m by (auto intro: Suc.IH)
    show ?case
    proof (cases "skip s")
      case (Cons c r)
      then show ?thesis unfolding m parse_value.simps using IH [OF skip_Cons_length [OF Cons]] by (simp split: list.split)
    qed (simp add: m)
  next
    case 2
    then obtain m' where m: "m = Suc m'" by (cases m) auto
    have v: "parse_value d n s = parse_value d m' s" using 2 m by (intro Suc.IH(1)) auto
    show ?case
    proof (cases "parse_value d m' s")
      case (Some jr)
      obtain j r where jr: "jr = (j, r)" by (cases jr)
      have "parse_elems d n q = parse_elems d m' q" if "skip r = c # q" for c q
        using parse_length(1) [OF Some [unfolded jr]] skip_Cons_length [OF that] 2 m by (intro Suc.IH(2)) auto
      then show ?thesis unfolding m parse_elems.simps v Some jr by (auto split: list.split)
    qed (simp add: m v)
  next
    case 3
    then obtain m' where m: "m = Suc m'" by (cases m) auto
    have v: "parse_value d n q = parse_value d m' q" and e: "parse_members d n q = parse_members d m' q"
      if "length q < length s" for q
      using that 3 m by (auto intro: Suc.IH)
    have step: "parse_value d n r3 = parse_value d m' r3"
      "parse_value d m' r3 = Some (j, r4) \<Longrightarrow> skip r4 = f # q \<Longrightarrow> parse_members d n q = parse_members d m' q"
      if "skip s = c # r1" "unquote_body r1 = Some (k, r2)" "skip r2 = g # r3" for c r1 k r2 g r3 j r4 f q
    proof -
      have l: "length r3 < length s"
        using skip_Cons_length [OF that(1)] unquote_body_length [OF that(2)] skip_Cons_length [OF that(3)] by simp
      then show "parse_value d n r3 = parse_value d m' r3" by (rule v)
      assume "parse_value d m' r3 = Some (j, r4)" "skip r4 = f # q"
      with l have "length q < length s"
        using parse_length(1) [of d m' r3 j r4] skip_Cons_length [of r4 f q] by simp
      then show "parse_members d n q = parse_members d m' q" by (rule e)
    qed
    show ?case
      unfolding m parse_members.simps by (auto split: list.split option.split simp: step)
  }
qed auto

section \<open>Round trip of strings\<close>

text \<open>What a string is after the encoder and the decoder: bytes that are not UTF-8 are replaced.\<close>

function to_valid :: "string \<Rightarrow> string" where
  "to_valid s =
     (case s of
        [] \<Rightarrow> []
      | c # cs \<Rightarrow>
          (case utf8_len s of
             None \<Rightarrow> RuneError @ to_valid cs
           | Some n \<Rightarrow> take (max 1 n) s @ to_valid (drop (max 1 n) s)))"
  by pat_completeness auto
termination by (relation "measure length") auto

declare to_valid.simps [simp del]

lemma utf8_len_bounds:
  assumes "utf8_len (c # s) = Some n"
  shows "1 \<le> n \<and> n \<le> length (c # s) \<and> (n = 1 \<longleftrightarrow> (of_char c :: nat) < 128)"
  using assms by (auto simp: utf8_len.simps between_def split: if_splits list.splits)

lemma utf8_len_ascii [simp]: "(of_char c :: nat) < 128 \<Longrightarrow> utf8_len (c # s) = Some 1"
  by (simp add: utf8_len.simps between_def)

lemma utf8_len_take: "utf8_len s = Some n \<Longrightarrow> utf8_len (take n s @ t) = Some n"
  by (cases s) (auto simp: utf8_len.simps between_def split: if_splits list.splits)

lemma getu4_hex:
  assumes "n < 65536"
  shows "getu4 (hex_digit (n div 4096) # hex_digit (n div 256 mod 16) # hex_digit (n div 16 mod 16) # hex_digit (n mod 16) # r)
    = Some (n, r)"
proof -
  have "n div 4096 < 16" using assms by simp
  moreover have "4096 * (n div 4096) + 256 * (n div 256 mod 16) + 16 * (n div 16 mod 16) + n mod 16 = n"
  proof -
    have d: "n div 256 = n div 16 div 16" "n div 4096 = n div 16 div 16 div 16" by (simp_all add: div_mult2_eq [symmetric])
    show ?thesis unfolding d
      using div_mult_mod_eq [of n 16] div_mult_mod_eq [of "n div 16" 16] div_mult_mod_eq [of "n div 16 div 16" 16]
      by linarith
  qed
  ultimately show ?thesis by (simp add: getu4_def)
qed

lemma unquote_u_escape:
  assumes "n < 55296 \<or> 57344 \<le> n \<and> n < 65536"
  shows "unquote_body (u_escape n @ r) = map_option (\<lambda>(u, q). (encode_rune n @ u, q)) (unquote_body r)"
proof -
  have "n < 65536" using assms by auto
  then show ?thesis
    using assms by (subst unquote_body.simps) (auto simp: u_escape_def unescape_def unescape_u_def getu4_hex)
qed

lemma unquote_quote_char:
  assumes "(of_char c :: nat) < 128"
  shows "unquote_body (quote_char c @ r) = map_option (\<lambda>(u, q). (c # u, q)) (unquote_body r)"
proof -
  have esc: "unquote_body (CHR 0x5C # x # r) = map_option (\<lambda>(u, q). (c # u, q)) (unquote_body r)"
    if "unescape (x # r) = Some ([c], r)" for x
    using that by (subst unquote_body.simps) simp
  have c: "c = char_of (of_char c :: nat)" by simp
  have u: "unquote_body (u_escape (of_char c) @ r) = map_option (\<lambda>(u, q). (c # u, q)) (unquote_body r)"
    using assms by (subst unquote_u_escape) (simp_all add: encode_rune_def)
  have plain: "unquote_body (c # r) = map_option (\<lambda>(u, q). (c # u, q)) (unquote_body r)"
    if "of_char c \<noteq> (34 :: nat)" "of_char c \<noteq> (92 :: nat)" "\<not> (of_char c :: nat) < 32"
    using that assms by (subst unquote_body.simps) (simp add: Let_def)
  show ?thesis
  proof -
    have "char_of (8 :: nat) = CHR 0x08" "char_of (12 :: nat) = CHR 0x0C" "char_of (10 :: nat) = CHR 0x0A"
      "char_of (13 :: nat) = CHR 0x0D" "char_of (9 :: nat) = CHR 0x09" by code_simp+
    then have "of_char c = (8 :: nat) \<Longrightarrow> c = CHR 0x08" "of_char c = (12 :: nat) \<Longrightarrow> c = CHR 0x0C"
      "of_char c = (10 :: nat) \<Longrightarrow> c = CHR 0x0A" "of_char c = (13 :: nat) \<Longrightarrow> c = CHR 0x0D"
      "of_char c = (9 :: nat) \<Longrightarrow> c = CHR 0x09" by (metis c)+
    then show ?thesis
      using u plain by (auto simp: quote_char_def Let_def unescape_def intro!: esc)
  qed
qed

lemma unquote_quote: "unquote_body (quote_body s @ dquote # rest) = Some (to_valid s, rest)"
proof (induction s rule: quote_body.induct)
  case (1 s)
  show ?case
  proof (cases s)
    case Nil
    then show ?thesis by (simp add: quote_body.simps to_valid.simps unquote_body.simps dquote_def)
  next
    case (Cons c cs)
    show ?thesis
    proof (cases "utf8_len s")
      case None
      then show ?thesis using 1(1) [OF Cons None] unfolding quote_body.simps [of s] to_valid.simps [of s]
        by (simp add: Cons unquote_u_escape RuneError_def)
    next
      case (Some n)
      note b = utf8_len_bounds [OF Some [unfolded Cons]]
      note IH = 1(3-5) [OF Cons Some]
      show ?thesis
      proof (cases "n = 1")
        case True
        with b have "(of_char c :: nat) < 128" by simp
        with True show ?thesis using 1(2) [OF Cons Some] Some
          unfolding quote_body.simps [of s] to_valid.simps [of s]
          by (simp add: Cons unquote_quote_char)
      next
        case False
        with b have n: "\<not> n \<le> 1" "max 1 n = n" and c: "128 \<le> (of_char c :: nat)" by auto
        have tv: "to_valid s = take n s @ to_valid (drop n s)"
          using Some n by (subst to_valid.simps) (simp add: Cons)
        have plain: "unquote_body (take n s @ r) = map_option (\<lambda>(u, q). (take n s @ u, q)) (unquote_body r)" for r
        proof -
          have len: "length (take n s) = n" using b Cons by simp
          obtain cs' where h: "take n s = c # cs'" using n(1) Cons by (cases n) auto
          have u: "utf8_len (c # cs' @ r) = Some n" using utf8_len_take [OF Some, of r] h by simp
          have "unquote_body (c # cs' @ r) = map_option (\<lambda>(u, q). (take n (c # cs' @ r) @ u, q)) (unquote_body (drop n (c # cs' @ r)))"
            using c n u by (subst unquote_body.simps) (simp add: Let_def)
          moreover have "take n (c # cs' @ r) = take n s" "drop n (c # cs' @ r) = r"
            using len h by (metis append_Cons append_eq_conv_conj)+
          ultimately show ?thesis by (simp add: h)
        qed
        show ?thesis
          using IH n(1) Some plain unfolding quote_body.simps [of s] tv
          by (simp add: Cons unquote_u_escape)
      qed
    qed
  qed
qed

section \<open>Round trip of values\<close>

fun json_depth :: "json \<Rightarrow> nat" where
  "json_depth (JArr js) = Suc (foldr max (map json_depth js) 0)"
| "json_depth (JObj kvs) = Suc (foldr max (map (\<lambda>(k, j). json_depth j) kvs) 0)"
| "json_depth _ = 0"

fun clean :: "json \<Rightarrow> json" where
  "clean (JStr s) = JStr (to_valid s)"
| "clean (JArr js) = JArr (map clean js)"
| "clean (JObj kvs) = JObj (map (\<lambda>(k, j). (to_valid k, clean j)) kvs)"
| "clean j = j"

definition delim :: "string \<Rightarrow> bool" where
  "delim s \<longleftrightarrow> s = [] \<or> hd s = CHR '','' \<or> hd s = CHR '']'' \<or> hd s = CHR ''}'' \<or> json_space (hd s)"

definition num_ok :: "string \<Rightarrow> bool" where
  "num_ok n \<longleftrightarrow> n \<noteq> [] \<and> (hd n = CHR ''-'' \<or> is_digit (hd n))
     \<and> (\<forall>rest. delim rest \<longrightarrow> scan_number (n @ rest) = Some (n, rest))"

fun nums_ok :: "json \<Rightarrow> bool" where
  "nums_ok (JNum n) = num_ok n"
| "nums_ok (JArr js) = list_all nums_ok js"
| "nums_ok (JObj kvs) = list_all (\<lambda>(k, j). nums_ok j) kvs"
| "nums_ok _ = True"

definition prints :: "nat \<Rightarrow> json \<Rightarrow> bool" where
  "prints d j \<longleftrightarrow> (\<forall>rest. delim rest \<longrightarrow>
     (\<exists>N. \<forall>n\<ge>N. parse_value d n (print_json j @ rest) = Some (clean j, rest)))"

lemma skip_simps [simp]:
  "skip [] = []" "skip (dquote # s) = dquote # s" "skip (CHR ''{'' # s) = CHR ''{'' # s" "skip (CHR ''}'' # s) = CHR ''}'' # s"
  "skip (CHR ''['' # s) = CHR ''['' # s" "skip (CHR '']'' # s) = CHR '']'' # s" "skip (CHR '','' # s) = CHR '','' # s"
  "skip (CHR '':'' # s) = CHR '':'' # s" "skip (CHR ''n'' # s) = CHR ''n'' # s" "skip (CHR ''t'' # s) = CHR ''t'' # s"
  "skip (CHR ''f'' # s) = CHR ''f'' # s"
  by (simp_all add: skip_def json_space_def dquote_def)

lemma dquote_neq [simp]:
  "dquote \<noteq> CHR ''{''" "dquote \<noteq> CHR ''[''" "dquote \<noteq> CHR ''}''" "dquote \<noteq> CHR '']''" "dquote \<noteq> CHR '',''" "dquote \<noteq> CHR '':''"
  "CHR ''{'' \<noteq> dquote" "CHR ''['' \<noteq> dquote" "CHR ''n'' \<noteq> dquote" "CHR ''t'' \<noteq> dquote" "CHR ''f'' \<noteq> dquote"
  by (simp_all add: dquote_def)

lemma delim_simps [simp]: "delim []" "delim (CHR '','' # s)" "delim (CHR '']'' # s)" "delim (CHR ''}'' # s)"
  by (simp_all add: delim_def)

lemma parse_elems_print:
  assumes "\<And>j. j \<in> set js \<Longrightarrow> prints d j" "js \<noteq> []"
  shows "\<exists>N. \<forall>n\<ge>N. parse_elems d n (Join (map print_json js) '','' @ CHR '']'' # rest) = Some (map clean js, rest)"
  using assms
proof (induction js)
  case (Cons j js)
  let ?tail = "Join (map print_json js) '','' @ CHR '']'' # rest"
  let ?r = "if js = [] then CHR '']'' # rest else CHR '','' # ?tail"
  have j: "prints d j" using Cons.prems by simp
  have "delim ?r" by simp
  with j obtain N where N: "\<forall>n\<ge>N. parse_value d n (print_json j @ ?r) = Some (clean j, ?r)"
    unfolding prints_def by blast
  have str: "Join (map print_json (j # js)) '','' @ CHR '']'' # rest = print_json j @ ?r"
    by (cases js) simp_all
  obtain M where M: "js \<noteq> [] \<Longrightarrow> \<forall>n\<ge>M. parse_elems d n ?tail = Some (map clean js, rest)"
    using Cons by (cases "js = []") auto
  have "parse_elems d n (print_json j @ ?r) = Some (map clean (j # js), rest)" if n: "Suc (max N M) \<le> n" for n
  proof -
    obtain n' where "n = Suc n'" "N \<le> n'" "M \<le> n'" using n by (cases n) auto
    then show ?thesis using N M by auto
  qed
  then show ?case unfolding str by blast
qed simp

lemma parse_members_print:
  assumes "\<And>k j. (k, j) \<in> set kvs \<Longrightarrow> prints d j" "kvs \<noteq> []"
  shows "\<exists>N. \<forall>n\<ge>N. parse_members d n (Join (map (\<lambda>(k, j). quote k @ '':'' @ print_json j) kvs) '','' @ CHR ''}'' # rest)
    = Some (map (\<lambda>(k, j). (to_valid k, clean j)) kvs, rest)"
  using assms
proof (induction kvs)
  case (Cons kj kvs)
  obtain k j where kj: "kj = (k, j)" by (cases kj)
  let ?pr = "\<lambda>(k, j). quote k @ '':'' @ print_json j"
  let ?tail = "Join (map ?pr kvs) '','' @ CHR ''}'' # rest"
  let ?r = "if kvs = [] then CHR ''}'' # rest else CHR '','' # ?tail"
  have j: "prints d j" using Cons.prems(1) [of k j] kj by simp
  have "delim ?r" by simp
  with j obtain N where N: "\<forall>n\<ge>N. parse_value d n (print_json j @ ?r) = Some (clean j, ?r)"
    unfolding prints_def by blast
  have str: "Join (map ?pr (kj # kvs)) '','' @ CHR ''}'' # rest
      = dquote # quote_body k @ dquote # CHR '':'' # print_json j @ ?r"
    by (cases kvs) (simp_all add: kj quote_def)
  obtain M where M: "kvs \<noteq> [] \<Longrightarrow> \<forall>n\<ge>M. parse_members d n ?tail = Some (map (\<lambda>(k, j). (to_valid k, clean j)) kvs, rest)"
    using Cons by (cases "kvs = []") auto
  have "parse_members d n (dquote # quote_body k @ dquote # CHR '':'' # print_json j @ ?r)
      = Some (map (\<lambda>(k, j). (to_valid k, clean j)) (kj # kvs), rest)" if n: "Suc (max N M) \<le> n" for n
  proof -
    obtain n' where "n = Suc n'" "N \<le> n'" "M \<le> n'" using n by (cases n) auto
    then show ?thesis using N M by (auto simp: unquote_quote kj)
  qed
  then show ?case unfolding str by blast
qed simp

lemma parse_first_char:
  "Join (map print_json (j # js)) '','' @ CHR '']'' # rest = print_json j @ (if js = [] then '']'' @ rest else CHR '','' # Join (map print_json js) '','' @ CHR '']'' # rest)"
  by (cases js) simp_all

lemma foldr_max_le: "foldr max xs 0 \<le> (d :: nat) \<longleftrightarrow> (\<forall>x\<in>set xs. x \<le> d)"
  by (induction xs) auto

lemma print_json_head:
  "nums_ok j \<Longrightarrow> \<exists>c t. print_json j = c # t \<and> (\<forall>s. skip (c # s) = c # s) \<and> c \<noteq> CHR '']'' \<and> c \<noteq> CHR ''}''"
proof (cases j)
  case (JNum n)
  assume "nums_ok j"
  then have "n \<noteq> []" "hd n = CHR ''-'' \<or> is_digit (hd n)" using JNum by (auto simp: num_ok_def)
  then show ?thesis using JNum
    by (cases n) (auto simp: skip_def json_space_def is_digit_def between_def)
qed (auto simp: quote_def)

lemma print_value: "json_depth j \<le> d \<Longrightarrow> nums_ok j \<Longrightarrow> prints d j"
proof (induction j arbitrary: d)
  case (JNum n)
  have "parse_value d (Suc m) (n @ rest) = Some (JNum n, rest)" if "delim rest" for m rest
  proof -
    obtain c t where n: "n = c # t" "c = CHR ''-'' \<or> is_digit c" using JNum by (cases n) (auto simp: num_ok_def)
    then have "skip (n @ rest) = n @ rest" "c \<noteq> dquote" "c \<noteq> CHR ''{''" "c \<noteq> CHR ''[''" "c \<noteq> CHR ''n''"
      "c \<noteq> CHR ''t''" "c \<noteq> CHR ''f''"
      by (auto simp: skip_def json_space_def is_digit_def between_def dquote_def)
    moreover have "scan_number (n @ rest) = Some (n, rest)" using JNum that by (simp add: num_ok_def)
    ultimately show ?thesis by (simp add: n HasPrefix_def)
  qed
  then show ?case unfolding prints_def by (metis Suc_le_D clean.simps(6) print_json.simps(3))
next
  case (JStr s)
  have "parse_value d (Suc m) (quote s @ rest) = Some (JStr (to_valid s), rest)" for m rest
    by (simp add: quote_def unquote_quote)
  then show ?case unfolding prints_def by (metis Suc_le_D clean.simps(1) print_json.simps(4))
next
  case (JArr js)
  then obtain d' where d: "d = Suc d'" by (cases d) auto
  have p: "prints d' j" if "j \<in> set js" for j
    using JArr that by (auto simp: d foldr_max_le list_all_iff)
  have "\<exists>N. \<forall>n\<ge>N. parse_value d n (print_json (JArr js) @ rest) = Some (clean (JArr js), rest)" for rest
  proof (cases js)
    case Nil
    have "parse_value d (Suc m) (print_json (JArr js) @ rest) = Some (clean (JArr js), rest)" for m
      by (simp add: Nil d)
    then show ?thesis by (metis Suc_le_D)
  next
    case (Cons j js')
    obtain N where N: "\<forall>n\<ge>N. parse_elems d' n (Join (map print_json js) '','' @ CHR '']'' # rest) = Some (map clean js, rest)"
      using parse_elems_print [OF p] Cons by blast
    have "nums_ok j" using JArr Cons by simp
    from print_json_head [OF this] obtain c t where ct: "print_json j = c # t" "\<forall>s. skip (c # s) = c # s" "c \<noteq> CHR '']''"
      by blast
    have h: "\<exists>t'. Join (map print_json js) '','' @ CHR '']'' # rest = c # t'"
      unfolding Cons parse_first_char ct by simp
    have "parse_value d (Suc m) (print_json (JArr js) @ rest) = Some (clean (JArr js), rest)" if "N \<le> m" for m
      using N that h ct by (auto simp: d)
    then show ?thesis by (metis Suc_le_D Suc_le_mono)
  qed
  then show ?case by (simp add: prints_def)
next
  case (JObj kvs)
  then obtain d' where d: "d = Suc d'" by (cases d) auto
  have p: "prints d' j" if "(k, j) \<in> set kvs" for k j
  proof -
    have "json_depth j \<le> d'" "nums_ok j" using JObj.prems that by (force simp: d foldr_max_le list_all_iff)+
    then show ?thesis using JObj.IH [OF that] by simp
  qed
  have "\<exists>N. \<forall>n\<ge>N. parse_value d n (print_json (JObj kvs) @ rest) = Some (clean (JObj kvs), rest)" for rest
  proof (cases kvs)
    case Nil
    have "parse_value d (Suc m) (print_json (JObj kvs) @ rest) = Some (clean (JObj kvs), rest)" for m
      by (simp add: Nil d)
    then show ?thesis by (metis Suc_le_D)
  next
    case (Cons kj kvs')
    have "\<exists>N. \<forall>n\<ge>N. parse_members d' n (Join (map (\<lambda>(k, j). quote k @ '':'' @ print_json j) kvs) '','' @ CHR ''}'' # rest)
        = Some (map (\<lambda>(k, j). (to_valid k, clean j)) kvs, rest)"
      by (rule parse_members_print) (use p Cons in auto)
    then obtain N where N: "\<forall>n\<ge>N. parse_members d' n (Join (map (\<lambda>(k, j). quote k @ '':'' @ print_json j) kvs) '','' @ CHR ''}'' # rest)
        = Some (map (\<lambda>(k, j). (to_valid k, clean j)) kvs, rest)" by blast
    have h: "\<exists>t. Join (map (\<lambda>(k, j). quote k @ '':'' @ print_json j) kvs) '','' @ CHR ''}'' # rest = dquote # t"
      by (cases kj; cases kvs') (simp_all add: Cons quote_def)
    have "parse_value d (Suc m) (print_json (JObj kvs) @ rest) = Some (clean (JObj kvs), rest)" if "N \<le> m" for m
      using N that h by (auto simp: d)
    then show ?thesis by (metis Suc_le_D Suc_le_mono)
  qed
  then show ?case by (simp add: prints_def)
qed (auto simp: prints_def HasPrefix_def intro!: exI [of _ 1] dest!: Suc_le_D)

lemma json_parse_print:
  assumes "json_depth j \<le> maxNestingDepth" "nums_ok j"
  shows "json_parse (print_json j) = Some (clean j)" and "json_first (print_json j) = Some (clean j, [])"
proof -
  obtain N where N: "\<forall>n\<ge>N. parse_value maxNestingDepth n (print_json j) = Some (clean j, [])"
    using print_value [OF assms] unfolding prints_def by (metis append_Nil2 delim_simps(1))
  then have "parse_value maxNestingDepth (max N (2 * length (print_json j) + 1)) (print_json j) = Some (clean j, [])"
    by simp
  then show "json_first (print_json j) = Some (clean j, [])"
    unfolding json_first_def by (subst parse_fuel(1) [of _ _ "max N (2 * length (print_json j) + 1)"]) auto
  then show "json_parse (print_json j) = Some (clean j)" by (simp add: json_parse_def)
qed

text \<open>A string of ASCII characters comes back as it was.\<close>

definition ascii :: "string \<Rightarrow> bool" where
  "ascii s \<longleftrightarrow> list_all (\<lambda>c. (of_char c :: nat) < 128) s"

lemma to_valid_ascii [simp]: "ascii s \<Longrightarrow> to_valid s = s"
  by (induction s) (auto simp: ascii_def to_valid.simps)

lemma ascii_Nil [simp]: "ascii []"
  by (simp add: ascii_def)

lemma ascii_append [simp]: "ascii (s @ t) \<longleftrightarrow> ascii s \<and> ascii t"
  by (simp add: ascii_def)

lemma of_char_hex_digit: "n < 16 \<Longrightarrow> (of_char (hex_digit n) :: nat) < 128"
  by (simp add: hex_digit_def)

lemma ascii_hex_encode [simp]: "ascii (hex_encode bs)"
proof (induction bs)
  case (Cons b bs)
  have "unat b div 16 < 16" using unat_byte_less [of b] by simp
  then show ?case using Cons by (simp add: ascii_def of_char_hex_digit)
qed (simp add: ascii_def)

lemma hd_dec_nat: "0 < n \<Longrightarrow> (of_char (hd (dec_nat n)) :: nat) \<noteq> 48"
proof (induction n rule: dec_nat.induct)
  case (1 n)
  show ?case
  proof (cases "n < 10")
    case True
    then show ?thesis using 1(2) by (simp add: dec_nat.simps [of n] digit_char_def)
  next
    case False
    then have "0 < n div 10" by simp
    then show ?thesis using 1(1) [OF False] False by (simp add: dec_nat.simps [of n])
  qed
qed

lemma scan_digits:
  assumes "delim rest"
  shows "scan_int (dec_nat n @ rest) = Some (dec_nat n, rest)"
proof -
  have all: "\<forall>c\<in>set (dec_nat n). is_digit c" using dec_nat_digits by (auto simp: is_digit_def between_def)
  have rest: "takeWhile is_digit rest = []" "dropWhile is_digit rest = rest"
    using assms by (cases rest; auto simp: delim_def is_digit_def between_def json_space_def)+
  obtain c t where ct: "dec_nat n = c # t" by (cases "dec_nat n") auto
  show ?thesis
  proof (cases "n = 0")
    case True
    have "dec_nat 0 = ''0''" by code_simp
    then show ?thesis using True by (simp add: scan_int_def)
  next
    case False
    then have "c \<noteq> CHR ''0''" using hd_dec_nat [of n] ct by auto
    moreover have "takeWhile is_digit (dec_nat n @ rest) = dec_nat n" "dropWhile is_digit (dec_nat n @ rest) = rest"
      using all rest by simp_all
    ultimately show ?thesis using all ct by (simp add: scan_int_def)
  qed
qed

lemma num_ok_dec_int [simp]: "num_ok (dec_int i)"
proof -
  have fr: "scan_frac rest = Some ([], rest)" "scan_exp rest = Some ([], rest)" if "delim rest" for rest
    using that by (cases rest; auto simp: scan_frac_def scan_exp_def delim_def json_space_def)+
  have hd: "\<exists>c t. dec_nat n = c # t \<and> is_digit c \<and> c \<noteq> CHR ''-''" for n
    using dec_nat_digits [of "hd (dec_nat n)" n] dec_nat_hd_not_minus [of n] dec_nat_nonempty [of n]
    by (cases "dec_nat n") (auto simp: is_digit_def between_def)
  have "scan_number (dec_int i @ rest) = Some (dec_int i, rest)" if "delim rest" for rest
  proof (cases "i < 0")
    case True
    then show ?thesis using fr [OF that] scan_digits [OF that] by (simp add: dec_int_def scan_number_def)
  next
    case False
    obtain c t where ct: "dec_nat (nat i) = c # t" "c \<noteq> CHR ''-''" using hd by blast
    then have "scan_int (c # t @ rest) = Some (c # t, rest)" using scan_digits [OF that, of "nat i"] by simp
    then show ?thesis using False ct fr [OF that] by (simp add: dec_int_def scan_number_def)
  qed
  moreover have "dec_int i \<noteq> [] \<and> (hd (dec_int i) = CHR ''-'' \<or> is_digit (hd (dec_int i)))"
    using hd [of "nat i"] by (auto simp: dec_int_def)
  ultimately show ?thesis by (simp add: num_ok_def)
qed

lemma dec_int64_int_json [simp]: "int64 i \<Longrightarrow> dec_int64 (int_json i) x = Some i"
  by (simp add: dec_int64_def int_json_def ParseInt64_dec_int)

lemma clean_int_json [simp]: "clean (int_json i) = int_json i" "nums_ok (int_json i)" "json_depth (int_json i) = 0"
  by (simp_all add: int_json_def)

lemma Unmarshal_print:
  assumes "json_depth j \<le> maxNestingDepth" "nums_ok j"
  shows "Unmarshal dec (print_json j) x = dec (clean j) x" "Decode dec (print_json j) x = dec (clean j) x"
  using json_parse_print [OF assms] by (simp_all add: Unmarshal_def Decode_def)

section \<open>Sizes\<close>

lemma quote_body_ascii_Cons: "(of_char c :: nat) < 128 \<Longrightarrow> quote_body (c # s) = quote_char c @ quote_body s"
  by (subst quote_body.simps) simp

lemma quote_body_Nil [simp]: "quote_body [] = []"
  by (simp add: quote_body.simps)

text \<open>Characters that are printed as they are, and those that are at most preceded by a backslash.\<close>

definition plain_char :: "char \<Rightarrow> bool" where
  "plain_char c \<longleftrightarrow> 32 \<le> (of_char c :: nat) \<and> (of_char c :: nat) < 128 \<and> (of_char c :: nat) \<notin> {34, 92, 60, 62, 38}"

definition short_char :: "char \<Rightarrow> bool" where
  "short_char c \<longleftrightarrow> plain_char c \<or> (of_char c :: nat) \<in> {34, 92}"

lemma quote_body_plain [simp]: "list_all plain_char s \<Longrightarrow> quote_body s = s"
  by (induction s) (auto simp: quote_body_ascii_Cons plain_char_def quote_char_def Let_def)

lemma quote_body_short: "list_all short_char s \<Longrightarrow> length (quote_body s) \<le> 2 * length s"
  by (induction s) (auto simp: quote_body_ascii_Cons short_char_def plain_char_def quote_char_def Let_def)

lemma plain_hex_encode [simp]: "list_all plain_char (hex_encode bs)"
proof -
  have d: "plain_char (hex_digit n)" if "n < 16" for n using that by (auto simp: plain_char_def hex_digit_def)
  show ?thesis
  proof (induction bs)
    case (Cons b bs)
    have "unat b div 16 < 16" using unat_byte_less [of b] by simp
    then show ?case using Cons d by simp
  qed simp
qed

lemma plain_b64_char: "n < 64 \<Longrightarrow> plain_char (b64_char n)"
  by (auto simp: plain_char_def b64_char_def)

lemma plain_b64_encode [simp]: "list_all plain_char (b64_encode pad bs)"
proof -
  have "plain_char (CHR ''='')" by (simp add: plain_char_def)
  then show ?thesis
    by (induction pad bs rule: b64_encode.induct) (auto simp: plain_b64_char b64_bounds)
qed

lemma length_b64_encode: "length (b64_encode True bs) \<le> 4 * ((length bs + 2) div 3)"
proof (induction "True" bs rule: b64_encode.induct)
  case (4 x y z r)
  have "(length (x # y # z # r) + 2) div 3 = Suc ((length r + 2) div 3)" by simp
  with 4 show ?case by simp
qed auto

lemma length_quote: "length (quote s) = length (quote_body s) + 2"
  by (simp add: quote_def)

section \<open>Values that survive the wire\<close>

definition wire_ok :: "json \<Rightarrow> bool" where
  "wire_ok j \<longleftrightarrow> json_depth j \<le> maxNestingDepth \<and> nums_ok j \<and> clean j = j"

lemma Unmarshal_wire: "wire_ok j \<Longrightarrow> Unmarshal dec (print_json j) x = dec j x"
  by (simp add: wire_ok_def Unmarshal_print)

lemma dec_elems_strings: "dec_elems dec_string [] (map JStr ss) old = Some ss"
  by (induction ss arbitrary: old) (auto simp: dec_string_def)

lemma foldr_max_zero [simp]: "foldr max (map (\<lambda>x. 0) xs) 0 = (0 :: nat)"
  by (induction xs) auto

definition utf8 :: "string \<Rightarrow> bool" where
  "utf8 s \<longleftrightarrow> to_valid s = s"

lemma utf8_ascii [simp]: "ascii s \<Longrightarrow> utf8 s"
  by (simp add: utf8_def)

lemma map_utf8: "list_all utf8 ss \<Longrightarrow> map (\<lambda>s. JStr (to_valid s)) ss = map JStr ss"
  by (simp add: utf8_def list_all_iff)

lemma utf8_eq [simp]: "utf8 s \<Longrightarrow> to_valid s = s"
  by (simp add: utf8_def)

lemma ascii_b64_encode [simp]: "ascii (b64_encode pad bs)"
proof -
  have "list_all plain_char s \<Longrightarrow> ascii s" for s by (auto simp: ascii_def plain_char_def list_all_iff)
  then show ?thesis by simp
qed

lemma utf8_ascii_Cons: "(of_char c :: nat) < 128 \<Longrightarrow> utf8 (c # s) \<longleftrightarrow> utf8 s"
  by (simp add: utf8_def to_valid.simps [of "c # s"])

section \<open>Indented text\<close>

text \<open>\<^verbatim>\<open>json.MarshalIndent\<close> with an empty prefix and two blanks for each level.\<close>

definition line_start :: "nat \<Rightarrow> string" where
  "line_start n = CHR 0x0A # replicate (2 * n) CHR '' ''"

fun print_indent :: "nat \<Rightarrow> json \<Rightarrow> string" where
  "print_indent n (JArr js) =
     (if js = [] then ''[]''
      else CHR ''['' # Join (map (\<lambda>j. line_start (n + 1) @ print_indent (n + 1) j) js) '','' @ line_start n @ '']'')"
| "print_indent n (JObj kvs) =
     (if kvs = [] then ''{}''
      else CHR ''{'' # Join (map (\<lambda>(k, j). line_start (n + 1) @ quote k @ '': '' @ print_indent (n + 1) j) kvs) '',''
           @ line_start n @ ''}'')"
| "print_indent n j = print_json j"

definition MarshalIndent :: "json \<Rightarrow> bytes" where
  "MarshalIndent j = bytes_of_string (print_indent 0 j)"

lemma skip_line_start [simp]: "skip (line_start n @ s) = skip s"
proof -
  have "dropWhile json_space (replicate m CHR '' '' @ s) = dropWhile json_space s" for m by (induction m) (simp_all add: json_space_def)
  then show ?thesis by (simp add: skip_def line_start_def json_space_def)
qed

lemma skip_blank [simp]: "skip (CHR '' '' # s) = skip s"
  by (simp add: skip_def json_space_def)

lemma delim_line_start [simp]: "delim (line_start n @ s)"
  by (simp add: delim_def line_start_def json_space_def)

lemma parse_value_skip: "skip s = skip t \<Longrightarrow> parse_value d n s = parse_value d n t"
  by (cases n) simp_all

lemma parse_value_line_start [simp]: "parse_value d n (line_start k @ s) = parse_value d n s"
  by (rule parse_value_skip) simp

lemma parse_value_blank [simp]: "parse_value d n (CHR '' '' # s) = parse_value d n s"
  by (rule parse_value_skip) simp

lemma parse_members_line_start [simp]: "parse_members d n (line_start k @ s) = parse_members d n s"
  by (cases n) simp_all

definition indents :: "nat \<Rightarrow> json \<Rightarrow> bool" where
  "indents d j \<longleftrightarrow> (\<forall>k rest. delim rest \<longrightarrow>
     (\<exists>N. \<forall>n\<ge>N. parse_value d n (print_indent k j @ rest) = Some (clean j, rest)))"

lemma parse_elems_indent:
  assumes "\<And>j. j \<in> set js \<Longrightarrow> indents d j" "js \<noteq> []"
  shows "\<exists>N. \<forall>n\<ge>N. parse_elems d n (Join (map (\<lambda>j. line_start k @ print_indent k j) js) '','' @ line_start i @ CHR '']'' # rest)
    = Some (map clean js, rest)"
  using assms
proof (induction js)
  case (Cons j js)
  let ?pr = "\<lambda>j. line_start k @ print_indent k j"
  let ?tail = "Join (map ?pr js) '','' @ line_start i @ CHR '']'' # rest"
  let ?r = "if js = [] then line_start i @ CHR '']'' # rest else CHR '','' # ?tail"
  have j: "indents d j" using Cons.prems by simp
  have "delim ?r" by simp
  with j obtain N where N: "\<forall>n\<ge>N. parse_value d n (print_indent k j @ ?r) = Some (clean j, ?r)"
    unfolding indents_def by blast
  have str: "Join (map ?pr (j # js)) '','' @ line_start i @ CHR '']'' # rest = line_start k @ print_indent k j @ ?r"
    by (cases js) simp_all
  obtain M where M: "js \<noteq> [] \<Longrightarrow> \<forall>n\<ge>M. parse_elems d n ?tail = Some (map clean js, rest)"
    using Cons by (cases "js = []") auto
  have "parse_elems d n (line_start k @ print_indent k j @ ?r) = Some (map clean (j # js), rest)" if n: "Suc (max N M) \<le> n" for n
  proof -
    obtain n' where "n = Suc n'" "N \<le> n'" "M \<le> n'" using n by (cases n) auto
    then show ?thesis using N M by auto
  qed
  then show ?case unfolding str by blast
qed simp

lemma parse_members_indent:
  assumes "\<And>x j. (x, j) \<in> set kvs \<Longrightarrow> indents d j" "kvs \<noteq> []"
  shows "\<exists>N. \<forall>n\<ge>N. parse_members d n (Join (map (\<lambda>(x, j). line_start k @ quote x @ '': '' @ print_indent k j) kvs) '',''
      @ line_start i @ CHR ''}'' # rest) = Some (map (\<lambda>(x, j). (to_valid x, clean j)) kvs, rest)"
  using assms
proof (induction kvs)
  case (Cons kj kvs)
  obtain x j where kj: "kj = (x, j)" by (cases kj)
  let ?pr = "\<lambda>(x, j). line_start k @ quote x @ '': '' @ print_indent k j"
  let ?tail = "Join (map ?pr kvs) '','' @ line_start i @ CHR ''}'' # rest"
  let ?r = "if kvs = [] then line_start i @ CHR ''}'' # rest else CHR '','' # ?tail"
  have j: "indents d j" using Cons.prems(1) [of x j] kj by simp
  have "delim ?r" by simp
  with j obtain N where N: "\<forall>n\<ge>N. parse_value d n (print_indent k j @ ?r) = Some (clean j, ?r)"
    unfolding indents_def by blast
  have str: "Join (map ?pr (kj # kvs)) '','' @ line_start i @ CHR ''}'' # rest
      = line_start k @ dquote # quote_body x @ dquote # CHR '':'' # CHR '' '' # print_indent k j @ ?r"
    by (cases kvs) (simp_all add: kj quote_def)
  obtain M where M: "kvs \<noteq> [] \<Longrightarrow> \<forall>n\<ge>M. parse_members d n ?tail = Some (map (\<lambda>(x, j). (to_valid x, clean j)) kvs, rest)"
    using Cons by (cases "kvs = []") auto
  have "parse_members d n (line_start k @ dquote # quote_body x @ dquote # CHR '':'' # CHR '' '' # print_indent k j @ ?r)
      = Some (map (\<lambda>(x, j). (to_valid x, clean j)) (kj # kvs), rest)" if n: "Suc (max N M) \<le> n" for n
  proof -
    obtain n' where "n = Suc n'" "N \<le> n'" "M \<le> n'" using n by (cases n) auto
    then show ?thesis using N M by (auto simp: unquote_quote kj)
  qed
  then show ?case unfolding str by blast
qed simp

lemma skip_Join_indent: "xs \<noteq> [] \<Longrightarrow> skip (Join (map (\<lambda>x. line_start k @ f x) xs) '','' @ s)
    = skip (f (hd xs) @ (if tl xs = [] then s else CHR '','' # Join (map (\<lambda>x. line_start k @ f x) (tl xs)) '','' @ s))"
  by (cases xs; cases "tl xs") simp_all

lemma print_indent_head:
  "nums_ok j \<Longrightarrow> \<exists>c t. print_indent k j = c # t \<and> (\<forall>s. skip (c # s) = c # s) \<and> c \<noteq> CHR '']'' \<and> c \<noteq> CHR ''}''"
  using print_json_head [of j] by (cases j) auto

lemma scalar_indents: "json_depth j \<le> d \<Longrightarrow> nums_ok j \<Longrightarrow> (\<And>k. print_indent k j = print_json j) \<Longrightarrow> indents d j"
  using print_value [of j d] by (simp add: indents_def prints_def)

lemma indent_value: "json_depth j \<le> d \<Longrightarrow> nums_ok j \<Longrightarrow> indents d j"
proof (induction j arbitrary: d)
  case (JArr js)
  then obtain d' where d: "d = Suc d'" by (cases d) auto
  have p: "indents d' j" if "j \<in> set js" for j
    using JArr that by (auto simp: d foldr_max_le list_all_iff)
  have "\<exists>N. \<forall>n\<ge>N. parse_value d n (print_indent k (JArr js) @ rest) = Some (clean (JArr js), rest)" for k rest
  proof (cases js)
    case Nil
    have "parse_value d (Suc m) (print_indent k (JArr js) @ rest) = Some (clean (JArr js), rest)" for m by (simp add: Nil d)
    then show ?thesis by (metis Suc_le_D)
  next
    case (Cons j js')
    let ?s = "Join (map (\<lambda>j. line_start (k + 1) @ print_indent (k + 1) j) js) '','' @ line_start k @ CHR '']'' # rest"
    obtain N where N: "\<forall>n\<ge>N. parse_elems d' n ?s = Some (map clean js, rest)" using parse_elems_indent [OF p] Cons by blast
    have "nums_ok j" using JArr Cons by simp
    from print_indent_head [OF this, of "k + 1"] obtain c t where
      ct: "print_indent (k + 1) j = c # t" "\<forall>s. skip (c # s) = c # s" "c \<noteq> CHR '']''" by blast
    have h: "\<exists>t'. skip ?s = c # t'" using ct Cons by (subst skip_Join_indent) auto
    have "parse_value d (Suc m) (print_indent k (JArr js) @ rest) = Some (clean (JArr js), rest)" if "N \<le> m" for m
      using N that h ct(3) Cons by (auto simp: d)
    then show ?thesis by (metis Suc_le_D Suc_le_mono)
  qed
  then show ?case by (simp add: indents_def)
next
  case (JObj kvs)
  then obtain d' where d: "d = Suc d'" by (cases d) auto
  have p: "indents d' j" if "(x, j) \<in> set kvs" for x j
  proof -
    have "json_depth j \<le> d'" "nums_ok j" using JObj.prems that by (force simp: d foldr_max_le list_all_iff)+
    then show ?thesis using JObj.IH [OF that] by simp
  qed
  have "\<exists>N. \<forall>n\<ge>N. parse_value d n (print_indent k (JObj kvs) @ rest) = Some (clean (JObj kvs), rest)" for k rest
  proof (cases kvs)
    case Nil
    have "parse_value d (Suc m) (print_indent k (JObj kvs) @ rest) = Some (clean (JObj kvs), rest)" for m by (simp add: Nil d)
    then show ?thesis by (metis Suc_le_D)
  next
    case (Cons kj kvs')
    let ?s = "Join (map (\<lambda>(x, j). line_start (k + 1) @ quote x @ '': '' @ print_indent (k + 1) j) kvs) '','' @ line_start k @ CHR ''}'' # rest"
    have "\<exists>N. \<forall>n\<ge>N. parse_members d' n ?s = Some (map (\<lambda>(x, j). (to_valid x, clean j)) kvs, rest)"
      by (rule parse_members_indent) (use p Cons in auto)
    then obtain N where N: "\<forall>n\<ge>N. parse_members d' n ?s = Some (map (\<lambda>(x, j). (to_valid x, clean j)) kvs, rest)" by blast
    have h: "\<exists>t. skip ?s = dquote # t" by (cases kj; cases kvs') (simp_all add: Cons quote_def)
    have "parse_value d (Suc m) (print_indent k (JObj kvs) @ rest) = Some (clean (JObj kvs), rest)" if "N \<le> m" for m
      using N that h Cons by (auto simp: d)
    then show ?thesis by (metis Suc_le_D Suc_le_mono)
  qed
  then show ?case by (simp add: indents_def)
qed (auto intro: scalar_indents)

lemma Unmarshal_indent: "wire_ok j \<Longrightarrow> Unmarshal dec (print_indent 0 j) x = dec j x"
proof -
  assume j: "wire_ok j"
  then obtain N where N: "\<forall>n\<ge>N. parse_value maxNestingDepth n (print_indent 0 j) = Some (clean j, [])"
    using indent_value [of j maxNestingDepth] unfolding indents_def wire_ok_def by (metis append_Nil2 delim_simps(1))
  then have "parse_value maxNestingDepth (max N (2 * length (print_indent 0 j) + 1)) (print_indent 0 j) = Some (clean j, [])"
    by simp
  then have "json_first (print_indent 0 j) = Some (clean j, [])"
    unfolding json_first_def by (subst parse_fuel(1) [of _ _ "max N (2 * length (print_indent 0 j) + 1)"]) auto
  then show ?thesis using j by (simp add: Unmarshal_def json_parse_def wire_ok_def)
qed

end
