(* ===== verification/Messages.thy ===== *)
theory Messages
  imports Identity Go_Json
begin

text \<open>
  The message layer of \<^verbatim>\<open>core/peer/peer.go\<close>: the message with its JSON form, signing and
  framing (\<open>sendOn\<close>), and the verification of what a connection delivers (\<open>verifyMessage\<close>).

  A connection carries a byte stream; \<open>sendOn\<close> gives the bytes it writes, \<open>read_frame\<close> is one
  round of the read loop's framing.
\<close>

section \<open>Definitions\<close>

definition MaxMessageSize :: nat where
  "MaxMessageSize = 2 ^ 20"

definition ProtocolVersion :: int where
  "ProtocolVersion = 1"

definition MinSupportedVersion :: int where
  "MinSupportedVersion = 1"

record Message =
  m_V :: int
  m_Type :: string
  m_From :: string
  m_PublicKey :: string
  m_ReqID :: string
  m_Payload :: string
  m_Sig :: string

definition zero_Message :: Message where
  "zero_Message = \<lparr>m_V = 0, m_Type = [], m_From = [], m_PublicKey = [], m_ReqID = [], m_Payload = [], m_Sig = []\<rparr>"

definition enc_Message :: "Message \<Rightarrow> json" where
  "enc_Message m = JObj (omit (m_V m = 0) ''v'' (int_json (m_V m))
     @ [(''type'', JStr (m_Type m)), (''from'', JStr (m_From m))]
     @ omit (m_PublicKey m = []) ''pk'' (JStr (m_PublicKey m))
     @ omit (m_ReqID m = []) ''reqid'' (JStr (m_ReqID m))
     @ [(''payload'', JStr (m_Payload m))]
     @ omit (m_Sig m = []) ''sig'' (JStr (m_Sig m)))"

definition dec_Message :: "Message field_dec" where
  "dec_Message = dec_struct
     [(''v'', field dec_uint32 m_V m_V_update),
      (''type'', field dec_string m_Type m_Type_update),
      (''from'', field dec_string m_From m_From_update),
      (''pk'', field dec_string m_PublicKey m_PublicKey_update),
      (''reqid'', field dec_string m_ReqID m_ReqID_update),
      (''payload'', field dec_string m_Payload m_Payload_update),
      (''sig'', field dec_string m_Sig m_Sig_update)]"

text \<open>The message as \<open>sendOn\<close> signs it, and the bytes it writes; \<open>None\<close> is the size error.\<close>

definition sign_message :: "prims \<Rightarrow> Identity \<Rightarrow> Message \<Rightarrow> Message" where
  "sign_message c i msg =
     (let m = msg\<lparr>m_V := ProtocolVersion, m_From := Identity_ID c i,
               m_PublicKey := PublicKeyToHex (PublicKey i), m_Sig := []\<rparr>
      in m\<lparr>m_Sig := Sign c i (Marshal (enc_Message m))\<rparr>)"

definition sendOn :: "prims \<Rightarrow> Identity \<Rightarrow> Message \<Rightarrow> bytes option" where
  "sendOn c i msg =
     (let signed = Marshal (enc_Message (sign_message c i msg))
      in if length signed > MaxMessageSize then None
         else Some (be32 (length signed) @ signed))"

datatype frame = FrameEOF | FrameBad | FrameMsg Message bytes

definition read_frame :: "bytes \<Rightarrow> frame" where
  "read_frame s =
     (if length s < 4 then FrameEOF
      else
        let size = be_nat (take 4 s);
            rest = drop 4 s
        in if size = 0 \<or> size > MaxMessageSize then FrameBad
           else if length rest < size then FrameEOF
           else case Unmarshal dec_Message (string_of_bytes (take size rest)) zero_Message of
                  None \<Rightarrow> FrameBad
                | Some m \<Rightarrow> FrameMsg m (drop size rest))"

record peerConn =
  remoteID :: string
  remotePub :: "bytes option"
  addresses :: "string list"

datatype verify_error =
    ErrVersion | ErrNoPublicKey | ErrBadPublicKey | ErrFromMismatch | ErrKeyChanged | ErrBadSignature

definition verifyMessage :: "prims \<Rightarrow> peerConn \<Rightarrow> Message \<Rightarrow> verify_error + peerConn" where
  "verifyMessage c pc msg =
     (let v = (if m_V msg = 0 then 1 else m_V msg)
      in if v < MinSupportedVersion then Inl ErrVersion
         else if m_PublicKey msg = [] then Inl ErrNoPublicKey
         else case PublicKeyFromHex (m_PublicKey msg) of
                None \<Rightarrow> Inl ErrBadPublicKey
              | Some pub \<Rightarrow>
                  if m_From msg \<noteq> [] \<and> m_From msg \<noteq> PublicKeyToID c pub then Inl ErrFromMismatch
                  else if remotePub pc \<noteq> None \<and> remotePub pc \<noteq> Some pub then Inl ErrKeyChanged
                  else if \<not> Verify c pub (Marshal (enc_Message (msg\<lparr>m_Sig := []\<rparr>))) (m_Sig msg)
                  then Inl ErrBadSignature
                  else if remotePub pc = None
                  then Inr (pc\<lparr>remotePub := Some pub, remoteID := PublicKeyToID c pub\<rparr>)
                  else Inr pc)"

definition shortID :: "string \<Rightarrow> string" where
  "shortID i = (if length i \<le> 8 then i else take 8 i)"

section \<open>Lemmas\<close>

lemma dec_uint32_int_json [simp]: "0 \<le> i \<Longrightarrow> i < 2 ^ 32 \<Longrightarrow> dec_uint32 (int_json i) x = Some i"
  using parse_dec_dec_nat [of "nat i"] dec_nat_nonempty [of "nat i"]
  by (auto simp: dec_uint32_def int_json_def dec_int_def split: list.splits)

definition message_ok :: "Message \<Rightarrow> bool" where
  "message_ok m \<longleftrightarrow> 0 \<le> m_V m \<and> m_V m < 2 ^ 32 \<and> utf8 (m_Type m) \<and> utf8 (m_From m) \<and> utf8 (m_PublicKey m)
     \<and> utf8 (m_ReqID m) \<and> utf8 (m_Payload m) \<and> utf8 (m_Sig m)"

lemma dec_enc_Message:
  assumes "message_ok m"
  shows "dec_Message (clean (enc_Message m)) zero_Message = Some m"
proof -
  have key: "to_valid k = k" if "k \<in> {''v'', ''type'', ''from'', ''pk'', ''reqid'', ''payload'', ''sig''}" for k
    using that by (auto intro!: to_valid_ascii simp: ascii_def)
  have v: "to_valid (m_Type m) = m_Type m" "to_valid (m_From m) = m_From m" "to_valid (m_PublicKey m) = m_PublicKey m"
    "to_valid (m_ReqID m) = m_ReqID m" "to_valid (m_Payload m) = m_Payload m" "to_valid (m_Sig m) = m_Sig m"
    using assms by (simp_all add: message_ok_def utf8_def)
  have "clean (enc_Message m) = enc_Message m"
    by (simp add: enc_Message_def omit_def key v)
  then show ?thesis using assms
    by (simp add: dec_Message_def dec_struct_def enc_Message_def omit_def find_field_def field_def dec_string_def
        zero_Message_def message_ok_def)
qed

lemma enc_Message_fine: "json_depth (enc_Message m) \<le> maxNestingDepth" "nums_ok (enc_Message m)"
  by (simp_all add: enc_Message_def omit_def maxNestingDepth_def)

lemma Unmarshal_Marshal_Message:
  "message_ok m \<Longrightarrow> Unmarshal dec_Message (string_of_bytes (Marshal (enc_Message m))) zero_Message = Some m"
  by (simp add: Marshal_def Unmarshal_print enc_Message_fine dec_enc_Message)

lemma ascii_PublicKeyToID [simp]: "ascii (PublicKeyToID c pub)"
  by (simp add: PublicKeyToID_def)

lemma sign_message_ok:
  assumes "utf8 (m_Type m)" "utf8 (m_ReqID m)" "utf8 (m_Payload m)"
  shows "message_ok (sign_message c i m)"
  using assms by (simp add: message_ok_def sign_message_def Let_def ProtocolVersion_def Identity_ID_def PublicKeyToHex_def Sign_def)

lemma Marshal_Message_length:
  "length (Marshal (enc_Message m)) \<le> 80 + length (dec_int (m_V m)) + length (quote_body (m_Type m))
     + length (quote_body (m_From m)) + length (quote_body (m_PublicKey m)) + length (quote_body (m_ReqID m))
     + length (quote_body (m_Payload m)) + length (quote_body (m_Sig m))"
proof -
  have "quote_body k = k" if "k \<in> {''v'', ''type'', ''from'', ''pk'', ''reqid'', ''payload'', ''sig''}" for k
    using that by (auto simp: plain_char_def)
  then show ?thesis by (simp add: Marshal_def enc_Message_def omit_def length_quote int_json_def)
qed

section \<open>Properties\<close>

text \<open>
  A message that \<open>sendOn\<close> writes is read back and passes the checks of a connection bound to the
  sender's key.
\<close>

lemma sendOn_delivered:
  assumes "prims_ok c" and "identity_ok c i"
    and "utf8 (m_Type m)" and "utf8 (m_ReqID m)" and "utf8 (m_Payload m)"
    and "sendOn c i m = Some frame" and "remotePub pc = Some (PublicKey i)"
  shows "read_frame (frame @ rest) = FrameMsg (sign_message c i m) rest
    \<and> verifyMessage c pc (sign_message c i m) = Inr pc"
proof -
  let ?m = "sign_message c i m"
  let ?signed = "Marshal (enc_Message ?m)"
  have fr: "length ?signed \<le> MaxMessageSize" "frame = be32 (length ?signed) @ ?signed"
    using assms(6) by (auto simp: sendOn_def Let_def split: if_splits)
  have "print_json (enc_Message ?m) \<noteq> []" by (simp add: enc_Message_def)
  then have pos: "0 < length ?signed" by (simp add: Marshal_def)
  have size: "be_nat (be32 (length ?signed)) = length ?signed"
    using fr(1) by (intro be_nat_be32) (simp add: MaxMessageSize_def)
  have "read_frame (frame @ rest) = FrameMsg ?m rest"
    using fr(1) pos size Unmarshal_Marshal_Message [OF sign_message_ok [OF assms(3-5)]]
    by (simp add: read_frame_def fr(2) Let_def)
  moreover have "verifyMessage c pc ?m = Inr pc"
  proof -
    have pub: "length (PublicKey i) = 32" by (rule PublicKey_length [OF assms(1,2)])
    then have pk: "PublicKeyToHex (PublicKey i) \<noteq> []" by (metis PublicKeyToHex_def length_0_conv length_hex_encode mult_eq_0_iff zero_neq_numeral)
    have "?m\<lparr>m_Sig := []\<rparr> = m\<lparr>m_V := ProtocolVersion, m_From := Identity_ID c i,
        m_PublicKey := PublicKeyToHex (PublicKey i), m_Sig := []\<rparr>"
      by (simp add: sign_message_def Let_def)
    then have "Verify c (PublicKey i) (Marshal (enc_Message (?m\<lparr>m_Sig := []\<rparr>))) (m_Sig ?m)"
      using Sign_Verify [OF assms(1,2)] by (simp add: sign_message_def Let_def)
    then show ?thesis
      using assms(7) pub pk PublicKeyFromHex_ToHex [OF pub]
      by (simp add: verifyMessage_def Let_def sign_message_def ProtocolVersion_def MinSupportedVersion_def Identity_ID_def)
  qed
  ultimately show ?thesis by blast
qed

text \<open>
  What \<open>verifyMessage\<close> accepts on an established connection carries the key of that
  connection and a valid signature by it over the message, and names its holder as the sender or
  nobody; the connection is unchanged.
\<close>

theorem verifyMessage_sound:
  assumes "verifyMessage c pc msg = Inr pc'" and "remotePub pc = Some pub"
  shows "pc' = pc \<and> PublicKeyFromHex (m_PublicKey msg) = Some pub
    \<and> m_From msg \<in> {[], PublicKeyToID c pub}
    \<and> Verify c pub (Marshal (enc_Message (msg\<lparr>m_Sig := []\<rparr>))) (m_Sig msg)"
  using assms by (auto simp: verifyMessage_def Let_def split: if_splits option.splits)

theorem verifyMessage_sound_witness:
  "\<exists>pc'. verifyMessage (toy_prims\<lparr>ed_verify := \<lambda>_ _ _. True\<rparr>)
       \<lparr>remoteID = [], remotePub = Some (replicate 32 0), addresses = []\<rparr>
       (zero_Message\<lparr>m_PublicKey := replicate 64 (CHR ''0'')\<rparr>) = Inr pc'
     \<and> pc' = \<lparr>remoteID = [], remotePub = Some (replicate 32 0), addresses = []\<rparr>"
proof -
  let ?pc = "\<lparr>remoteID = [], remotePub = Some (replicate 32 0), addresses = []\<rparr>"
  let ?m = "zero_Message\<lparr>m_PublicKey := replicate 64 (CHR ''0'')\<rparr>"
  have pk: "PublicKeyFromHex (replicate 64 (CHR ''0'')) = Some (replicate 32 0)" by code_simp
  obtain pc' where v: "verifyMessage (toy_prims\<lparr>ed_verify := \<lambda>_ _ _. True\<rparr>) ?pc ?m = Inr pc'"
    by (simp add: verifyMessage_def zero_Message_def pk Verify_def MinSupportedVersion_def)
  have "pc' = ?pc" using verifyMessage_sound [OF v, of "replicate 32 0"] by simp
  with v show ?thesis by blast
qed

end
