(* ===== verification/Blocklists.thy ===== *)
theory Blocklists
  imports Node_Ids
begin

text \<open>
  \<^verbatim>\<open>core/dht/blocklist.go\<close>: the set of chunk hashes a node refuses to accept or to serve.

  A \<^verbatim>\<open>*Blocklist\<close> is an option, \<open>None\<close> being the nil pointer, which every method accepts. The
  file is read by a \<^verbatim>\<open>bufio.Scanner\<close>: lines end at a line feed, a carriage return before it is
  dropped, and a line of 64 KiB or more stops the scan with an error.
\<close>

section \<open>Definitions\<close>

subsection \<open>Lines of a file\<close>

definition MaxScanTokenSize :: nat where
  "MaxScanTokenSize = 64 * 1024"

definition dropCR :: "string \<Rightarrow> string" where
  "dropCR l = (if l \<noteq> [] \<and> last l = CHR 0x0D then butlast l else l)"

fun scan_tokens :: "string list \<Rightarrow> string list \<times> bool" where
  "scan_tokens [] = ([], False)"
| "scan_tokens (l # ls) =
     (if length l \<ge> MaxScanTokenSize then ([], True)
      else case scan_tokens ls of (ts, err) \<Rightarrow> (dropCR l # ts, err))"

definition ScanLines :: "string \<Rightarrow> string list \<times> bool" where
  "ScanLines s =
     (let ls = Split s (CHR 0x0A)
      in scan_tokens (if last ls = [] then butlast ls else ls))"

subsection \<open>The blocklist\<close>

type_synonym Blocklist = "string fset"

definition NewBlocklist :: Blocklist where
  "NewBlocklist = {||}"

definition block_line :: "Blocklist \<Rightarrow> string \<Rightarrow> Blocklist" where
  "block_line bl text =
     (let line = TrimSpace text
      in if line = [] \<or> HasPrefix line ''#'' then bl
         else
           let line = (case IndexByte line (CHR ''#'') of
                         None \<Rightarrow> line
                       | Some i \<Rightarrow> TrimSpace (take i line))
           in case IDFromHex (ToLower line) of
                Inl _ \<Rightarrow> bl
              | Inr _ \<Rightarrow> finsert (ToLower line) bl)"

datatype open_result = FileText string | FileMissing | FileError

text \<open>The result is the list and whether an error is returned; \<open>None\<close> is the nil list.\<close>

definition LoadBlocklistFromFile :: "open_result \<Rightarrow> Blocklist option \<times> bool" where
  "LoadBlocklistFromFile f =
     (case f of
        FileMissing \<Rightarrow> (Some NewBlocklist, False)
      | FileError \<Rightarrow> (None, True)
      | FileText s \<Rightarrow>
          (case ScanLines s of (ls, err) \<Rightarrow> (Some (foldl block_line NewBlocklist ls), err)))"

definition Blocklist_Contains :: "Blocklist option \<Rightarrow> NodeID \<Rightarrow> bool" where
  "Blocklist_Contains b key = (case b of None \<Rightarrow> False | Some hashes \<Rightarrow> Hex key |\<in>| hashes)"

definition Blocklist_Size :: "Blocklist option \<Rightarrow> nat" where
  "Blocklist_Size b = (case b of None \<Rightarrow> 0 | Some hashes \<Rightarrow> fcard hashes)"

definition Blocklist_Add :: "Blocklist option \<Rightarrow> NodeID \<Rightarrow> Blocklist option \<times> bool" where
  "Blocklist_Add b key =
     (case b of
        None \<Rightarrow> (None, False)
      | Some hashes \<Rightarrow>
          if Hex key |\<in>| hashes then (Some hashes, False)
          else (Some (finsert (Hex key) hashes), True))"

section \<open>Lemmas\<close>

lemma Blocklist_Contains_Add:
  "b \<noteq> None \<Longrightarrow> Blocklist_Contains (fst (Blocklist_Add b key)) k \<longleftrightarrow> k = key \<or> Blocklist_Contains b k"
  by (auto simp: Blocklist_Contains_def Blocklist_Add_def split: option.splits)

lemma Blocklist_Add_not_None [simp]: "fst (Blocklist_Add b key) = None \<longleftrightarrow> b = None"
  by (auto simp: Blocklist_Add_def split: option.splits)

text \<open>What a line adds to the list.\<close>

definition line_hash :: "string \<Rightarrow> string" where
  "line_hash text = TrimSpace (takeWhile (\<lambda>c. c \<noteq> CHR ''#'') (TrimSpace text))"

lemma IndexByte_takeWhile:
  "(case IndexByte s c of None \<Rightarrow> s | Some i \<Rightarrow> take i s) = takeWhile (\<lambda>x. x \<noteq> c) s"
  by (induction s) (auto split: option.splits)

lemma IndexByte_None: "IndexByte s c = None \<longleftrightarrow> takeWhile (\<lambda>x. x \<noteq> c) s = s"
  by (induction s) auto

lemma block_line_eq:
  "block_line bl text = (case IDFromHex (line_hash text) of Inl _ \<Rightarrow> bl | Inr k \<Rightarrow> finsert (Hex k) bl)"
proof -
  let ?l = "TrimSpace text"
  have short: "\<exists>e. IDFromHex [] = Inl e" by (simp add: IDFromHex_def IDSize_def)
  have hash: "(case IndexByte ?l (CHR ''#'') of None \<Rightarrow> ?l | Some i \<Rightarrow> TrimSpace (take i ?l)) = line_hash text"
    using IndexByte_takeWhile [of ?l "CHR ''#''"] IndexByte_None [of ?l "CHR ''#''"]
    by (auto simp: line_hash_def split: option.splits)
  show ?thesis
  proof (cases "?l = [] \<or> HasPrefix ?l ''#''")
    case True
    then have "takeWhile (\<lambda>c. c \<noteq> CHR ''#'') ?l = []" by (cases ?l) (auto simp: HasPrefix_def)
    then have "line_hash text = []"
      by (simp add: line_hash_def TrimSpace_id)
    then show ?thesis using True short by (auto simp: block_line_def Let_def)
  next
    case False
    have "Hex k = ToLower (line_hash text)" if "IDFromHex (line_hash text) = Inr k" for k
      using IDFromHex_Inr [OF that] .
    then show ?thesis using False by (simp add: block_line_def hash Let_def split: sum.splits)
  qed
qed

lemma block_lines_Contains:
  "Blocklist_Contains (Some (foldl block_line bl ls)) k \<longleftrightarrow>
     Blocklist_Contains (Some bl) k \<or> (\<exists>l\<in>set ls. IDFromHex (line_hash l) = Inr k)"
  by (induction ls arbitrary: bl) (auto simp: block_line_eq Blocklist_Contains_def split: sum.splits)

section \<open>Properties\<close>

text \<open>
  The list loaded from a file blocks exactly the hashes the lines of the file name, whatever the
  case of their digits, the white space around them and the comments after them; a missing file is
  the empty list, and a key added at run time is blocked from then on.
\<close>

theorem Blocklist_spec:
  "(Blocklist_Contains (fst (LoadBlocklistFromFile (FileText s))) k
     \<longleftrightarrow> (\<exists>l\<in>set (fst (ScanLines s)). IDFromHex (line_hash l) = Inr k))
   \<and> \<not> Blocklist_Contains (fst (LoadBlocklistFromFile FileMissing)) k
   \<and> (Blocklist_Contains (fst (Blocklist_Add (Some bl) key)) k \<longleftrightarrow> k = key \<or> Blocklist_Contains (Some bl) k)"
  using block_lines_Contains [of NewBlocklist _ k] Blocklist_Contains_Add [of "Some bl" key k]
  by (auto simp: LoadBlocklistFromFile_def NewBlocklist_def Blocklist_Contains_def split: prod.splits)

end
