(* ===== verification/Revocation.thy ===== *)
theory Revocation
  imports Messages Blocklists "HOL-Library.List_Lexorder" "HOL-Library.Char_ord"
begin

text \<open>
  \<^verbatim>\<open>core/dht/revoke.go\<close>, the parts that do not touch the state of the DHT: the revoke payload
  and its JSON form, the canonical text that is signed, \<open>SignRevoke\<close>, and the set of trusted
  revokers. The handlers are in the theory of the DHT.

  Strings are ordered as \<^verbatim>\<open>sort.Strings\<close> orders them: byte by byte.
\<close>

section \<open>Definitions\<close>

record RevokePayload =
  rv_Name :: string
  rv_Chunks :: "string list"
  rv_Timestamp :: int
  rv_Nonce :: string
  rv_PublicKey :: string
  rv_Signature :: string

definition zero_Revoke :: RevokePayload where
  "zero_Revoke = \<lparr>rv_Name = [], rv_Chunks = [], rv_Timestamp = 0, rv_Nonce = [], rv_PublicKey = [], rv_Signature = []\<rparr>"

definition enc_Revoke :: "RevokePayload \<Rightarrow> json" where
  "enc_Revoke p = JObj [(''name'', JStr (rv_Name p)), (''chunks'', JArr (map JStr (rv_Chunks p))),
     (''timestamp'', int_json (rv_Timestamp p)), (''nonce'', JStr (rv_Nonce p)),
     (''pubkey'', JStr (rv_PublicKey p)), (''signature'', JStr (rv_Signature p))]"

definition dec_Revoke :: "RevokePayload field_dec" where
  "dec_Revoke = dec_struct
     [(''name'', field dec_string rv_Name rv_Name_update),
      (''chunks'', field (dec_slice dec_string []) rv_Chunks rv_Chunks_update),
      (''timestamp'', field dec_int64 rv_Timestamp rv_Timestamp_update),
      (''nonce'', field dec_string rv_Nonce rv_Nonce_update),
      (''pubkey'', field dec_string rv_PublicKey rv_PublicKey_update),
      (''signature'', field dec_string rv_Signature rv_Signature_update)]"

text \<open>In seconds.\<close>

definition MaxRevokeAge :: int where
  "MaxRevokeAge = 24 * 3600"

definition MaxRevokeFutureSkew :: int where
  "MaxRevokeFutureSkew = 5 * 60"

abbreviation newline :: char where
  "newline \<equiv> CHR 0x0A"

definition norm_chunk :: "string \<Rightarrow> string" where
  "norm_chunk s = ToLower (TrimSpace s)"

definition canonical_text :: "string \<Rightarrow> string list \<Rightarrow> int \<Rightarrow> string \<Rightarrow> string" where
  "canonical_text name chunks timestamp nonce =
     ''revoke'' @ [newline] @ ToLower (TrimSpace name) @ [newline]
     @ Join (sort (map norm_chunk chunks)) [newline] @ [newline]
     @ dec_int timestamp @ [newline] @ nonce"

definition RevokeCanonical :: "string \<Rightarrow> string list \<Rightarrow> int \<Rightarrow> string \<Rightarrow> bytes" where
  "RevokeCanonical name chunks timestamp nonce = bytes_of_string (canonical_text name chunks timestamp nonce)"

definition revokeID :: "prims \<Rightarrow> RevokePayload \<Rightarrow> string" where
  "revokeID c p =
     hex_encode (sha256 c (RevokeCanonical (rv_Name p) (rv_Chunks p) (rv_Timestamp p) (rv_Nonce p)))"

datatype sign_error = ErrNilIdentity | ErrNameRequired | ErrNonce

text \<open>\<open>nonce\<close> is what the random source gives, \<open>now\<close> the Unix time in seconds.\<close>

definition SignRevoke ::
  "prims \<Rightarrow> int \<Rightarrow> bytes option \<Rightarrow> Identity option \<Rightarrow> string \<Rightarrow> string list \<Rightarrow> sign_error + RevokePayload" where
  "SignRevoke c now nonce ident name chunks =
     (case ident of
        None \<Rightarrow> Inl ErrNilIdentity
      | Some i \<Rightarrow>
          if TrimSpace name = [] then Inl ErrNameRequired
          else case nonce of
                 None \<Rightarrow> Inl ErrNonce
               | Some nb \<Rightarrow>
                   let n = hex_encode nb;
                       sig = Sign c i (RevokeCanonical name chunks now n)
                   in Inr \<lparr>rv_Name = ToLower (TrimSpace name), rv_Chunks = sort (map norm_chunk chunks),
                           rv_Timestamp = now, rv_Nonce = n, rv_PublicKey = PublicKeyToHex (PublicKey i),
                           rv_Signature = sig\<rparr>)"

subsection \<open>Trusted revokers\<close>

type_synonym TrustedRevokers = "string fset"

definition NewTrustedRevokers :: TrustedRevokers where
  "NewTrustedRevokers = {||}"

definition Trusted_Add :: "TrustedRevokers option \<Rightarrow> string \<Rightarrow> TrustedRevokers option \<times> bool" where
  "Trusted_Add t hexKey0 =
     (case t of
        None \<Rightarrow> (None, False)
      | Some keys \<Rightarrow>
          let hexKey = ToLower (TrimSpace hexKey0)
          in case PublicKeyFromHex hexKey of
               None \<Rightarrow> (Some keys, False)
             | Some _ \<Rightarrow>
                 if hexKey |\<in>| keys then (Some keys, False)
                 else (Some (finsert hexKey keys), True))"

definition Trusted_Contains :: "TrustedRevokers option \<Rightarrow> string \<Rightarrow> bool" where
  "Trusted_Contains t hexKey =
     (case t of None \<Rightarrow> False | Some keys \<Rightarrow> ToLower (TrimSpace hexKey) |\<in>| keys)"

definition Trusted_Size :: "TrustedRevokers option \<Rightarrow> nat" where
  "Trusted_Size t = (case t of None \<Rightarrow> 0 | Some keys \<Rightarrow> fcard keys)"

section \<open>The canonical text\<close>

lemma norm_chunk_idem [simp]: "norm_chunk (norm_chunk s) = norm_chunk s"
  by (simp add: norm_chunk_def TrimSpace_ToLower)

lemma sort_mset_eq: "mset xs = mset ys \<Longrightarrow> sort xs = sort ys"
  by (rule properties_for_sort) simp_all

lemma canonical_text_norm:
  assumes "mset (map norm_chunk cs) = mset (map norm_chunk ds)" "ToLower (TrimSpace n) = ToLower (TrimSpace m)"
  shows "canonical_text n cs t k = canonical_text m ds t k"
  unfolding canonical_text_def sort_mset_eq [OF assms(1)] assms(2) ..

lemma RevokeCanonical_signed:
  "RevokeCanonical (ToLower (TrimSpace name)) (sort (map norm_chunk chunks)) ts n = RevokeCanonical name chunks ts n"
proof -
  have "mset (map norm_chunk (sort (map norm_chunk chunks))) = mset (map norm_chunk chunks)"
    by (simp add: image_mset.compositionality comp_def)
  then show ?thesis
    unfolding RevokeCanonical_def by (subst canonical_text_norm) (simp_all add: TrimSpace_ToLower)
qed

lemma no_newline_dec_int: "newline \<notin> set (dec_int i)"
  using dec_int_chars [of newline i] by auto

lemma set_TrimSpace: "set (TrimSpace s) \<subseteq> set s"
  unfolding TrimSpace_def trim_left_def trim_right_def by (auto dest!: set_dropWhileD)

lemma no_newline_norm: "newline \<notin> set s \<Longrightarrow> newline \<notin> set (ToLower (TrimSpace s))"
proof
  assume s: "newline \<notin> set s" and "newline \<in> set (ToLower (TrimSpace s))"
  then obtain c where c: "c \<in> set s" "lower_char c = newline"
    using set_TrimSpace by (fastforce simp: ToLower_def)
  then have "c = newline"
    by (cases "65 \<le> (of_char c :: nat) \<and> (of_char c :: nat) \<le> 90")
       (auto simp: lower_char_def Let_def char_eq_iff split: if_splits)
  with c s show False by simp
qed

text \<open>The lines of the canonical text.\<close>

definition canonical_lines :: "string \<Rightarrow> string list \<Rightarrow> int \<Rightarrow> string \<Rightarrow> string list" where
  "canonical_lines name chunks ts nonce =
     [''revoke'', ToLower (TrimSpace name)]
     @ (if chunks = [] then [[]] else sort (map norm_chunk chunks)) @ [dec_int ts, nonce]"

lemma Join_append: "xs \<noteq> [] \<Longrightarrow> ys \<noteq> [] \<Longrightarrow> Join (xs @ ys) sep = Join xs sep @ sep @ Join ys sep"
proof (induction xs)
  case (Cons x xs)
  then show ?case by (cases "xs = []") (auto simp: Join_Cons)
qed simp

lemma canonical_text_lines: "canonical_text n cs t k = Join (canonical_lines n cs t k) [newline]"
proof -
  let ?m = "if cs = [] then [[]] else sort (map norm_chunk cs)"
  have ne: "?m \<noteq> []" by (metis length_0_conv length_map length_sort list.distinct(1))
  have m: "Join ?m [newline] = Join (sort (map norm_chunk cs)) [newline]" by simp
  show ?thesis unfolding canonical_lines_def
    using ne by (simp add: Join_append Join_Cons m canonical_text_def)
qed

lemma canonical_lines_Split:
  assumes "newline \<notin> set n" "\<forall>s\<in>set cs. newline \<notin> set s" "newline \<notin> set k"
  shows "Split (canonical_text n cs t k) newline = canonical_lines n cs t k"
proof -
  have "\<forall>w\<in>set (canonical_lines n cs t k). newline \<notin> set w"
    using assms no_newline_norm no_newline_dec_int by (auto simp: canonical_lines_def norm_chunk_def)
  moreover have "canonical_lines n cs t k \<noteq> []" by (simp add: canonical_lines_def)
  ultimately show ?thesis unfolding canonical_text_lines by (simp add: Split_Join)
qed

lemma SignRevoke_Verify:
  assumes "prims_ok c" "identity_ok c i" "SignRevoke c now nonce (Some i) name chunks = Inr p"
  shows "PublicKeyFromHex (rv_PublicKey p) = Some (PublicKey i)"
    and "Verify c (PublicKey i) (RevokeCanonical (rv_Name p) (rv_Chunks p) (rv_Timestamp p) (rv_Nonce p)) (rv_Signature p)"
    and "rv_Timestamp p = now" and "rv_Name p = ToLower (TrimSpace name)" and "rv_Chunks p = sort (map norm_chunk chunks)"
    and "rv_PublicKey p = PublicKeyToHex (PublicKey i)"
  using assms(3) PublicKeyFromHex_ToHex [OF PublicKey_length [OF assms(1,2)]] Sign_Verify [OF assms(1,2)]
  by (auto simp: SignRevoke_def RevokeCanonical_signed Let_def split: if_splits option.splits)

definition revoke_ok :: "RevokePayload \<Rightarrow> bool" where
  "revoke_ok p \<longleftrightarrow> utf8 (rv_Name p) \<and> list_all utf8 (rv_Chunks p) \<and> int64 (rv_Timestamp p) \<and> utf8 (rv_Nonce p)
     \<and> utf8 (rv_PublicKey p) \<and> utf8 (rv_Signature p)"

lemma dec_enc_Revoke:
  assumes "revoke_ok p"
  shows "Unmarshal dec_Revoke (print_json (enc_Revoke p)) zero_Revoke = Some p"
proof -
  have key: "to_valid k = k" if "k \<in> {''name'', ''chunks'', ''timestamp'', ''nonce'', ''pubkey'', ''signature''}" for k
    using that by (auto intro!: to_valid_ascii simp: ascii_def)
  have "wire_ok (enc_Revoke p)"
    using assms by (simp add: wire_ok_def enc_Revoke_def key revoke_ok_def comp_def map_utf8 maxNestingDepth_def list_all_iff)
  moreover have "dec_Revoke (enc_Revoke p) zero_Revoke = Some p" using assms
    by (simp add: dec_Revoke_def dec_struct_def enc_Revoke_def find_field_def field_def dec_string_def
        dec_slice_def dec_elems_strings zero_Revoke_def revoke_ok_def)
  ultimately show ?thesis by (simp add: Unmarshal_wire)
qed

lemma Trusted_Contains_Add:
  "Trusted_Contains (fst (Trusted_Add (Some keys) k)) h \<longleftrightarrow>
     Trusted_Contains (Some keys) h \<or> PublicKeyFromHex (TrimSpace k) \<noteq> None \<and> ToLower (TrimSpace h) = ToLower (TrimSpace k)"
  by (auto simp: Trusted_Contains_def Trusted_Add_def Let_def split: option.splits)

section \<open>Properties\<close>

text \<open>
  The signed text identifies the revoke. For names, chunks and nonces without a line feed, and
  chunks that are not blank, two revokes have the same canonical bytes exactly when they agree on the
  name and the chunks up to case, surrounding space and order, on the timestamp and on the nonce.
  With a line feed in the name this fails: the text of a name and two chunks is also that of a
  longer name and one chunk.
\<close>

theorem RevokeCanonical_injective:
  assumes "newline \<notin> set n" and "newline \<notin> set m" and "newline \<notin> set k" and "newline \<notin> set l"
    and "\<forall>s\<in>set cs \<union> set ds. newline \<notin> set s \<and> norm_chunk s \<noteq> []"
  shows "(RevokeCanonical n cs t k = RevokeCanonical m ds u l \<longleftrightarrow>
      ToLower (TrimSpace n) = ToLower (TrimSpace m) \<and> mset (map norm_chunk cs) = mset (map norm_chunk ds) \<and> t = u \<and> k = l)
    \<and> RevokeCanonical ''a'' [''b'', ''c''] t k = RevokeCanonical (''a'' @ newline # ''b'') [''c''] t k"
proof -
  let ?mid = "\<lambda>cs. if cs = [] then [[]] else sort (map norm_chunk cs)"
  have "?mid cs = ?mid ds \<Longrightarrow> mset (map norm_chunk cs) = mset (map norm_chunk ds)"
  proof -
    assume e: "?mid cs = ?mid ds"
    have ne: "[] \<notin> set (sort (map norm_chunk xs))" if "set xs \<subseteq> set cs \<union> set ds" for xs
    proof
      assume "[] \<in> set (sort (map norm_chunk xs))"
      then obtain x where "x \<in> set xs" "norm_chunk x = []" by force
      with assms(5) that show False by blast
    qed
    have "sort (map norm_chunk cs) = sort (map norm_chunk ds)"
    proof (cases "cs = [] \<longleftrightarrow> ds = []")
      case True
      with e show ?thesis by (auto split: if_splits)
    next
      case False
      then have "[[]] = sort (map norm_chunk ds) \<or> sort (map norm_chunk cs) = [[]]" using e by presburger
      then show ?thesis using ne [of cs] ne [of ds] by (metis Un_upper1 Un_upper2 list.set_intros(1))
    qed
    then show ?thesis by (metis mset_sort)
  qed
  then have "t = u \<and> k = l \<and> ToLower (TrimSpace n) = ToLower (TrimSpace m) \<and> mset (map norm_chunk cs) = mset (map norm_chunk ds)"
    if "canonical_lines n cs t k = canonical_lines m ds u l"
    using that by (auto simp: canonical_lines_def dest: dec_int_inj)
  moreover have "canonical_lines n cs t k = canonical_lines m ds u l"
    if "RevokeCanonical n cs t k = RevokeCanonical m ds u l"
    using that canonical_lines_Split [of n cs k t] canonical_lines_Split [of m ds l u] assms
    by (simp add: RevokeCanonical_def)
  moreover have "RevokeCanonical n cs t k = RevokeCanonical m ds t k"
    if "ToLower (TrimSpace n) = ToLower (TrimSpace m)" "mset (map norm_chunk cs) = mset (map norm_chunk ds)"
    using canonical_text_norm [OF that(2,1)] by (simp add: RevokeCanonical_def)
  moreover have "RevokeCanonical ''a'' [''b'', ''c''] t k = RevokeCanonical (''a'' @ newline # ''b'') [''c''] t k"
  proof -
    have "norm_chunk ''b'' = ''b''" "norm_chunk ''c'' = ''c''" "ToLower (TrimSpace ''a'') = ''a''"
      "ToLower (TrimSpace (''a'' @ newline # ''b'')) = ''a'' @ newline # ''b''" "sort [''b'', ''c''] = [''b'', ''c'']"
      by code_simp+
    then show ?thesis by (simp add: RevokeCanonical_def canonical_text_def)
  qed
  ultimately show ?thesis by blast
qed

theorem RevokeCanonical_injective_witness:
  "RevokeCanonical ''a'' [''b''] 5 ''n'' \<noteq> RevokeCanonical ''a'' [''c''] 5 ''n''"
proof -
  have "norm_chunk ''b'' = ''b''" "norm_chunk ''c'' = ''c''" by code_simp+
  then show ?thesis
    using RevokeCanonical_injective [of "''a''" "''a''" "''n''" "''n''" "[''b'']" "[''c'']" 5 5] by simp
qed

end
