(* ===== verification/Dht.thy ===== *)
theory Dht
  imports Routing Local_Store Revocation
begin

text \<open>
  \<^verbatim>\<open>core/dht/dht.go\<close> and the handlers of \<^verbatim>\<open>core/dht/revoke.go\<close>: the state of the DHT node and
  everything it does on its own, that is, what an incoming message makes it do.

  A handler is a function of the state; what it sends through the peer layer is a list of effects.
  The clock, the enumeration order of Go's maps and the outcome of the file write are the arguments
  collected in \<open>henv\<close>; one handler reads the clock once. \<open>None\<close> is a Go panic. The goroutines
  that an update of the routing table starts wait in \<open>d_evict\<close>.
\<close>

section \<open>Definitions\<close>

definition Alpha :: nat where
  "Alpha = 3"

record DHT =
  d_self :: NodeID
  d_rt :: RoutingTable
  d_store :: localStore
  d_blocklist :: "Blocklist option"
  d_trusted :: "TrustedRevokers option"
  d_seen :: "(string, time) fmap"
  d_evict :: "evict_task list"

record henv =
  h_prims :: prims
  h_now :: time
  h_keys :: "string list"
  h_fault :: "fs_fault option"

datatype effect =
    Reply string Message Message
  | Broadcast Message
  | AddPeerAddress string string

definition second :: int where
  "second = 1000000000"

definition Unix :: "time \<Rightarrow> int" where
  "Unix t = t div second"

definition SetBlocklist :: "DHT \<Rightarrow> Blocklist option \<Rightarrow> DHT" where
  "SetBlocklist d bl = d\<lparr>d_blocklist := bl\<rparr>"

definition IsBlocked :: "DHT \<Rightarrow> NodeID \<Rightarrow> bool" where
  "IsBlocked d key \<longleftrightarrow> d_blocklist d \<noteq> None \<and> Blocklist_Contains (d_blocklist d) key"

definition SetTrustedRevokers :: "DHT \<Rightarrow> TrustedRevokers option \<Rightarrow> DHT" where
  "SetTrustedRevokers d t = d\<lparr>d_trusted := t\<rparr>"

datatype dht_error = ErrSelfID | ErrOpenStore store_error

text \<open>\<open>opened\<close> is the result of opening the store, \<open>selfhex\<close> the identifier of the peer.\<close>

definition NewWithFullLimit :: "string \<Rightarrow> store_error + localStore \<Rightarrow> int \<Rightarrow> dht_error + DHT" where
  "NewWithFullLimit selfhex opened limit =
     (case IDFromHex selfhex of
        Inl _ \<Rightarrow> Inl ErrSelfID
      | Inr selfID \<Rightarrow>
          (case opened of
             Inl e \<Rightarrow> Inl (ErrOpenStore e)
           | Inr s \<Rightarrow>
               Inr \<lparr>d_self = selfID, d_rt = SetEvictionPing (NewRoutingTable selfID) True,
                    d_store = SetPerPeerMax s limit, d_blocklist = None, d_trusted = None,
                    d_seen = fmempty, d_evict = []\<rparr>))"

definition NewWithLimit :: "string \<Rightarrow> store_error + localStore \<Rightarrow> dht_error + DHT" where
  "NewWithLimit selfhex opened = NewWithFullLimit selfhex opened DefaultPerPeerBudgetBytes"

definition LocalStoreSize :: "DHT \<Rightarrow> nat" where
  "LocalStoreSize d = store_Size (d_store d)"

definition LocalStoreBytes :: "DHT \<Rightarrow> int" where
  "LocalStoreBytes d = TotalBytes (d_store d)"

definition LocalStoreBudget :: "DHT \<Rightarrow> int" where
  "LocalStoreBudget d = maxBytes (d_store d)"

text \<open>An update of the table, with the goroutine it may start.\<close>

definition rt_Update :: "time \<Rightarrow> DHT \<Rightarrow> Contact \<Rightarrow> DHT" where
  "rt_Update now d c =
     (case Update (d_rt d) now c of
        (t, task) \<Rightarrow> d\<lparr>d_rt := t, d_evict := (case task of None \<Rightarrow> d_evict d | Some x \<Rightarrow> x # d_evict d)\<rparr>)"

subsection \<open>Payloads\<close>

record wireContact =
  wc_ID :: string
  wc_Address :: string
  wc_Alt :: "string list"

definition zero_wireContact :: wireContact where
  "zero_wireContact = \<lparr>wc_ID = [], wc_Address = [], wc_Alt = []\<rparr>"

definition enc_wireContact :: "wireContact \<Rightarrow> json" where
  "enc_wireContact w = JObj ([(''id'', JStr (wc_ID w)), (''address'', JStr (wc_Address w))]
     @ omit (wc_Alt w = []) ''alt'' (JArr (map JStr (wc_Alt w))))"

definition dec_wireContact :: "wireContact field_dec" where
  "dec_wireContact = dec_struct
     [(''id'', field dec_string wc_ID wc_ID_update),
      (''address'', field dec_string wc_Address wc_Address_update),
      (''alt'', field (dec_slice dec_string []) wc_Alt wc_Alt_update)]"

text \<open>The structs with one field are that field.\<close>

definition enc_nodesPayload :: "wireContact list \<Rightarrow> json" where
  "enc_nodesPayload ws = JObj [(''contacts'', JArr (map enc_wireContact ws))]"

definition dec_nodesPayload :: "wireContact list field_dec" where
  "dec_nodesPayload = dec_struct [(''contacts'', dec_slice dec_wireContact zero_wireContact)]"

definition enc_findNodePayload :: "string \<Rightarrow> json" where
  "enc_findNodePayload target = JObj [(''target'', JStr target)]"

definition dec_findNodePayload :: "string field_dec" where
  "dec_findNodePayload = dec_struct [(''target'', dec_string)]"

record storePayload =
  sp_Key :: string
  sp_Value :: string

definition enc_storePayload :: "storePayload \<Rightarrow> json" where
  "enc_storePayload p = JObj [(''key'', JStr (sp_Key p)), (''value'', JStr (sp_Value p))]"

definition dec_storePayload :: "storePayload field_dec" where
  "dec_storePayload = dec_struct
     [(''key'', field dec_string sp_Key sp_Key_update), (''value'', field dec_string sp_Value sp_Value_update)]"

definition zero_storePayload :: storePayload where
  "zero_storePayload = \<lparr>sp_Key = [], sp_Value = []\<rparr>"

definition enc_findValuePayload :: "string \<Rightarrow> json" where
  "enc_findValuePayload key = JObj [(''key'', JStr key)]"

definition dec_findValuePayload :: "string field_dec" where
  "dec_findValuePayload = dec_struct [(''key'', dec_string)]"

definition enc_valuePayload :: "string \<Rightarrow> json" where
  "enc_valuePayload v = JObj [(''value'', JStr v)]"

definition dec_valuePayload :: "string field_dec" where
  "dec_valuePayload = dec_struct [(''value'', dec_string)]"

definition mk_message :: "string \<Rightarrow> string \<Rightarrow> Message" where
  "mk_message ty body = zero_Message\<lparr>m_Type := ty, m_Payload := body\<rparr>"

subsection \<open>Handlers\<close>

type_synonym handled = "(DHT \<times> effect list) option"

definition sender_id :: "prims \<Rightarrow> Message \<Rightarrow> (string \<times> NodeID) option" where
  "sender_id c msg =
     (case PublicKeyFromHex (m_PublicKey msg) of
        None \<Rightarrow> None
      | Some pub \<Rightarrow>
          (case IDFromHex (PublicKeyToID c pub) of
             Inl _ \<Rightarrow> None
           | Inr i \<Rightarrow> Some (PublicKeyToID c pub, i)))"

definition observeGoodbye :: "prims \<Rightarrow> DHT \<Rightarrow> Message \<Rightarrow> handled" where
  "observeGoodbye c d msg =
     (case sender_id c msg of
        None \<Rightarrow> Some (d, [])
      | Some (_, i) \<Rightarrow> map_option (\<lambda>t. (d\<lparr>d_rt := t\<rparr>, [])) (Remove (d_rt d) i))"

definition decodeAddressesPayload :: "string \<Rightarrow> string list" where
  "decodeAddressesPayload payload =
     (if payload = [] then []
      else filter (\<lambda>p. p \<noteq> []) (map TrimSpace (Split payload (CHR '',''))))"

definition observeHello :: "henv \<Rightarrow> DHT \<Rightarrow> string \<Rightarrow> Message \<Rightarrow> handled" where
  "observeHello h d addr msg =
     (case sender_id (h_prims h) msg of
        None \<Rightarrow> Some (d, [])
      | Some (hexid, i) \<Rightarrow>
          let addrs = decodeAddressesPayload (m_Payload msg);
              addrs = (if addrs = [] then [addr] else addrs);
              contact = \<lparr>ID = i, Address = hd addrs, AltAddresses = tl addrs, LastSeen = 0\<rparr>
          in Some (rt_Update (h_now h) d contact, map (AddPeerAddress hexid) addrs))"

definition handlePing :: "DHT \<Rightarrow> string \<Rightarrow> Message \<Rightarrow> handled" where
  "handlePing d addr msg = Some (d, [Reply addr msg (mk_message ''dht_pong'' [])])"

definition wire_full :: "Contact \<Rightarrow> wireContact" where
  "wire_full c = \<lparr>wc_ID = Hex (ID c), wc_Address = Address c, wc_Alt = AltAddresses c\<rparr>"

definition wire_short :: "Contact \<Rightarrow> wireContact" where
  "wire_short c = \<lparr>wc_ID = Hex (ID c), wc_Address = Address c, wc_Alt = []\<rparr>"

definition nodes_reply :: "wireContact list \<Rightarrow> Message" where
  "nodes_reply ws = mk_message ''dht_nodes'' (print_json (enc_nodesPayload ws))"

definition handleFindNode :: "DHT \<Rightarrow> string \<Rightarrow> Message \<Rightarrow> handled" where
  "handleFindNode d addr msg =
     (case Unmarshal dec_findNodePayload (m_Payload msg) [] of
        None \<Rightarrow> Some (d, [])
      | Some t \<Rightarrow>
          (case IDFromHex t of
             Inl _ \<Rightarrow> Some (d, [])
           | Inr target \<Rightarrow>
               Some (d, [Reply addr msg (nodes_reply (map wire_full (Closest (d_rt d) target K)))])))"

definition handleStore :: "henv \<Rightarrow> DHT \<Rightarrow> string \<Rightarrow> Message \<Rightarrow> handled" where
  "handleStore h d addr msg =
     (case Unmarshal dec_storePayload (m_Payload msg) zero_storePayload of
        None \<Rightarrow> Some (d, [])
      | Some sp \<Rightarrow>
          (case IDFromHex (sp_Key sp) of
             Inl _ \<Rightarrow> Some (d, [])
           | Inr key \<Rightarrow>
               (case b64_decode True (sp_Value sp) of
                  None \<Rightarrow> Some (d, [])
                | Some value \<Rightarrow>
                    if length value > MaxValueSize then Some (d, [])
                    else if IsBlocked d key then Some (d, [Reply addr msg (mk_message ''dht_stored'' [])])
                    else case PutAttributed (h_keys h) (h_fault h) (h_now h) (d_store d) key value (m_From msg) of
                           (s, ok) \<Rightarrow>
                             if \<not> ok then Some (d\<lparr>d_store := s\<rparr>, [])
                             else Some (d\<lparr>d_store := s\<rparr>, [Reply addr msg (mk_message ''dht_stored'' [])]))))"

definition handleFindValue :: "henv \<Rightarrow> DHT \<Rightarrow> string \<Rightarrow> Message \<Rightarrow> handled" where
  "handleFindValue h d addr msg =
     (case Unmarshal dec_findValuePayload (m_Payload msg) [] of
        None \<Rightarrow> Some (d, [])
      | Some k \<Rightarrow>
          (case IDFromHex k of
             Inl _ \<Rightarrow> Some (d, [])
           | Inr key \<Rightarrow>
               if IsBlocked d key then
                 Some (d, [Reply addr msg (nodes_reply (map wire_short (Closest (d_rt d) key K)))])
               else case store_Get (h_now h) (d_store d) key of
                      (s, Some value) \<Rightarrow>
                        Some (d\<lparr>d_store := s\<rparr>,
                          [Reply addr msg (mk_message ''dht_value'' (print_json (enc_valuePayload (b64_encode True value))))])
                    | (s, None) \<Rightarrow>
                        Some (d\<lparr>d_store := s\<rparr>,
                          [Reply addr msg (nodes_reply (map wire_short (Closest (d_rt d) key K)))])))"

subsection \<open>Revokes\<close>

definition revoke_chunk :: "DHT \<Rightarrow> string \<Rightarrow> DHT" where
  "revoke_chunk d hexHash =
     (case IDFromHex hexHash of
        Inl _ \<Rightarrow> d
      | Inr i \<Rightarrow> d\<lparr>d_blocklist := fst (Blocklist_Add (d_blocklist d) i), d_store := store_Delete (d_store d) i\<rparr>)"

definition applyRevoke :: "DHT \<Rightarrow> RevokePayload \<Rightarrow> DHT" where
  "applyRevoke d p =
     (let d1 = (if d_blocklist d = None then d\<lparr>d_blocklist := Some NewBlocklist\<rparr> else d)
      in foldl revoke_chunk d1 (rv_Chunks p))"

text \<open>The replay memory after one more revoke: entries older than two days go once it is large.\<close>

definition remember :: "time \<Rightarrow> (string, time) fmap \<Rightarrow> string \<Rightarrow> (string, time) fmap" where
  "remember now seen rid =
     (let seen1 = fmupd rid now seen;
          cutoff = now - 2 * MaxRevokeAge * second
      in if fcard (fmdom seen1) > 1024 then fmfilter (\<lambda>k. \<not> fmget0 seen1 k < cutoff) seen1 else seen1)"

definition revoke_acceptable :: "prims \<Rightarrow> int \<Rightarrow> TrustedRevokers option \<Rightarrow> RevokePayload \<Rightarrow> bool" where
  "revoke_acceptable c now_unix trusted rp \<longleftrightarrow>
     Trusted_Contains trusted (rv_PublicKey rp)
     \<and> \<not> rv_Timestamp rp < now_unix - MaxRevokeAge
     \<and> \<not> rv_Timestamp rp > now_unix + MaxRevokeFutureSkew
     \<and> (case PublicKeyFromHex (rv_PublicKey rp) of
          None \<Rightarrow> False
        | Some pub \<Rightarrow>
            Verify c pub (RevokeCanonical (rv_Name rp) (rv_Chunks rp) (rv_Timestamp rp) (rv_Nonce rp)) (rv_Signature rp))"

definition handleRevoke :: "henv \<Rightarrow> DHT \<Rightarrow> string \<Rightarrow> Message \<Rightarrow> handled" where
  "handleRevoke h d addr msg =
     (if d_trusted d = None \<or> Trusted_Size (d_trusted d) = 0 then Some (d, [])
      else case Unmarshal dec_Revoke (m_Payload msg) zero_Revoke of
             None \<Rightarrow> Some (d, [])
           | Some rp \<Rightarrow>
               if \<not> revoke_acceptable (h_prims h) (Unix (h_now h)) (d_trusted d) rp then Some (d, [])
               else
                 let rid = revokeID (h_prims h) rp
                 in if fmlookup (d_seen d) rid \<noteq> None then Some (d, [])
                    else
                      let d1 = d\<lparr>d_seen := remember (h_now h) (d_seen d) rid\<rparr>
                      in Some (applyRevoke d1 rp, [Broadcast msg]))"

definition BroadcastRevoke :: "DHT \<Rightarrow> RevokePayload option \<Rightarrow> DHT \<times> effect list" where
  "BroadcastRevoke d p =
     (case p of
        None \<Rightarrow> (d, [])
      | Some rp \<Rightarrow> (applyRevoke d rp, [Broadcast (mk_message ''dht_revoke'' (print_json (enc_Revoke rp)))]))"

definition HandleMessage :: "henv \<Rightarrow> DHT \<Rightarrow> string \<Rightarrow> Message \<Rightarrow> handled" where
  "HandleMessage h d addr msg =
     (if m_Type msg = ''hello'' then observeHello h d addr msg
      else if m_Type msg = ''goodbye'' then observeGoodbye (h_prims h) d msg
      else if m_Type msg = ''dht_ping'' then handlePing d addr msg
      else if m_Type msg = ''dht_find_node'' then handleFindNode d addr msg
      else if m_Type msg = ''dht_store'' then handleStore h d addr msg
      else if m_Type msg = ''dht_find_value'' then handleFindValue h d addr msg
      else if m_Type msg = ''dht_revoke'' then handleRevoke h d addr msg
      else Some (d, []))"

datatype local_error = ErrValueTooLarge

definition StoreLocal :: "henv \<Rightarrow> DHT \<Rightarrow> NodeID \<Rightarrow> bytes \<Rightarrow> local_error + DHT" where
  "StoreLocal h d key value =
     (if length value > MaxValueSize then Inl ErrValueTooLarge
      else if IsBlocked d key then Inr d
      else Inr (d\<lparr>d_store := store_Put (h_keys h) (h_fault h) (h_now h) (d_store d) key value\<rparr>))"

text \<open>One thing the node does, and a run of such things.\<close>

datatype event =
    Incoming henv string Message
  | LocalStore henv NodeID bytes
  | LocalRevoke RevokePayload
  | EvictionDone henv evict_task "bool option"

fun dht_event :: "DHT option \<Rightarrow> event \<Rightarrow> DHT option" where
  "dht_event None e = None"
| "dht_event (Some d) (Incoming h addr msg) = map_option fst (HandleMessage h d addr msg)"
| "dht_event (Some d) (LocalStore h key value) =
     (case StoreLocal h d key value of Inl _ \<Rightarrow> Some d | Inr d' \<Rightarrow> Some d')"
| "dht_event (Some d) (LocalRevoke rp) = Some (fst (BroadcastRevoke d (Some rp)))"
| "dht_event (Some d) (EvictionDone h (idx, head, cand) ping) =
     (if (idx, head, cand) \<in> set (d_evict d)
      then Some (d\<lparr>d_rt := maybeEvictHead (d_rt d) (h_now h) ping idx head cand,
                   d_evict := remove1 (idx, head, cand) (d_evict d)\<rparr>)
      else Some d)"

section \<open>What an operation may do to the state\<close>

text \<open>
  Every operation of the node, whatever it exchanges with the network, changes the state by one of
  a few primitive changes. A value enters the store only when its key is not blocked and it is not
  too large.
\<close>

inductive dht_change :: "DHT \<Rightarrow> DHT \<Rightarrow> bool" where
  ch_same: "dht_change d d"
| ch_update: "dht_change d (rt_Update now d c)"
| ch_hint: "dht_change d (d\<lparr>d_rt := Hint (d_rt d) c\<rparr>)"
| ch_remove: "Remove (d_rt d) i = Some t \<Longrightarrow> dht_change d (d\<lparr>d_rt := t\<rparr>)"
| ch_evict: "(idx, head, cand) \<in> set (d_evict d) \<Longrightarrow>
    dht_change d (d\<lparr>d_rt := maybeEvictHead (d_rt d) now ping idx head cand,
                    d_evict := remove1 (idx, head, cand) (d_evict d)\<rparr>)"
| ch_put: "length value \<le> MaxValueSize \<Longrightarrow> \<not> IsBlocked d key \<Longrightarrow>
    dht_change d (d\<lparr>d_store := fst (put ks fault now (d_store d) key value from)\<rparr>)"
| ch_get: "dht_change d (d\<lparr>d_store := fst (store_Get now (d_store d) key)\<rparr>)"
| ch_seen: "dht_change d (d\<lparr>d_seen := seen\<rparr>)"
| ch_block: "dht_change d (d\<lparr>d_blocklist := Some NewBlocklist\<rparr>)" if "d_blocklist d = None"
| ch_revoke: "dht_change d (revoke_chunk d hexHash)"

abbreviation dht_changes :: "DHT \<Rightarrow> DHT \<Rightarrow> bool" where
  "dht_changes \<equiv> dht_change\<^sup>*\<^sup>*"

definition dht_inv :: "NodeID \<Rightarrow> DHT \<Rightarrow> bool" where
  "dht_inv s d \<longleftrightarrow> d_self d = s \<and> rt_state_inv s (d_rt d, d_evict d) \<and> store_inv (d_store d)
     \<and> store.all_stored (\<lambda>k v. length v \<le> MaxValueSize) (d_store d)"

definition purged :: "NodeID \<Rightarrow> DHT \<Rightarrow> bool" where
  "purged k d \<longleftrightarrow> IsBlocked d k \<and> store_find (d_store d) k = None"

lemma store_find_Get [simp]: "store_find (fst (store_Get now s key)) = store_find s"
  by (simp add: store_find_def fun_eq_iff)

lemma IsBlocked_simps [simp]:
  "IsBlocked (d\<lparr>d_rt := t\<rparr>) k = IsBlocked d k" "IsBlocked (d\<lparr>d_store := s\<rparr>) k = IsBlocked d k"
  "IsBlocked (d\<lparr>d_seen := n\<rparr>) k = IsBlocked d k" "IsBlocked (d\<lparr>d_evict := e\<rparr>) k = IsBlocked d k"
  "IsBlocked (rt_Update now d c) k = IsBlocked d k"
  by (simp_all add: IsBlocked_def rt_Update_def split: prod.split)

lemma rt_Update_simps [simp]:
  "d_self (rt_Update now d c) = d_self d" "d_store (rt_Update now d c) = d_store d"
  "d_blocklist (rt_Update now d c) = d_blocklist d" "d_trusted (rt_Update now d c) = d_trusted d"
  "d_seen (rt_Update now d c) = d_seen d" "d_rt (rt_Update now d c) = fst (Update (d_rt d) now c)"
  by (simp_all add: rt_Update_def split: prod.split)

lemma rt_Update_step: "rt_step (d_rt d, d_evict d) (d_rt (rt_Update now d c), d_evict (rt_Update now d c))"
  by (auto simp: rt_Update_def split: prod.split intro: step_update)

lemma revoke_chunk_simps [simp]:
  "d_self (revoke_chunk d x) = d_self d" "d_rt (revoke_chunk d x) = d_rt d"
  "d_evict (revoke_chunk d x) = d_evict d" "d_seen (revoke_chunk d x) = d_seen d"
  "d_trusted (revoke_chunk d x) = d_trusted d" "d_blocklist (revoke_chunk d x) = None \<longleftrightarrow> d_blocklist d = None"
  by (simp_all add: revoke_chunk_def split: sum.split)

lemma all_stored_put' [wf_intros]:
  "store.all_stored P s \<Longrightarrow> P k v \<Longrightarrow> store.all_stored P (fst (put ks f now s k v p))"
  using store.all_stored_put [of P s k v "(ks, f, now, p)"] by simp

lemma all_stored_Delete [wf_intros]: "store.all_stored P s \<Longrightarrow> store.all_stored P (store_Delete s k)"
  using store.all_stored_delete [of P s k] by (simp add: store.all_stored_def)

lemma all_stored_Get [wf_intros]: "store.all_stored P s \<Longrightarrow> store.all_stored P (fst (store_Get now s k))"
  by (simp add: store.all_stored_def)

lemma dht_change_inv: "dht_change d d' \<Longrightarrow> dht_inv s d \<Longrightarrow> dht_inv s d'"
proof (induction rule: dht_change.induct)
  case (ch_update d now c)
  then show ?case using rt_step_inv [OF _ rt_Update_step] by (auto simp: dht_inv_def)
next
  case (ch_hint d c)
  then show ?case using rt_step_inv [OF _ step_hint] by (auto simp: dht_inv_def)
next
  case (ch_remove d i t)
  then show ?case using rt_step_inv [OF _ step_remove] by (auto simp: dht_inv_def)
next
  case (ch_evict idx head cand d now ping)
  then show ?case using rt_step_inv [OF _ step_evict] by (auto simp: dht_inv_def)
next
  case (ch_revoke d x)
  then show ?case by (auto simp: dht_inv_def revoke_chunk_def split: sum.split intro: wf_intros)
qed (auto simp: dht_inv_def intro: wf_intros)

lemma purged_all_stored: "purged k d \<longleftrightarrow> IsBlocked d k \<and> store.all_stored (\<lambda>j v. j \<noteq> k) (d_store d)"
  by (auto simp: purged_def store.all_stored_def)

lemma IsBlocked_revoke_chunk: "IsBlocked (revoke_chunk d x) k \<longleftrightarrow> IsBlocked d k \<or> (d_blocklist d \<noteq> None \<and> IDFromHex x = Inr k)"
  by (cases "d_blocklist d = None")
     (auto simp: revoke_chunk_def IsBlocked_def Blocklist_Contains_Add simp del: not_None_eq split: sum.split)

lemma dht_change_purged: "dht_change d d' \<Longrightarrow> purged k d \<Longrightarrow> purged k d'"
proof (induction rule: dht_change.induct)
  case (ch_revoke d x)
  then show ?case unfolding purged_all_stored IsBlocked_revoke_chunk
    by (auto simp: revoke_chunk_def split: sum.split intro: wf_intros)
next
  case (ch_put v d key ks fault now p)
  then have "key \<noteq> k" by (auto simp: purged_def)
  with ch_put show ?case by (auto simp: purged_all_stored intro: wf_intros)
qed (auto simp: purged_all_stored IsBlocked_def intro: wf_intros)

interpretation dht_runs: step_invariant dht_change "dht_inv s" for s
  by unfold_locales (rule dht_change_inv)

interpretation purged_runs: step_invariant dht_change "purged k" for k
  by unfold_locales (rule dht_change_purged)

lemma dht_changes_step: "dht_change d d1 \<Longrightarrow> dht_changes d1 d2 \<Longrightarrow> dht_changes d d2"
  by (rule converse_rtranclp_into_rtranclp)

lemma revoke_chunks_changes: "dht_changes d (foldl revoke_chunk d xs)"
  by (induction xs arbitrary: d) (auto intro: dht_changes_step [OF ch_revoke])

lemma applyRevoke_changes: "dht_changes d (applyRevoke d rp)"
  unfolding applyRevoke_def Let_def
  by (auto intro: revoke_chunks_changes dht_changes_step [OF ch_block revoke_chunks_changes])

lemma handleRevoke_changes: "handleRevoke h d addr msg = Some (d', fx) \<Longrightarrow> dht_changes d d'"
  using dht_changes_step [OF ch_seen applyRevoke_changes]
  by (auto simp: handleRevoke_def Let_def split: option.splits if_splits)

lemma handleStore_changes: "handleStore h d addr msg = Some (d', fx) \<Longrightarrow> dht_change d d'"
  using ch_put [of _ d _ "h_keys h" "h_fault h" "h_now h" "m_From msg"]
  by (auto simp: handleStore_def PutAttributed_def split: option.splits sum.splits if_splits prod.splits intro: ch_same)
     (metis fst_conv linorder_not_less)+

lemma handleFindValue_changes: "handleFindValue h d addr msg = Some (d', fx) \<Longrightarrow> dht_change d d'"
  using ch_get [of d "h_now h"]
  by (auto simp: handleFindValue_def split: option.splits sum.splits if_splits prod.splits intro: ch_same)
     (metis fst_conv)+

lemma HandleMessage_changes:
  "HandleMessage h d addr msg = Some (d', fx) \<Longrightarrow> dht_changes d d'"
  by (auto simp: HandleMessage_def observeHello_def observeGoodbye_def handlePing_def handleFindNode_def Let_def
      split: if_splits option.splits sum.splits prod.splits
      dest!: handleStore_changes handleFindValue_changes handleRevoke_changes
      intro: ch_remove ch_update)

lemma dht_event_changes: "dht_event (Some d) e = Some d' \<Longrightarrow> dht_changes d d'"
proof (cases e)
  case (Incoming h addr msg)
  then show "dht_event (Some d) e = Some d' \<Longrightarrow> ?thesis" by (auto dest: HandleMessage_changes)
next
  case (LocalStore h key v)
  then show "dht_event (Some d) e = Some d' \<Longrightarrow> ?thesis"
    by (auto simp: StoreLocal_def store_Put_def not_less intro!: r_into_rtranclp ch_put split: sum.splits if_splits)
next
  case (LocalRevoke rp)
  then show "dht_event (Some d) e = Some d' \<Longrightarrow> ?thesis" by (auto simp: BroadcastRevoke_def intro: applyRevoke_changes)
next
  case (EvictionDone h task ping)
  then show "dht_event (Some d) e = Some d' \<Longrightarrow> ?thesis"
    by (cases task) (auto split: if_splits intro: ch_evict)
qed

lemma dht_event_inv:
  assumes "\<And>d d'. dht_changes d d' \<Longrightarrow> P d \<Longrightarrow> P d'" and "\<forall>d. r = Some d \<longrightarrow> P d"
  shows "\<forall>d. dht_event r e = Some d \<longrightarrow> P d"
  using assms(2) by (cases r) (auto intro: assms(1) dest: dht_event_changes)

interpretation node_runs: handler_invariant dht_event "\<lambda>r. \<forall>d. r = Some d \<longrightarrow> dht_inv s d" for s
  by unfold_locales (rule dht_event_inv [OF dht_runs.run_inv])

interpretation node_purged: handler_invariant dht_event "\<lambda>r. \<forall>d. r = Some d \<longrightarrow> purged k d" for k
  by unfold_locales (rule dht_event_inv [OF purged_runs.run_inv])

section \<open>Panics\<close>

lemma Remove_None: "rt_inv t \<Longrightarrow> Remove t i = None \<longleftrightarrow> i = self t"
  using bucket_index_less [of i "self t"] by (cases "i = self t") (auto simp: Remove_def Let_def)

definition own_goodbye :: "NodeID \<Rightarrow> event \<Rightarrow> bool" where
  "own_goodbye s e = (case e of
     Incoming h addr msg \<Rightarrow> m_Type msg = ''goodbye'' \<and> (\<exists>hx. sender_id (h_prims h) msg = Some (hx, s))
   | _ \<Rightarrow> False)"

lemma handlers_return [simp]:
  "observeHello h d addr msg = None \<longleftrightarrow> False" "handlePing d addr msg = None \<longleftrightarrow> False"
  "handleFindNode d addr msg = None \<longleftrightarrow> False" "handleStore h d addr msg = None \<longleftrightarrow> False"
  "handleFindValue h d addr msg = None \<longleftrightarrow> False" "handleRevoke h d addr msg = None \<longleftrightarrow> False"
  by (auto simp: observeHello_def handlePing_def handleFindNode_def handleStore_def handleFindValue_def
      handleRevoke_def Let_def split: option.split sum.split prod.split)

lemma dht_event_None:
  assumes "dht_inv s d"
  shows "dht_event (Some d) e = None \<longleftrightarrow> own_goodbye s e"
proof (cases e)
  case (Incoming h addr msg)
  have "rt_inv (d_rt d)" "self (d_rt d) = s" using assms by (auto simp: dht_inv_def rt_state_inv_def)
  then have "observeGoodbye (h_prims h) d msg = None \<longleftrightarrow> (\<exists>hx. sender_id (h_prims h) msg = Some (hx, s))"
    by (auto simp: observeGoodbye_def Remove_None split: option.split prod.split)
  then show ?thesis by (simp add: Incoming own_goodbye_def HandleMessage_def del: not_None_eq)
next
  case (EvictionDone h task ping)
  then show ?thesis by (cases task) (simp add: own_goodbye_def)
qed (simp_all add: own_goodbye_def split: sum.split)

lemma dht_event_stuck [simp]: "foldl dht_event None es = None"
  by (induction es) auto

lemma dht_run_None:
  assumes "dht_inv s d"
  shows "foldl dht_event (Some d) es = None \<longleftrightarrow> (\<exists>e\<in>set es. own_goodbye s e)"
  using assms
proof (induction es arbitrary: d)
  case (Cons e es)
  show ?case
  proof (cases "dht_event (Some d) e")
    case None
    then show ?thesis using dht_event_None [OF Cons.prems, of e] None by simp
  next
    case (Some d')
    then have "dht_inv s d'" using dht_runs.run_inv [OF dht_event_changes] Cons.prems by blast
    with Some Cons.IH [of d'] dht_event_None [OF Cons.prems, of e] show ?thesis by simp
  qed
qed simp

lemma self_New [simp]: "self (NewRoutingTable s) = s"
  by (simp add: NewRoutingTable_def)

lemma dht_inv_new:
  assumes "NewWithFullLimit selfhex (Inr s) limit = Inr d" "store_inv s"
    "store.all_stored (\<lambda>k v. length v \<le> MaxValueSize) s"
  shows "dht_inv (d_self d) d"
  using assms rt_inv_New
  by (auto simp: NewWithFullLimit_def dht_inv_def rt_state_inv_def rt_inv_def SetEvictionPing_def store_inv_def
      SetPerPeerMax_def store_shape_def under_counted_def store.all_stored_def store_find_def split: sum.splits)

section \<open>Revokes\<close>

lemma foldl_revoke_blocked:
  "d_blocklist d \<noteq> None \<Longrightarrow>
   IsBlocked (foldl revoke_chunk d xs) k \<longleftrightarrow> IsBlocked d k \<or> (\<exists>x\<in>set xs. IDFromHex x = Inr k)"
  by (induction xs arbitrary: d) (auto simp: IsBlocked_revoke_chunk simp del: not_None_eq)

lemma foldl_revoke_find:
  "store_find (d_store (foldl revoke_chunk d xs)) k =
     (if \<exists>x\<in>set xs. IDFromHex x = Inr k then None else store_find (d_store d) k)"
proof (induction xs arbitrary: d)
  case (Cons x xs)
  have "store_find (d_store (revoke_chunk d x)) k = (if IDFromHex x = Inr k then None else store_find (d_store d) k)"
    using store.delete_same [of "d_store d" k] store.delete_other [of k _ "d_store d"]
    by (auto simp: revoke_chunk_def split: sum.split)
  with Cons.IH [of "revoke_chunk d x"] show ?case by auto
qed simp

lemma applyRevoke_blocked:
  "IsBlocked (applyRevoke d rp) k \<longleftrightarrow> IsBlocked d k \<or> (\<exists>x\<in>set (rv_Chunks rp). IDFromHex x = Inr k)"
  by (auto simp: applyRevoke_def Let_def foldl_revoke_blocked)
     (auto simp: IsBlocked_def Blocklist_Contains_def NewBlocklist_def)

lemma applyRevoke_find:
  "store_find (d_store (applyRevoke d rp)) k =
     (if \<exists>x\<in>set (rv_Chunks rp). IDFromHex x = Inr k then None else store_find (d_store d) k)"
  by (simp add: applyRevoke_def Let_def foldl_revoke_find)

lemma foldl_revoke_simps [simp]:
  "d_seen (foldl revoke_chunk d xs) = d_seen d" "d_rt (foldl revoke_chunk d xs) = d_rt d"
  "d_trusted (foldl revoke_chunk d xs) = d_trusted d" "d_self (foldl revoke_chunk d xs) = d_self d"
  by (induction xs arbitrary: d) auto

lemma applyRevoke_simps [simp]:
  "d_seen (applyRevoke d rp) = d_seen d" "d_rt (applyRevoke d rp) = d_rt d"
  "d_trusted (applyRevoke d rp) = d_trusted d" "d_self (applyRevoke d rp) = d_self d"
  by (simp_all add: applyRevoke_def Let_def)

lemma applyRevoke_purged: "x \<in> set (rv_Chunks rp) \<Longrightarrow> IDFromHex x = Inr k \<Longrightarrow> purged k (applyRevoke d rp)"
  by (auto simp: purged_def applyRevoke_blocked applyRevoke_find)

lemma purged_not_served:
  assumes "purged k d" "Unmarshal dec_findValuePayload (m_Payload msg) [] = Some x" "IDFromHex x = Inr k"
  shows "handleFindValue h d addr msg = Some (d, [Reply addr msg (nodes_reply (map wire_short (Closest (d_rt d) k K)))])"
  using assms by (simp add: handleFindValue_def purged_def)

text \<open>When \<open>handleRevoke\<close> acts, and what it does then.\<close>

lemma handleRevoke_cases:
  assumes "Unmarshal dec_Revoke (m_Payload msg) zero_Revoke = Some rp"
  shows "handleRevoke h d addr msg =
    (if revoke_acceptable (h_prims h) (Unix (h_now h)) (d_trusted d) rp
        \<and> fmlookup (d_seen d) (revokeID (h_prims h) rp) = None
     then Some (applyRevoke (d\<lparr>d_seen := remember (h_now h) (d_seen d) (revokeID (h_prims h) rp)\<rparr>) rp, [Broadcast msg])
     else Some (d, []))"
  using assms
  by (auto simp: handleRevoke_def Let_def revoke_acceptable_def Trusted_Contains_def Trusted_Size_def split: option.splits)

text \<open>
  A revoke that was accepted is either still remembered, with the time it was accepted, or too old
  to be accepted.
\<close>

definition replay_safe :: "string \<Rightarrow> int \<Rightarrow> time \<Rightarrow> (string, time) fmap \<Rightarrow> bool" where
  "replay_safe rid ts now seen \<longleftrightarrow>
     (\<exists>t0. fmlookup seen rid = Some t0 \<and> ts \<le> Unix t0 + MaxRevokeFutureSkew) \<or> ts < Unix now - MaxRevokeAge"

lemma Unix_mono: "s \<le> t \<Longrightarrow> Unix s \<le> Unix t"
  by (simp add: Unix_def second_def zdiv_mono1)

lemma replay_safe_later: "replay_safe rid ts now seen \<Longrightarrow> now \<le> now' \<Longrightarrow> replay_safe rid ts now' seen"
  using Unix_mono [of now now'] by (auto simp: replay_safe_def)

lemma remember_same: "fmlookup (remember now seen rid) rid = Some now"
  by (auto simp: remember_def Let_def MaxRevokeAge_def second_def fmget0_def)

lemma remember_other:
  "rid' \<noteq> rid \<Longrightarrow> fmlookup seen rid' = Some t0 \<Longrightarrow> \<not> t0 < now - 2 * MaxRevokeAge * second \<Longrightarrow>
   fmlookup (remember now seen rid) rid' = Some t0"
  by (auto simp: remember_def Let_def fmget0_def)

lemma forgotten_too_old:
  assumes "t0 < now - 2 * MaxRevokeAge * second" "ts \<le> Unix t0 + MaxRevokeFutureSkew"
  shows "ts < Unix now - MaxRevokeAge"
proof -
  have "Unix t0 \<le> Unix (now + (- 2 * MaxRevokeAge) * second)" using assms(1) by (intro Unix_mono) simp
  also have "\<dots> = Unix now - 2 * MaxRevokeAge" by (simp add: Unix_def second_def)
  finally show ?thesis using assms(2) by (simp add: MaxRevokeAge_def MaxRevokeFutureSkew_def)
qed

lemma remember_replay_safe:
  assumes "replay_safe rid ts now seen" "fmlookup seen rid' = None" "now \<le> now'"
  shows "replay_safe rid ts now' (remember now' seen rid')"
  using replay_safe_later [OF assms(1,3)] assms(2) remember_other [of rid rid' seen _ now'] forgotten_too_old
  by (cases "rid' = rid") (fastforce simp: replay_safe_def)+

lemma handleRevoke_seen:
  "handleRevoke h d addr msg = Some (d', fx) \<Longrightarrow>
   d_seen d' = d_seen d \<or> (\<exists>rid. fmlookup (d_seen d) rid = None \<and> d_seen d' = remember (h_now h) (d_seen d) rid)"
  by (auto simp: handleRevoke_def Let_def split: option.splits if_splits)

lemma HandleMessage_seen:
  "HandleMessage h d addr msg = Some (d', fx) \<Longrightarrow>
   d_seen d' = d_seen d \<or> (\<exists>rid. fmlookup (d_seen d) rid = None \<and> d_seen d' = remember (h_now h) (d_seen d) rid)"
  by (auto simp: HandleMessage_def observeHello_def observeGoodbye_def handlePing_def handleFindNode_def Let_def
      handleStore_def handleFindValue_def split: if_splits option.splits sum.splits prod.splits dest!: handleRevoke_seen)

text \<open>The clock readings of a run, in order.\<close>

fun clocks :: "event list \<Rightarrow> time list" where
  "clocks [] = []"
| "clocks (Incoming h addr msg # es) = h_now h # clocks es"
| "clocks (e # es) = clocks es"

lemma replay_safe_run:
  assumes "foldl dht_event (Some d) es = Some d'" "sorted (now # clocks es @ [later])" "replay_safe rid ts now (d_seen d)"
  shows "replay_safe rid ts later (d_seen d')"
  using assms
proof (induction es arbitrary: d now)
  case Nil
  then show ?case by (auto intro: replay_safe_later)
next
  case (Cons e es)
  from Cons.prems(1) obtain d1 where d1: "dht_event (Some d) e = Some d1" by (cases "dht_event (Some d) e") auto
  have "\<exists>n. sorted (n # clocks es @ [later]) \<and> replay_safe rid ts n (d_seen d1)"
  proof (cases e)
    case (Incoming h addr msg)
    then have "now \<le> h_now h" "sorted (h_now h # clocks es @ [later])" using Cons.prems(2) by auto
    moreover have "replay_safe rid ts (h_now h) (d_seen d1)"
      using d1 Incoming HandleMessage_seen [of h d addr msg d1] Cons.prems(3) calculation(1)
        replay_safe_later [OF Cons.prems(3)] remember_replay_safe [OF Cons.prems(3)] by auto
    ultimately show ?thesis by blast
  next
    case (LocalStore h key v)
    then show ?thesis using d1 Cons.prems by (auto simp: StoreLocal_def split: sum.splits if_splits)
  next
    case (LocalRevoke rp)
    then show ?thesis using d1 Cons.prems by (auto simp: BroadcastRevoke_def)
  next
    case (EvictionDone h task ping)
    then show ?thesis using d1 Cons.prems by (cases task) (auto split: if_splits)
  qed
  with Cons.IH Cons.prems(1) d1 show ?case by auto
qed

section \<open>Properties\<close>

text \<open>
  C2: a node that starts on a consistent store and then handles any sequence of messages, local
  stores, revokes and completed eviction pings keeps the invariants of the routing table, of the
  store and of the pending evictions, and every stored value within \<open>MaxValueSize\<close>. It panics
  exactly when one of the messages is a \<open>goodbye\<close> that carries the node's own public key.
\<close>

theorem dht_run_safe:
  assumes "NewWithFullLimit selfhex (Inr s) limit = Inr d" and "store_inv s"
    and "store.all_stored (\<lambda>k v. length v \<le> MaxValueSize) s"
  shows "case foldl dht_event (Some d) es of
      None \<Rightarrow> \<exists>e\<in>set es. own_goodbye (d_self d) e
    | Some d' \<Rightarrow> (\<forall>e\<in>set es. \<not> own_goodbye (d_self d) e)
        \<and> rt_state_inv (d_self d) (d_rt d', d_evict d') \<and> store_inv (d_store d')
        \<and> (\<forall>k v. store_find (d_store d') k = Some v \<longrightarrow> length v \<le> MaxValueSize)"
proof -
  note inv = dht_inv_new [OF assms]
  have run: "\<forall>d'. foldl dht_event (Some d) es = Some d' \<longrightarrow> dht_inv (d_self d) d'"
    by (rule node_runs.fold_inv) (simp add: inv)
  have panic: "foldl dht_event (Some d) es = None \<longleftrightarrow> (\<exists>e\<in>set es. own_goodbye (d_self d) e)"
    by (rule dht_run_None [OF inv])
  show ?thesis
  proof (cases "foldl dht_event (Some d) es")
    case None
    then show ?thesis using panic by simp
  next
    case (Some d')
    with run have "dht_inv (d_self d) d'" by blast
    then show ?thesis using Some panic by (simp add: dht_inv_def store.all_stored_def)
  qed
qed

definition sample_dht :: DHT where
  "sample_dht = \<lparr>d_self = id_copy [], d_rt = SetEvictionPing (NewRoutingTable (id_copy [])) True,
     d_store = newLocalStore\<lparr>perPeerMax := 0\<rparr>, d_blocklist = None, d_trusted = None, d_seen = fmempty, d_evict = []\<rparr>"

lemma sample_dht_new: "NewWithFullLimit (Hex (id_copy [])) (Inr newLocalStore) 0 = Inr sample_dht"
  by (simp add: NewWithFullLimit_def sample_dht_def SetPerPeerMax_def)

lemma new_store_ok [simp]: "store_inv newLocalStore" "store_find newLocalStore = (\<lambda>_. None)"
  by (auto simp: store_inv_def store_shape_def under_counted_def newLocalStore_def fmget0_def store_find_def)

theorem dht_run_safe_witness: "foldl dht_event (Some sample_dht) [LocalRevoke zero_Revoke] \<noteq> None"
  using dht_run_safe [OF sample_dht_new, of "[LocalRevoke zero_Revoke]"]
  by (simp add: store.all_stored_def own_goodbye_def split: option.splits)

text \<open>
  C22: a revoked chunk is gone for good. After a revoke is applied its chunks are blocked and
  deleted; no later sequence of messages, stores and revokes unblocks them or brings a value back,
  and a request for one of them is answered with contacts, never with a value. The other keys keep
  their values.
\<close>

theorem revoke_permanent:
  assumes "x \<in> set (rv_Chunks rp)" and "IDFromHex x = Inr k"
    and "foldl dht_event (Some (applyRevoke d rp)) es = Some d'"
  shows "IsBlocked d' k \<and> store_find (d_store d') k = None
    \<and> (\<forall>h addr msg y. Unmarshal dec_findValuePayload (m_Payload msg) [] = Some y \<and> IDFromHex y = Inr k \<longrightarrow>
         handleFindValue h d' addr msg = Some (d', [Reply addr msg (nodes_reply (map wire_short (Closest (d_rt d') k K)))]))
    \<and> (\<forall>j. (\<forall>y\<in>set (rv_Chunks rp). IDFromHex y \<noteq> Inr j) \<longrightarrow>
         store_find (d_store (applyRevoke d rp)) j = store_find (d_store d) j)"
proof -
  have "\<forall>d'. foldl dht_event (Some (applyRevoke d rp)) es = Some d' \<longrightarrow> purged k d'"
    by (rule node_purged.fold_inv) (simp add: applyRevoke_purged [OF assms(1,2)])
  with assms(3) have p: "purged k d'" by blast
  with purged_not_served show ?thesis by (auto simp: purged_def applyRevoke_find)
qed

theorem revoke_permanent_witness:
  "IsBlocked (applyRevoke sample_dht (zero_Revoke\<lparr>rv_Chunks := [Hex (id_copy [])]\<rparr>)) (id_copy [])"
  using revoke_permanent [of "Hex (id_copy [])" "zero_Revoke\<lparr>rv_Chunks := [Hex (id_copy [])]\<rparr>" "id_copy []" sample_dht "[]"]
  by simp

text \<open>
  A revoke acts once. When \<open>handleRevoke\<close> has acted on a message, then after any run of the
  node with a clock that does not go back, a message with the same payload changes nothing and is
  not gossiped again. Forgetting old entries of the replay memory is harmless: an entry is only
  forgotten when its revoke is too old to be accepted.
\<close>

theorem revoke_acts_once:
  assumes "handleRevoke h d addr msg = Some (d1, fx)" and "fx \<noteq> []"
    and "foldl dht_event (Some d1) es = Some d2" and "sorted (h_now h # clocks es @ [h_now h2])"
    and "h_prims h2 = h_prims h" and "m_Payload msg2 = m_Payload msg"
  shows "handleRevoke h2 d2 addr2 msg2 = Some (d2, [])"
proof -
  obtain rp where rp: "Unmarshal dec_Revoke (m_Payload msg) zero_Revoke = Some rp"
    using assms(1,2) by (auto simp: handleRevoke_def split: if_splits option.splits)
  let ?rid = "revokeID (h_prims h) rp"
  have acc: "revoke_acceptable (h_prims h) (Unix (h_now h)) (d_trusted d) rp"
    and seen: "d_seen d1 = remember (h_now h) (d_seen d) ?rid"
    using assms(1,2) handleRevoke_cases [OF rp, of h d addr] by (auto split: if_splits)
  have "replay_safe ?rid (rv_Timestamp rp) (h_now h) (d_seen d1)"
    using acc by (simp add: replay_safe_def seen remember_same revoke_acceptable_def)
  from replay_safe_run [OF assms(3,4) this] have "replay_safe ?rid (rv_Timestamp rp) (h_now h2) (d_seen d2)" .
  then show ?thesis using handleRevoke_cases [of msg2 rp h2 d2 addr2] assms(5,6) rp
    by (auto simp: replay_safe_def revoke_acceptable_def)
qed

definition sample_henv :: henv where
  "sample_henv = \<lparr>h_prims = toy_prims, h_now = 0, h_keys = [], h_fault = None\<rparr>"

definition sample_revoke :: RevokePayload where
  "sample_revoke = \<lparr>rv_Name = ''a'', rv_Chunks = [Hex (id_copy [])], rv_Timestamp = 0, rv_Nonce = [],
     rv_PublicKey = PublicKeyToHex (PublicKey toy_identity),
     rv_Signature = Sign toy_prims toy_identity (RevokeCanonical ''a'' [Hex (id_copy [])] 0 [])\<rparr>"

definition sample_trusting :: DHT where
  "sample_trusting = sample_dht\<lparr>d_trusted := Some {|ToLower (TrimSpace (PublicKeyToHex (PublicKey toy_identity)))|}\<rparr>"

lemma sample_revoke_ok:
  "revoke_ok sample_revoke" "fmlookup (d_seen sample_trusting) rid = None"
  "revoke_acceptable (h_prims sample_henv) (Unix (h_now sample_henv)) (d_trusted sample_trusting) sample_revoke"
proof -
  have "ascii ''a''" by (simp add: ascii_def)
  then show "revoke_ok sample_revoke"
    by (simp add: revoke_ok_def sample_revoke_def PublicKeyToHex_def Sign_def Hex_def int64_def)
  show "fmlookup (d_seen sample_trusting) rid = None" by (simp add: sample_trusting_def sample_dht_def)
  show "revoke_acceptable (h_prims sample_henv) (Unix (h_now sample_henv)) (d_trusted sample_trusting) sample_revoke"
    using Sign_Verify [OF toy_prims_ok toy_identity_ok]
      PublicKeyFromHex_ToHex [OF PublicKey_length [OF toy_prims_ok toy_identity_ok]]
    by (simp add: revoke_acceptable_def sample_henv_def sample_trusting_def sample_revoke_def Trusted_Contains_def
        Unix_def MaxRevokeAge_def MaxRevokeFutureSkew_def)
qed

theorem revoke_acts_once_witness:
  "let msg = mk_message ''dht_revoke'' (print_json (enc_Revoke sample_revoke)) in
   \<exists>d1. handleRevoke sample_henv sample_trusting [] msg = Some (d1, [Broadcast msg])
     \<and> handleRevoke sample_henv d1 [] msg = Some (d1, [])"
proof -
  let ?msg = "mk_message ''dht_revoke'' (print_json (enc_Revoke sample_revoke))"
  have "Unmarshal dec_Revoke (m_Payload ?msg) zero_Revoke = Some sample_revoke"
    by (simp add: mk_message_def dec_enc_Revoke sample_revoke_ok(1))
  from handleRevoke_cases [OF this, of sample_henv sample_trusting "[]"] sample_revoke_ok(2,3)
  obtain d1 where d1: "handleRevoke sample_henv sample_trusting [] ?msg = Some (d1, [Broadcast ?msg])" by auto
  from revoke_acts_once [OF d1, of "[]" d1 sample_henv ?msg "[]"] d1 show ?thesis by (auto simp: Let_def)
qed

lemma IDFromHex_padded: "IDFromHex (CHR '' '' # x) \<noteq> Inr k"
  using IDFromHex_Inr [of "CHR '' '' # x" k] hex_decode_chars [of "CHR '' '' # x"]
  by (auto simp: IDFromHex_def hex_val_def split: option.splits if_splits)

lemma padded_canonical:
  "RevokeCanonical n (map (\<lambda>x. CHR '' '' # x) cs) t k = RevokeCanonical n cs t k"
proof -
  have "norm_chunk (CHR '' '' # x) = norm_chunk x" for x     by (simp add: norm_chunk_def TrimSpace_def trim_left_def is_space_def)
  then show ?thesis by (simp add: RevokeCanonical_def canonical_text_def comp_def)
qed

text \<open>
  Anyone can void a revoke that is still on its way. The signature covers the chunks without
  surrounding space, but \<open>applyRevoke\<close> uses them as they are. Of a genuine revoke, a copy with a
  space before every chunk is accepted and gossiped by a node that has not seen it; it blocks
  nothing and deletes nothing; and the node then ignores the genuine revoke, which has the same
  identifier.
\<close>

theorem padded_revoke_voids:
  assumes "revoke_ok rp" and "revoke_acceptable (h_prims h) (Unix (h_now h)) (d_trusted d) rp"
    and "fmlookup (d_seen d) (revokeID (h_prims h) rp) = None"
    and "m_Payload msg' = print_json (enc_Revoke (rp\<lparr>rv_Chunks := map (\<lambda>x. CHR '' '' # x) (rv_Chunks rp)\<rparr>))"
    and "m_Payload msg = print_json (enc_Revoke rp)" and "h_prims h2 = h_prims h"
  shows "\<exists>d1. handleRevoke h d addr' msg' = Some (d1, [Broadcast msg'])
    \<and> (\<forall>k. IsBlocked d1 k = IsBlocked d k \<and> store_find (d_store d1) k = store_find (d_store d) k)
    \<and> handleRevoke h2 d1 addr msg = Some (d1, [])"
proof -
  let ?p = "rp\<lparr>rv_Chunks := map (\<lambda>x. CHR '' '' # x) (rv_Chunks rp)\<rparr>"
  have "revoke_ok ?p" using assms(1) by (simp add: revoke_ok_def list_all_iff utf8_ascii_Cons)
  then have p: "Unmarshal dec_Revoke (m_Payload msg') zero_Revoke = Some ?p"
    and g: "Unmarshal dec_Revoke (m_Payload msg) zero_Revoke = Some rp"
    using assms(1,4,5) by (simp_all add: dec_enc_Revoke)
  have rid: "revokeID (h_prims h) ?p = revokeID (h_prims h) rp" by (simp add: revokeID_def padded_canonical)
  have acc: "revoke_acceptable (h_prims h) (Unix (h_now h)) (d_trusted d) ?p"
    using assms(2) by (simp add: revoke_acceptable_def padded_canonical cong: option.case_cong)
  let ?d1 = "applyRevoke (d\<lparr>d_seen := remember (h_now h) (d_seen d) (revokeID (h_prims h) rp)\<rparr>) ?p"
  have "handleRevoke h d addr' msg' = Some (?d1, [Broadcast msg'])"
    using handleRevoke_cases [OF p, of h d addr'] acc assms(3) rid by simp
  moreover have "\<forall>k. IsBlocked ?d1 k = IsBlocked d k \<and> store_find (d_store ?d1) k = store_find (d_store d) k"
    by (simp add: applyRevoke_blocked applyRevoke_find IDFromHex_padded)
  moreover have "handleRevoke h2 ?d1 addr msg = Some (?d1, [])"
    using handleRevoke_cases [OF g, of h2 ?d1 addr] assms(6) by (simp add: remember_same)
  ultimately show ?thesis by blast
qed

theorem padded_revoke_voids_witness:
  "\<exists>d1. handleRevoke sample_henv d1 [] (mk_message ''dht_revoke'' (print_json (enc_Revoke sample_revoke))) = Some (d1, [])
     \<and> \<not> IsBlocked d1 (id_copy [])"
proof -
  let ?p = "sample_revoke\<lparr>rv_Chunks := map (\<lambda>x. CHR '' '' # x) (rv_Chunks sample_revoke)\<rparr>"
  have "\<not> IsBlocked sample_trusting (id_copy [])"
    by (simp add: IsBlocked_def sample_trusting_def sample_dht_def)
  with padded_revoke_voids [OF sample_revoke_ok(1,3,2),
      of "mk_message ''dht_revoke'' (print_json (enc_Revoke ?p))"
         "mk_message ''dht_revoke'' (print_json (enc_Revoke sample_revoke))" sample_henv "[]" "[]"]
  show ?thesis by (auto simp: mk_message_def)
qed

end
