(* ===== verification/Dht_Lookup.thy ===== *)
theory Dht_Lookup
  imports Dht
begin

text \<open>
  \<^verbatim>\<open>core/dht/dht.go\<close>, the operations that use the network: requests to a contact, the iterative
  lookup, storing on and reading from the closest nodes.

  What the network does is an argument. A round of a lookup gets a \<open>round_env\<close>: the reply to each
  request, the order in which the goroutines of the round complete, and what the node does
  meanwhile on behalf of others, which may be anything. The three iterative loops of the source
  have the same text but for the request they send; \<open>walk\<close> is that text.
\<close>

section \<open>Definitions\<close>

type_synonym network = "string \<Rightarrow> Message \<Rightarrow> string + Message"

record round_env =
  re_prims :: prims
  re_now :: time
  re_net :: network
  re_order :: "Contact list \<Rightarrow> Contact list"
  re_among :: "nat \<Rightarrow> DHT \<Rightarrow> DHT"

subsection \<open>Requests\<close>

fun request_loop :: "network \<Rightarrow> Message \<Rightarrow> string \<Rightarrow> string list \<Rightarrow> string + Message" where
  "request_loop net msg lastErr [] = Inl lastErr"
| "request_loop net msg lastErr (addr # addrs) =
     (case net addr msg of
        Inr reply \<Rightarrow> Inr reply
      | Inl err \<Rightarrow> request_loop net msg err addrs)"

definition requestContact :: "network \<Rightarrow> Contact \<Rightarrow> Message \<Rightarrow> string + Message" where
  "requestContact net c msg =
     (let addrs = AllAddresses c
      in if addrs = [] then Inl ''dht: contact has no addresses''
         else request_loop net msg [] addrs)"

definition Ping :: "round_env \<Rightarrow> DHT \<Rightarrow> Contact \<Rightarrow> DHT \<times> bool" where
  "Ping e d c =
     (case requestContact (re_net e) c (mk_message ''dht_ping'' []) of
        Inl _ \<Rightarrow> (d, False)
      | Inr reply \<Rightarrow>
          if m_Type reply \<noteq> ''dht_pong'' then (d, False)
          else (rt_Update (re_now e) d c, True))"

fun read_contacts :: "wireContact list \<Rightarrow> Contact list" where
  "read_contacts [] = []"
| "read_contacts (wc # wcs) =
     (case IDFromHex (wc_ID wc) of
        Inl _ \<Rightarrow> read_contacts wcs
      | Inr i \<Rightarrow> \<lparr>ID = i, Address = wc_Address wc, AltAddresses = wc_Alt wc, LastSeen = 0\<rparr> # read_contacts wcs)"

definition find_node_request :: "NodeID \<Rightarrow> Message" where
  "find_node_request target = mk_message ''dht_find_node'' (print_json (enc_findNodePayload (Hex target)))"

definition FindNode :: "round_env \<Rightarrow> DHT \<Rightarrow> Contact \<Rightarrow> NodeID \<Rightarrow> DHT \<times> Contact list option" where
  "FindNode e d c target =
     (case requestContact (re_net e) c (find_node_request target) of
        Inl _ \<Rightarrow> (d, None)
      | Inr reply \<Rightarrow>
          if m_Type reply \<noteq> ''dht_nodes'' then (d, None)
          else case Unmarshal dec_nodesPayload (m_Payload reply) [] of
                 None \<Rightarrow> (d, None)
               | Some wcs \<Rightarrow> (rt_Update (re_now e) d c, Some (read_contacts wcs)))"

definition store_request :: "NodeID \<Rightarrow> bytes \<Rightarrow> Message" where
  "store_request key value =
     mk_message ''dht_store'' (print_json (enc_storePayload \<lparr>sp_Key = Hex key, sp_Value = b64_encode True value\<rparr>))"

definition sendStore :: "round_env \<Rightarrow> DHT \<Rightarrow> Contact \<Rightarrow> NodeID \<Rightarrow> bytes \<Rightarrow> DHT \<times> bool" where
  "sendStore e d c key value =
     (case requestContact (re_net e) c (store_request key value) of
        Inl _ \<Rightarrow> (d, False)
      | Inr reply \<Rightarrow>
          if m_Type reply \<noteq> ''dht_stored'' then (d, False)
          else (rt_Update (re_now e) d c, True))"

datatype found = FoundValue bytes | FoundContacts "Contact list" | FoundError

definition find_value_request :: "NodeID \<Rightarrow> Message" where
  "find_value_request key = mk_message ''dht_find_value'' (print_json (enc_findValuePayload (Hex key)))"

definition read_found :: "Message \<Rightarrow> found" where
  "read_found reply =
     (if m_Type reply = ''dht_value'' then
        (case Unmarshal dec_valuePayload (m_Payload reply) [] of
           None \<Rightarrow> FoundError
         | Some v \<Rightarrow> (case b64_decode True v of None \<Rightarrow> FoundError | Some value \<Rightarrow> FoundValue value))
      else if m_Type reply = ''dht_nodes'' then
        (case Unmarshal dec_nodesPayload (m_Payload reply) [] of
           None \<Rightarrow> FoundError
         | Some wcs \<Rightarrow> FoundContacts (read_contacts wcs))
      else FoundError)"

definition sendFindValue :: "round_env \<Rightarrow> DHT \<Rightarrow> Contact \<Rightarrow> NodeID \<Rightarrow> DHT \<times> found" where
  "sendFindValue e d c key =
     (case requestContact (re_net e) c (find_value_request key) of
        Inl _ \<Rightarrow> (d, FoundError)
      | Inr reply \<Rightarrow> (rt_Update (re_now e) d c, read_found reply))"

subsection \<open>The iterative loop\<close>

definition closestHex :: "NodeID \<Rightarrow> Contact list \<Rightarrow> string" where
  "closestHex target contacts =
     (case contacts of
        [] \<Rightarrow> []
      | c0 # cs \<Rightarrow> Hex (ID (foldl (\<lambda>best c. if DistanceLess target (ID c) (ID best) then c else best) c0 cs)))"

definition pick_batch :: "NodeID list \<Rightarrow> Contact list \<Rightarrow> Contact list" where
  "pick_batch queried shortlist = take Alpha (filter (\<lambda>c. ID c \<notin> set queried) shortlist)"

type_synonym 'a visit = "round_env \<Rightarrow> DHT \<Rightarrow> Contact \<Rightarrow> 'a \<Rightarrow> DHT \<times> 'a \<times> Contact list"

fun run_visits :: "'a visit \<Rightarrow> round_env \<Rightarrow> nat \<Rightarrow> Contact list \<Rightarrow> DHT \<Rightarrow> 'a \<Rightarrow> DHT \<times> 'a \<times> Contact list" where
  "run_visits visit e n [] d acc = (re_among e n d, acc, [])"
| "run_visits visit e n (c # cs) d acc =
     (case visit e (re_among e n d) c acc of
        (d1, acc1, nodes) \<Rightarrow>
          (case run_visits visit e (Suc n) cs d1 acc1 of
             (d2, acc2, learned) \<Rightarrow> (d2, acc2, nodes @ learned)))"

definition hint_learned :: "DHT \<Rightarrow> Contact list \<Rightarrow> DHT" where
  "hint_learned d learned =
     foldl (\<lambda>d c. if Equal (ID c) (d_self d) then d else d\<lparr>d_rt := Hint (d_rt d) c\<rparr>) d learned"

lemma finite_NodeID: "finite (UNIV :: NodeID set)"
proof -
  have "finite {l :: bytes. length l = IDSize}" using finite_lists_length_eq [of "UNIV :: byte set" IDSize] by simp
  moreover have "range id_bytes \<subseteq> {l. length l = IDSize}" by auto
  moreover have "inj id_bytes" by (simp add: inj_def NodeID_eq_iff)
  ultimately show ?thesis by (meson finite_imageD finite_subset)
qed

lemma pick_batch_new: "c \<in> set (pick_batch queried shortlist) \<Longrightarrow> ID c \<notin> set queried \<and> c \<in> set shortlist"
  unfolding pick_batch_def by (auto dest: in_set_takeD)

function walk ::
  "'a visit \<Rightarrow> ('a \<Rightarrow> bool) \<Rightarrow> (nat \<Rightarrow> round_env) \<Rightarrow> NodeID \<Rightarrow> nat \<Rightarrow> NodeID list \<Rightarrow> Contact list \<Rightarrow> DHT \<Rightarrow> 'a
   \<Rightarrow> DHT \<times> 'a \<times> Contact list \<times> NodeID list" where
  "walk visit stop env target r queried shortlist d acc =
     (let batch = pick_batch queried shortlist
      in if batch = [] then (d, acc, shortlist, queried)
         else case run_visits visit (env r) 0 (re_order (env r) batch) d acc of
                (d1, acc1, learned) \<Rightarrow>
                  if stop acc1 then (d1, acc1, shortlist, map ID batch @ queried)
                  else
                    let before = closestHex target shortlist;
                        d2 = hint_learned d1 learned;
                        shortlist2 = Closest (d_rt d2) target K
                    in if before = closestHex target shortlist2
                       then (d2, acc1, shortlist2, map ID batch @ queried)
                       else walk visit stop env target (Suc r) (map ID batch @ queried) shortlist2 d2 acc1)"
  by pat_completeness auto
termination
proof (relation "measure (\<lambda>(_, _, _, _, _, queried, _, _, _). card (- set queried))", goal_cases)
  case (2 visit stop env target r queried shortlist d acc batch)
  from 2(1,2) obtain c where "c \<in> set batch" "ID c \<notin> set queried"
    using pick_batch_new by (metis list.set_intros(1) neq_Nil_conv)
  then have "- set (map ID batch @ queried) \<subset> - set queried" by auto
  then show ?case by (simp add: psubset_card_mono finite_subset [OF subset_UNIV finite_NodeID])
qed simp

declare walk.simps [simp del]

subsection \<open>Lookup, store, get\<close>

definition visit_node :: "NodeID \<Rightarrow> unit visit" where
  "visit_node target e d c acc =
     (case FindNode e d c target of
        (d1, None) \<Rightarrow> (d1, acc, [])
      | (d1, Some nodes) \<Rightarrow> (d1, acc, nodes))"

definition Lookup :: "(nat \<Rightarrow> round_env) \<Rightarrow> DHT \<Rightarrow> NodeID \<Rightarrow> DHT \<times> Contact list" where
  "Lookup env d target =
     (case walk (visit_node target) (\<lambda>_. False) env target 0 [] (Closest (d_rt d) target K) d () of
        (d1, _, shortlist, _) \<Rightarrow>
          let sorted = sort_key (\<lambda>c. distanceBigInt target (ID c)) shortlist
          in (d1, if length sorted > K then take K sorted else sorted))"

datatype boot_error = ErrConnect | ErrNoHello

text \<open>\<open>connected\<close> is the result of the dial, \<open>waiting\<close> what the node does until the deadline.\<close>

definition Bootstrap :: "bool \<Rightarrow> (DHT \<Rightarrow> DHT) \<Rightarrow> (nat \<Rightarrow> round_env) \<Rightarrow> DHT \<Rightarrow> DHT \<times> boot_error option" where
  "Bootstrap connected waiting env d =
     (if \<not> connected then (d, Some ErrConnect)
      else
        let d1 = waiting d
        in if Size (d_rt d1) = 0 then (d1, Some ErrNoHello)
           else (fst (Lookup env d1 (d_self d1)), None))"

fun send_stores :: "round_env \<Rightarrow> nat \<Rightarrow> NodeID \<Rightarrow> bytes \<Rightarrow> Contact list \<Rightarrow> DHT \<Rightarrow> DHT \<times> nat" where
  "send_stores e n key v [] d = (re_among e n d, 0)"
| "send_stores e n key v (c # cs) d =
     (if Equal (ID c) (d_self d) then send_stores e n key v cs d
      else case sendStore e (re_among e n d) c key v of
             (d1, ok) \<Rightarrow>
               (case send_stores e (Suc n) key v cs d1 of
                  (d2, successes) \<Rightarrow> (d2, if ok then Suc successes else successes)))"

definition Replicate :: "(nat \<Rightarrow> round_env) \<Rightarrow> round_env \<Rightarrow> DHT \<Rightarrow> NodeID \<Rightarrow> bytes \<Rightarrow> DHT \<times> nat" where
  "Replicate env e d key v =
     (if IsBlocked d key then (d, 0)
      else case Lookup env d key of (d1, targets) \<Rightarrow> send_stores e 0 key v (re_order e targets) d1)"

definition Store :: "henv \<Rightarrow> (nat \<Rightarrow> round_env) \<Rightarrow> round_env \<Rightarrow> DHT \<Rightarrow> NodeID \<Rightarrow> bytes \<Rightarrow> local_error + DHT \<times> nat" where
  "Store h env e d key v =
     (case StoreLocal h d key v of
        Inl err \<Rightarrow> Inl err
      | Inr d1 \<Rightarrow> if IsBlocked d1 key then Inr (d1, 0) else Inr (Replicate env e d1 key v))"

datatype get_error = GetNotFound | GetEmptyTable

definition visit_value :: "NodeID \<Rightarrow> bool \<Rightarrow> bytes option visit" where
  "visit_value key verify e d c foundValue =
     (case sendFindValue e d c key of
        (d1, FoundError) \<Rightarrow> (d1, foundValue, [])
      | (d1, FoundValue v) \<Rightarrow>
          if verify \<and> \<not> Equal (ContentAddress (sha256 (re_prims e)) v) key then (d1, foundValue, [])
          else (d1, if foundValue = None then Some v else foundValue, [])
      | (d1, FoundContacts contacts) \<Rightarrow> (d1, foundValue, contacts))"

definition getInner ::
  "henv \<Rightarrow> (nat \<Rightarrow> round_env) \<Rightarrow> DHT \<Rightarrow> NodeID \<Rightarrow> bool \<Rightarrow> DHT \<times> (get_error + bytes)" where
  "getInner h env d key verify =
     (if IsBlocked d key then (d, Inl GetNotFound)
      else case store_Get (h_now h) (d_store d) key of
        (s, cached) \<Rightarrow>
          let d1 = d\<lparr>d_store := s\<rparr>;
              walked =
                (let shortlist = Closest (d_rt d1) key K
                 in if shortlist = [] then (d1, Inl GetEmptyTable)
                    else case walk (visit_value key verify) (\<lambda>f. f \<noteq> None) env key 0 [] shortlist d1 None of
                           (d2, None, _, _) \<Rightarrow> (d2, Inl GetNotFound)
                         | (d2, Some v, _, _) \<Rightarrow>
                             (if verify
                              then d2\<lparr>d_store := store_Put (h_keys h) (h_fault h) (h_now h) (d_store d2) key v\<rparr>
                              else d2, Inr v))
          in case cached of
               Some v \<Rightarrow>
                 if \<not> verify \<or> Equal (ContentAddress (sha256 (h_prims h)) v) key then (d1, Inr v) else walked
             | None \<Rightarrow> walked)"

definition visit_all :: "NodeID \<Rightarrow> bytes list visit" where
  "visit_all key e d c results =
     (case sendFindValue e d c key of
        (d1, FoundError) \<Rightarrow> (d1, results, [])
      | (d1, FoundValue v) \<Rightarrow> (d1, List.insert v results, [])
      | (d1, FoundContacts contacts) \<Rightarrow> (d1, results, contacts))"

text \<open>\<open>order\<close> is the order in which the map of results is enumerated.\<close>

definition GetAllUnverified ::
  "henv \<Rightarrow> (nat \<Rightarrow> round_env) \<Rightarrow> (bytes list \<Rightarrow> bytes list) \<Rightarrow> DHT \<Rightarrow> NodeID \<Rightarrow> DHT \<times> (get_error + bytes list)" where
  "GetAllUnverified h env order d key =
     (case store_Get (h_now h) (d_store d) key of
        (s, cached) \<Rightarrow>
          let d1 = d\<lparr>d_store := s\<rparr>;
              results = (case cached of None \<Rightarrow> [] | Some v \<Rightarrow> [v]);
              shortlist = Closest (d_rt d1) key K
          in if shortlist = [] \<and> results = [] then (d1, Inl GetEmptyTable)
             else case walk (visit_all key) (\<lambda>_. False) env key 0 [] shortlist d1 results of
                    (d2, all, _, _) \<Rightarrow>
                      if all = [] then (d2, Inl GetNotFound) else (d2, Inr (order all)))"

section \<open>Payloads\<close>

lemma to_valid_keys [simp]:
  "to_valid ''key'' = ''key''" "to_valid ''value'' = ''value''" "to_valid ''target'' = ''target''"
  "to_valid ''contacts'' = ''contacts''" "to_valid ''id'' = ''id''" "to_valid ''address'' = ''address''" "to_valid ''alt'' = ''alt''"
  by (simp_all add: ascii_def)

lemma ascii_Hex [simp]: "ascii (Hex i)"
  by (simp add: Hex_def)

lemmas payload_defs = dec_struct_def find_field_def field_def dec_string_def wire_ok_def maxNestingDepth_def

lemma dec_enc_storePayload:
  "ascii k \<Longrightarrow> ascii v \<Longrightarrow> Unmarshal dec_storePayload (print_json (enc_storePayload \<lparr>sp_Key = k, sp_Value = v\<rparr>)) zero_storePayload
   = Some \<lparr>sp_Key = k, sp_Value = v\<rparr>"
  by (subst Unmarshal_wire) (simp_all add: enc_storePayload_def dec_storePayload_def zero_storePayload_def payload_defs)

lemma dec_enc_findValuePayload [simp]:
  "Unmarshal dec_findValuePayload (print_json (enc_findValuePayload (Hex k))) [] = Some (Hex k)"
  by (subst Unmarshal_wire) (simp_all add: enc_findValuePayload_def dec_findValuePayload_def payload_defs)

lemma dec_enc_findNodePayload [simp]:
  "Unmarshal dec_findNodePayload (print_json (enc_findNodePayload (Hex k))) [] = Some (Hex k)"
  by (subst Unmarshal_wire) (simp_all add: enc_findNodePayload_def dec_findNodePayload_def payload_defs)

lemma dec_enc_valuePayload:
  "ascii v \<Longrightarrow> Unmarshal dec_valuePayload (print_json (enc_valuePayload v)) [] = Some v"
  by (subst Unmarshal_wire) (simp_all add: enc_valuePayload_def dec_valuePayload_def payload_defs)

definition contact_ok :: "Contact \<Rightarrow> bool" where
  "contact_ok c \<longleftrightarrow> utf8 (Address c) \<and> list_all utf8 (AltAddresses c)"

definition wire_contact_ok :: "wireContact \<Rightarrow> bool" where
  "wire_contact_ok w \<longleftrightarrow> utf8 (wc_ID w) \<and> utf8 (wc_Address w) \<and> list_all utf8 (wc_Alt w)"

lemma wire_ok_wireContact: "wire_contact_ok w \<Longrightarrow> wire_ok (enc_wireContact w) \<and> json_depth (enc_wireContact w) \<le> 2"
  by (simp add: wire_contact_ok_def enc_wireContact_def wire_ok_def omit_def comp_def map_utf8 maxNestingDepth_def list_all_iff)

lemma dec_enc_wireContact: "dec_wireContact (enc_wireContact w) zero_wireContact = Some w"
  by (simp add: dec_wireContact_def enc_wireContact_def omit_def dec_struct_def find_field_def field_def dec_string_def
      dec_slice_def dec_elems_strings zero_wireContact_def)

lemma dec_elems_map:
  "\<forall>x\<in>set xs. dec (enc x) zero = Some x \<Longrightarrow> dec_elems dec zero (map enc xs) [] = Some xs"
  by (induction xs) auto

lemma dec_enc_nodesPayload:
  assumes "list_all wire_contact_ok ws"
  shows "Unmarshal dec_nodesPayload (print_json (enc_nodesPayload ws)) [] = Some ws"
proof -
  have w: "\<forall>w\<in>set ws. wire_ok (enc_wireContact w) \<and> json_depth (enc_wireContact w) \<le> 2"
    using assms wire_ok_wireContact by (auto simp: list_all_iff)
  then have "foldr max (map json_depth (map enc_wireContact ws)) 0 \<le> 2" by (simp add: foldr_max_le)
  moreover have "map clean (map enc_wireContact ws) = map enc_wireContact ws" using w by (simp add: wire_ok_def)
  moreover have "list_all nums_ok (map enc_wireContact ws)" using w by (simp add: wire_ok_def list_all_iff)
  ultimately have "wire_ok (enc_nodesPayload ws)" by (simp add: enc_nodesPayload_def wire_ok_def maxNestingDepth_def)
  then have "Unmarshal dec_nodesPayload (print_json (enc_nodesPayload ws)) [] = dec_nodesPayload (enc_nodesPayload ws) []"
    by (rule Unmarshal_wire)
  then show ?thesis using dec_elems_map [of ws dec_wireContact enc_wireContact zero_wireContact]
    by (simp add: enc_nodesPayload_def dec_nodesPayload_def dec_struct_def find_field_def dec_slice_def dec_enc_wireContact)
qed

lemma read_contacts_wire:
  "read_contacts (map wire_full cs) = map (\<lambda>c. c\<lparr>LastSeen := 0\<rparr>) cs"
  "read_contacts (map wire_short cs) = map (\<lambda>c. c\<lparr>AltAddresses := [], LastSeen := 0\<rparr>) cs"
  by (induction cs) (simp_all add: wire_full_def wire_short_def)

text \<open>A message travels with another sender, request identifier and signature, but with this body.\<close>

definition same_body :: "Message \<Rightarrow> Message \<Rightarrow> bool" where
  "same_body m n \<longleftrightarrow> m_Type m = m_Type n \<and> m_Payload m = m_Payload n"

lemma mk_message_simps [simp]: "m_Type (mk_message t b) = t" "m_Payload (mk_message t b) = b" "m_ReqID (mk_message t b) = []"
  by (simp_all add: mk_message_def zero_Message_def)

text \<open>What a node answers to a request for a value, and what the requester reads.\<close>

lemma find_value_answer:
  assumes "same_body msg (find_value_request key)" "\<not> IsBlocked d key" "store_find (d_store d) key = Some v"
  shows "\<exists>d'. HandleMessage h d addr msg
    = Some (d', [Reply addr msg (mk_message ''dht_value'' (print_json (enc_valuePayload (b64_encode True v))))])"
  using assms
  by (auto simp: HandleMessage_def handleFindValue_def same_body_def find_value_request_def store_Get_def store_find_def)

lemma read_found_value:
  "same_body reply (mk_message ''dht_value'' (print_json (enc_valuePayload (b64_encode True v)))) \<Longrightarrow>
   read_found reply = FoundValue v"
  by (simp add: read_found_def same_body_def dec_enc_valuePayload)

lemma read_found_nodes:
  assumes "list_all contact_ok cs" "same_body reply (nodes_reply (map wire_short cs))"
  shows "read_found reply = FoundContacts (map (\<lambda>c. c\<lparr>AltAddresses := [], LastSeen := 0\<rparr>) cs)"
proof -
  have "list_all wire_contact_ok (map wire_short cs)"
    using assms(1) by (auto simp: list_all_iff wire_contact_ok_def wire_short_def contact_ok_def)
  then show ?thesis using assms(2)
    by (simp add: read_found_def same_body_def nodes_reply_def dec_enc_nodesPayload read_contacts_wire)
qed

section \<open>The loop\<close>

text \<open>How a walk ends, from the state at the head of its last round.\<close>

definition walk_ends ::
  "'a visit \<Rightarrow> ('a \<Rightarrow> bool) \<Rightarrow> (nat \<Rightarrow> round_env) \<Rightarrow> NodeID \<Rightarrow> nat \<Rightarrow> NodeID list \<Rightarrow> Contact list \<Rightarrow> DHT \<Rightarrow> 'a
   \<Rightarrow> DHT \<times> 'a \<times> Contact list \<times> NodeID list \<Rightarrow> bool" where
  "walk_ends visit stop env target r queried shortlist d acc res \<longleftrightarrow>
     (let batch = pick_batch queried shortlist
      in if batch = [] then res = (d, acc, shortlist, queried)
         else case run_visits visit (env r) 0 (re_order (env r) batch) d acc of
                (d1, acc1, learned) \<Rightarrow>
                  let d2 = hint_learned d1 learned; shortlist2 = Closest (d_rt d2) target K
                  in if stop acc1 then res = (d1, acc1, shortlist, map ID batch @ queried)
                     else closestHex target shortlist = closestHex target shortlist2
                          \<and> res = (d2, acc1, shortlist2, map ID batch @ queried))"

lemma card_unqueried:
  assumes "pick_batch queried shortlist \<noteq> []"
  shows "card (- set (map ID (pick_batch queried shortlist) @ queried)) < card (- set queried)"
proof -
  obtain c where "c \<in> set (pick_batch queried shortlist)" using assms by (metis list.set_intros(1) neq_Nil_conv)
  then have "- set (map ID (pick_batch queried shortlist) @ queried) \<subset> - set queried"
    using pick_batch_new [of c queried shortlist] by auto
  then show ?thesis by (simp add: psubset_card_mono finite_subset [OF subset_UNIV finite_NodeID])
qed

lemma walk_exit:
  assumes "I r queried shortlist d acc"
    and step: "\<And>r queried shortlist d acc d1 acc1 learned.
      I r queried shortlist d acc \<Longrightarrow> pick_batch queried shortlist \<noteq> [] \<Longrightarrow>
      run_visits visit (env r) 0 (re_order (env r) (pick_batch queried shortlist)) d acc = (d1, acc1, learned) \<Longrightarrow>
      \<not> stop acc1 \<Longrightarrow>
      I (Suc r) (map ID (pick_batch queried shortlist) @ queried)
        (Closest (d_rt (hint_learned d1 learned)) target K) (hint_learned d1 learned) acc1"
  shows "\<exists>r' q' s' d' a'. I r' q' s' d' a' \<and>
    walk_ends visit stop env target r' q' s' d' a' (walk visit stop env target r queried shortlist d acc)"
  using assms(1)
proof (induction "card (- set queried)" arbitrary: r queried shortlist d acc rule: less_induct)
  case less
  let ?b = "pick_batch queried shortlist"
  obtain d1 acc1 learned where v: "run_visits visit (env r) 0 (re_order (env r) ?b) d acc = (d1, acc1, learned)"
    by (metis prod_cases3)
  let ?d2 = "hint_learned d1 learned"
  let ?s2 = "Closest (d_rt ?d2) target K"
  show ?case
  proof (cases "?b \<noteq> [] \<and> \<not> stop acc1 \<and> closestHex target shortlist \<noteq> closestHex target ?s2")
    case True
    then have "walk visit stop env target r queried shortlist d acc
        = walk visit stop env target (Suc r) (map ID ?b @ queried) ?s2 ?d2 acc1"
      by (subst walk.simps) (simp add: v Let_def)
    with less.hyps [OF card_unqueried step [OF less.prems _ v]] True show ?thesis by auto
  next
    case False
    then have "walk_ends visit stop env target r queried shortlist d acc (walk visit stop env target r queried shortlist d acc)"
      unfolding walk_ends_def by (subst (1 2 3) walk.simps) (auto simp: v Let_def)
    with less.prems show ?thesis by blast
  qed
qed

text \<open>
  The contract between the loop and the request it sends. An invariant of the state and of what has
  been found so far, kept by one request, by whatever else the node does, and by hinting a contact
  with the property the learned contacts have, holds when the loop ends.
\<close>

locale walk_invariant =
  fixes visit :: "'a visit"
    and env :: "nat \<Rightarrow> round_env"
    and Q :: "DHT \<Rightarrow> 'a \<Rightarrow> bool"
    and L :: "Contact \<Rightarrow> bool"
  assumes visit_inv: "Q d acc \<Longrightarrow> L c \<Longrightarrow> visit (env r) d c acc = (d1, acc1, nodes) \<Longrightarrow> Q d1 acc1 \<and> list_all L nodes"
    and among_inv: "Q d acc \<Longrightarrow> Q (re_among (env r) n d) acc"
    and hint_inv: "Q d acc \<Longrightarrow> L c \<Longrightarrow> Q (d\<lparr>d_rt := Hint (d_rt d) c\<rparr>) acc"
    and order_inv: "list_all L b \<Longrightarrow> list_all L (re_order (env r) b)"
    and table_inv: "Q d acc \<Longrightarrow> list_all L (All_rt (d_rt d))"
begin

lemma run_visits_inv:
  "run_visits visit (env r) n cs d acc = (d1, acc1, learned) \<Longrightarrow> Q d acc \<Longrightarrow> list_all L cs \<Longrightarrow> Q d1 acc1 \<and> list_all L learned"
proof (induction cs arbitrary: n d acc d1 acc1 learned)
  case (Cons c cs)
  obtain d2 acc2 nodes where v: "visit (env r) (re_among (env r) n d) c acc = (d2, acc2, nodes)" by (metis prod_cases3)
  obtain d3 acc3 rest where w: "run_visits visit (env r) (Suc n) cs d2 acc2 = (d3, acc3, rest)" by (metis prod_cases3)
  have "Q d2 acc2 \<and> list_all L nodes" using visit_inv [OF among_inv _ v] Cons.prems(2,3) by simp
  with Cons.IH [OF w] Cons.prems(1,3) show ?case by (auto simp: v w)
qed (auto intro: among_inv)

lemma hint_learned_inv: "list_all L learned \<Longrightarrow> Q d acc \<Longrightarrow> Q (hint_learned d learned) acc"
  unfolding hint_learned_def by (induction learned arbitrary: d) (auto intro: hint_inv)

definition queried_ok :: "NodeID list \<Rightarrow> bool" where
  "queried_ok q \<longleftrightarrow> set q \<subseteq> {i. \<exists>c. L c \<and> ID c = i}"

definition loop_inv :: "NodeID list \<Rightarrow> Contact list \<Rightarrow> DHT \<Rightarrow> 'a \<Rightarrow> bool" where
  "loop_inv q s d acc \<longleftrightarrow> Q d acc \<and> list_all L s \<and> queried_ok q"

lemma list_all_Closest: "Q d acc \<Longrightarrow> list_all L (Closest (d_rt d) target n)"
  using table_inv [of d acc] set_Closest [of "d_rt d" target n] by (auto simp: list_all_iff)

lemma list_all_batch: "list_all L s \<Longrightarrow> list_all L (pick_batch q s)"
  by (auto simp: list_all_iff dest!: pick_batch_new)

lemma loop_round:
  assumes "loop_inv q s d acc"
    and "run_visits visit (env r) 0 (re_order (env r) (pick_batch q s)) d acc = (d1, acc1, learned)"
  shows "Q d1 acc1" "loop_inv (map ID (pick_batch q s) @ q)
    (Closest (d_rt (hint_learned d1 learned)) target K) (hint_learned d1 learned) acc1"
proof -
  have b: "list_all L (pick_batch q s)" using assms(1) by (simp add: loop_inv_def list_all_batch)
  then have q: "queried_ok (map ID (pick_batch q s) @ q)"
    using assms(1) by (auto simp: loop_inv_def queried_ok_def list_all_iff)
  have "Q d1 acc1 \<and> list_all L learned"
    using run_visits_inv [OF assms(2)] order_inv [OF b] assms(1) by (simp add: loop_inv_def)
  with q hint_learned_inv list_all_Closest show "Q d1 acc1" "loop_inv (map ID (pick_batch q s) @ q)
    (Closest (d_rt (hint_learned d1 learned)) target K) (hint_learned d1 learned) acc1"
    unfolding loop_inv_def by blast+
qed

lemma walk_inv:
  assumes "walk visit stop env target r q s d acc = (d', acc', s', q')" "Q d acc" "list_all L s" "queried_ok q"
  shows "Q d' acc'" "queried_ok q'"
proof -
  have "\<exists>r q s d0 a. loop_inv q s d0 a \<and> walk_ends visit stop env target r q s d0 a (d', acc', s', q')"
    unfolding assms(1) [symmetric]
    by (rule walk_exit [where I = "\<lambda>_. loop_inv"]) (use assms(2-4) loop_round in \<open>auto simp: loop_inv_def\<close>)
  then obtain r q s d0 a where i: "loop_inv q s d0 a" and e: "walk_ends visit stop env target r q s d0 a (d', acc', s', q')"
    by blast
  obtain d1 acc1 learned where v: "run_visits visit (env r) 0 (re_order (env r) (pick_batch q s)) d0 a = (d1, acc1, learned)"
    by (metis prod_cases3)
  from loop_round [OF i v] i e show "Q d' acc'" "queried_ok q'"
    by (auto simp: walk_ends_def v Let_def loop_inv_def split: if_splits)
qed

lemma walk_start:
  assumes "walk visit stop env target r [] (Closest (d_rt d) target K) d acc = (d', acc', s', q')" "Q d acc"
  shows "Q d' acc'" "queried_ok q'"
  using walk_inv [OF assms list_all_Closest [OF assms(2)]] by (auto simp: queried_ok_def)

end


section \<open>The loops of the source\<close>

text \<open>What the rounds may do: complete their requests in any order, and meanwhile anything a node does.\<close>

definition env_ok :: "(nat \<Rightarrow> round_env) \<Rightarrow> bool" where
  "env_ok env \<longleftrightarrow> (\<forall>r b. mset (re_order (env r) b) = mset b) \<and> (\<forall>r n d. dht_changes d (re_among (env r) n d))"

lemma sendFindValue_changes: "sendFindValue e d c key = (d1, f) \<Longrightarrow> dht_changes d d1"
  by (auto simp: sendFindValue_def intro: ch_update split: sum.splits)

lemma visit_changes:
  "visit_node target e d c u = (d1, u1, nodes) \<Longrightarrow> dht_changes d d1"
  "visit_value key verify e d c f = (d1, f1, nodes) \<Longrightarrow> dht_changes d d1"
  "visit_all key e d c rs = (d1, rs1, nodes) \<Longrightarrow> dht_changes d d1"
  by (auto simp: visit_node_def visit_value_def visit_all_def FindNode_def intro: ch_update
      split: sum.splits option.splits prod.splits found.splits if_splits dest!: sendFindValue_changes)

lemma hint_changes: "dht_changes d0 d \<Longrightarrow> dht_changes d0 (d\<lparr>d_rt := Hint (d_rt d) c\<rparr>)"
  using ch_hint [of d c] by (rule rtranclp.rtrancl_into_rtrancl [rotated])

lemma among_changes: "env_ok env \<Longrightarrow> dht_changes d0 d \<Longrightarrow> dht_changes d0 (re_among (env r) n d)"
  unfolding env_ok_def by (metis rtranclp_trans)

interpretation lookup_changes: walk_invariant "visit_node target" env "\<lambda>d _. env_ok env \<longrightarrow> dht_changes d0 d" "\<lambda>_. True"
  for target env d0
  by unfold_locales (auto intro: hint_changes among_changes dest!: visit_changes simp: list_all_iff)

interpretation value_changes: walk_invariant "visit_value key verify" env "\<lambda>d _. env_ok env \<longrightarrow> dht_changes d0 d" "\<lambda>_. True"
  for key verify env d0
  by unfold_locales (auto intro: hint_changes among_changes dest!: visit_changes simp: list_all_iff)

interpretation all_changes: walk_invariant "visit_all key" env "\<lambda>d _. env_ok env \<longrightarrow> dht_changes d0 d" "\<lambda>_. True"
  for key env d0
  by unfold_locales (auto intro: hint_changes among_changes dest!: visit_changes simp: list_all_iff)

text \<open>Everything that is found has the content the key asks for.\<close>

interpretation value_verified: walk_invariant "visit_value key verify" env
  "\<lambda>_ f. verify \<longrightarrow> (\<forall>v. f = Some v \<longrightarrow> (\<exists>r. ContentAddress (sha256 (re_prims (env r))) v = key))" "\<lambda>_. True"
  for key verify env
  by unfold_locales (auto simp: visit_value_def list_all_iff split: prod.splits found.splits if_splits)

lemma Lookup_changes: "env_ok env \<Longrightarrow> Lookup env d target = (d', cs) \<Longrightarrow> dht_changes d d'"
  using lookup_changes.walk_start(1) [of target "\<lambda>_. False" env target 0 d "()" _ _ _ _ d]
  by (auto simp: Lookup_def Let_def split: prod.splits)

lemma sendStore_changes: "sendStore e d c key v = (d1, ok) \<Longrightarrow> dht_changes d d1"
  by (auto simp: sendStore_def intro: ch_update split: sum.splits if_splits)

lemma send_stores_changes:
  "send_stores (env r) n key v cs d = (d', k) \<Longrightarrow> env_ok env \<Longrightarrow> dht_changes d0 d \<Longrightarrow> dht_changes d0 d'"
proof (induction cs arbitrary: n d d' k)
  case (Cons c cs)
  obtain d1 ok where s: "sendStore (env r) (re_among (env r) n d) c key v = (d1, ok)" by fastforce
  have "dht_changes d0 d1"
    using sendStore_changes [OF s] among_changes [OF Cons.prems(2,3), of r n] by (rule rtranclp_trans [rotated])
  with Cons s show ?case by (auto split: if_splits prod.splits)
qed (auto intro: among_changes)

lemma Replicate_changes:
  assumes "env_ok env" "env_ok (\<lambda>_. e)" "Replicate env e d key v = (d', n)"
  shows "dht_changes d d'"
proof (cases "IsBlocked d key")
  case False
  obtain d1 cs where l: "Lookup env d key = (d1, cs)" by fastforce
  with False assms(3) have "send_stores e 0 key v (re_order e cs) d1 = (d', n)" by (simp add: Replicate_def)
  from send_stores_changes [of "\<lambda>_. e" 0, OF this assms(2) Lookup_changes [OF assms(1) l]] show ?thesis .
qed (use assms(3) in \<open>simp add: Replicate_def\<close>)

subsection \<open>The result of a lookup\<close>

lemma closestHex_Closest: "Closest t target n = c # cs \<Longrightarrow> closestHex target (Closest t target n) = Hex (ID c)"
proof -
  assume c: "Closest t target n = c # cs"
  then have "\<forall>e\<in>set cs. \<not> DistanceLess target (ID e) (ID c)"
    using Closest_sorted [of target t n] by (auto simp: DistanceLess_iff not_less)
  then have "foldl (\<lambda>best c. if DistanceLess target (ID c) (ID best) then c else best) c cs = c"
    by (induction cs) auto
  then show ?thesis by (simp add: c closestHex_def)
qed

lemma pick_batch_Nil: "pick_batch q s = [] \<longleftrightarrow> (\<forall>c\<in>set s. ID c \<in> set q)"
  by (auto simp: pick_batch_def Alpha_def filter_empty_conv)

lemma hd_asked: "s \<noteq> [] \<Longrightarrow> ID (hd s) \<in> set (map ID (pick_batch q s) @ q)"
  by (cases s) (auto simp: pick_batch_def Alpha_def)

lemma walk_result:
  assumes "walk visit (\<lambda>_. False) env target r [] (Closest (d_rt d) target K) d acc = (d', acc', s', q')"
  shows "s' = Closest (d_rt d') target K" and "s' \<noteq> [] \<Longrightarrow> ID (hd s') \<in> set q'"
proof -
  have "\<exists>r q s d0 a. s = Closest (d_rt d0) target K \<and> walk_ends visit (\<lambda>_. False) env target r q s d0 a (d', acc', s', q')"
    unfolding assms [symmetric] by (rule walk_exit [where I = "\<lambda>_ _ s d _. s = Closest (d_rt d) target K"]) auto
  then obtain r q d0 a where e: "walk_ends visit (\<lambda>_. False) env target r q (Closest (d_rt d0) target K) d0 a (d', acc', s', q')"
    by blast
  let ?s = "Closest (d_rt d0) target K"
  obtain d1 acc1 learned where v: "run_visits visit (env r) 0 (re_order (env r) (pick_batch q ?s)) d0 a = (d1, acc1, learned)"
    by (metis prod_cases3)
  from e show s': "s' = Closest (d_rt d') target K" by (auto simp: walk_ends_def v Let_def split: if_splits)
  assume ne: "s' \<noteq> []"
  show "ID (hd s') \<in> set q'"
  proof (cases "pick_batch q ?s = []")
    case True
    then show ?thesis using e ne by (auto simp: walk_ends_def pick_batch_Nil)
  next
    case False
    then have "?s \<noteq> []" by (auto simp: pick_batch_def)
    moreover have "closestHex target ?s = closestHex target s'" "q' = map ID (pick_batch q ?s) @ q"
      using e False by (auto simp: walk_ends_def v Let_def)
    ultimately have "ID (hd ?s) = ID (hd s')"
      using closestHex_Closest ne unfolding s' by (metis Hex_inj list.collapse)
    then show ?thesis using hd_asked [OF \<open>?s \<noteq> []\<close>, of q] \<open>q' = _\<close> by simp
  qed
qed

lemma Lookup_result:
  assumes "Lookup env d target = (d', cs)"
  shows "cs = Closest (d_rt d') target K"
proof -
  obtain u s' q' where w: "walk (visit_node target) (\<lambda>_. False) env target 0 [] (Closest (d_rt d) target K) d () = (d', u, s', q')"
    using assms by (auto simp: Lookup_def Let_def split: prod.splits)
  then have s': "s' = Closest (d_rt d') target K" by (rule walk_result(1))
  have "sort_key (\<lambda>c. distanceBigInt target (ID c)) s' = s'"
    unfolding s' by (rule sort_key_id_if_sorted [OF Closest_sorted])
  moreover have "length s' \<le> K" by (simp add: s')
  ultimately have "cs = s'" using assms w by (auto simp: Lookup_def Let_def)
  with s' show ?thesis by simp
qed

subsection \<open>The cost of a lookup\<close>

lemma walk_length:
  assumes "walk visit stop env target r [] s d acc = (d', acc', s', q')"
  shows "length q' \<le> Alpha * card (set q')"
proof -
  let ?I = "\<lambda>q. length q \<le> Alpha * card (set q)"
  have round: "?I (map ID (pick_batch q s) @ q)" if I: "?I q" and b: "pick_batch q s \<noteq> []" for q :: "NodeID list" and s
  proof -
    obtain c where "c \<in> set (pick_batch q s)" using b by (metis list.set_intros(1) neq_Nil_conv)
    then have "ID c \<in> set (map ID (pick_batch q s) @ q)" "ID c \<notin> set q" using pick_batch_new by auto
    then have "Suc (card (set q)) \<le> card (set (map ID (pick_batch q s) @ q))"
      by (intro Suc_leI psubset_card_mono) auto
    then have "Alpha + Alpha * card (set q) \<le> Alpha * card (set (map ID (pick_batch q s) @ q))"
      by (metis mult_Suc_right mult_le_mono2)
    moreover have "length (pick_batch q s) \<le> Alpha" by (simp add: pick_batch_def)
    ultimately show ?thesis using I by simp
  qed
  have "\<exists>r q s d0 a. ?I q \<and> walk_ends visit stop env target r q s d0 a (d', acc', s', q')"
    unfolding assms [symmetric] by (rule walk_exit [where I = "\<lambda>_ q _ _ _. ?I q"]) (simp, blast intro: round)
  then obtain r q s d0 a where "?I q" and e: "walk_ends visit stop env target r q s d0 a (d', acc', s', q')" by blast
  from e have "q' = q \<or> pick_batch q s \<noteq> [] \<and> q' = map ID (pick_batch q s) @ q"
    by (auto simp: walk_ends_def Let_def split: if_splits prod.splits)
  with round [OF \<open>?I q\<close>, of s] \<open>?I q\<close> show ?thesis by auto
qed

text \<open>A network in which only the identifiers of \<open>U\<close> are ever named.\<close>

definition table_ids :: "DHT \<Rightarrow> NodeID set" where
  "table_ids d = ID ` set (All_rt (d_rt d))"

definition net_within :: "NodeID set \<Rightarrow> (nat \<Rightarrow> round_env) \<Rightarrow> bool" where
  "net_within U env \<longleftrightarrow> env_ok env
     \<and> (\<forall>r addr m reply wcs. re_net (env r) addr m = Inr reply \<longrightarrow>
          Unmarshal dec_nodesPayload (m_Payload reply) [] = Some wcs \<longrightarrow> ID ` set (read_contacts wcs) \<subseteq> U)
     \<and> (\<forall>r n d. table_ids d \<subseteq> U \<longrightarrow> table_ids (re_among (env r) n d) \<subseteq> U)"

lemma set_buckets_update: "set (concat (bs[i := b])) \<subseteq> set b \<union> set (concat bs)"
  using set_update_subset_insert [of bs i b] by auto

lemma bucket_in_concat: "i < length bs \<Longrightarrow> set (bs ! i) \<subseteq> set (concat bs)"
  by (auto intro: nth_mem)

lemma Update_ids: "rt_inv t \<Longrightarrow> ID ` set (All_rt (fst (Update t now c))) \<subseteq> insert (ID c) (ID ` set (All_rt t))"
proof (cases "ID c = self t")
  case False
  assume inv: "rt_inv t"
  let ?i = "CommonPrefixLen (self t) (ID c)"
  have b: "set (buckets t ! ?i) \<subseteq> set (concat (buckets t))"
    using bucket_index_less [OF False] inv by (intro bucket_in_concat) simp
  have "ID ` set (concat ((buckets t)[?i := b'])) \<subseteq> insert (ID c) (ID ` set (concat (buckets t)))"
    if "ID ` set b' \<subseteq> insert (ID c) (ID ` set (buckets t ! ?i))" for b'
    using set_buckets_update [of "buckets t" ?i b'] that b by blast
  moreover have "fst (Update t now c) = t \<or> (\<exists>b'. fst (Update t now c) = set_bucket t ?i b'
      \<and> ID ` set b' \<subseteq> insert (ID c) (ID ` set (buckets t ! ?i)))"
  proof (cases "find (\<lambda>e. Equal (ID e) (ID c)) (buckets t ! ?i)")
    case None
    have "ID ` set (buckets t ! ?i @ [c\<lparr>LastSeen := now\<rparr>]) \<subseteq> insert (ID c) (ID ` set (buckets t ! ?i))" by auto
    moreover have "fst (Update t now c) \<in> {t, set_bucket t ?i (buckets t ! ?i @ [c\<lparr>LastSeen := now\<rparr>])}"
      using None False by (simp add: Update_def Let_def)
    ultimately show ?thesis by blast
  next
    case (Some e)
    have "ID ` set (remove_first P (buckets t ! ?i) @ [mergeAddresses (c\<lparr>LastSeen := now\<rparr>) e])
        \<subseteq> insert (ID c) (ID ` set (buckets t ! ?i))" for P
      using set_remove_first [of P "buckets t ! ?i"] by auto
    moreover have "fst (Update t now c) = set_bucket t ?i
        (remove_first (\<lambda>e. Equal (ID e) (ID c)) (buckets t ! ?i) @ [mergeAddresses (c\<lparr>LastSeen := now\<rparr>) e])"
      using Some False by (simp add: Update_def Let_def)
    ultimately show ?thesis by blast
  qed
  ultimately show ?thesis unfolding All_rt_concat by (metis buckets_set_bucket subset_insertI)
qed (auto simp: Update_def)

lemma Hint_ids: "rt_inv t \<Longrightarrow> ID ` set (All_rt (Hint t c)) \<subseteq> insert (ID c) (ID ` set (All_rt t))"
proof (cases "ID c = self t")
  case False
  assume inv: "rt_inv t"
  let ?i = "CommonPrefixLen (self t) (ID c)"
  have b: "set (buckets t ! ?i) \<subseteq> set (concat (buckets t))"
    using bucket_index_less [OF False] inv by (intro bucket_in_concat) simp
  let ?b' = "c\<lparr>LastSeen := 0\<rparr> # buckets t ! ?i"
  have "set (concat ((buckets t)[?i := ?b'])) \<subseteq> insert (c\<lparr>LastSeen := 0\<rparr>) (set (concat (buckets t)))"
    using set_buckets_update [of "buckets t" ?i ?b'] b by (simp only: list.set) blast
  then have "ID ` set (concat ((buckets t)[?i := ?b'])) \<subseteq> ID ` insert (c\<lparr>LastSeen := 0\<rparr>) (set (concat (buckets t)))"
    by (rule image_mono)
  moreover have "Hint t c \<in> {t, set_bucket t ?i ?b'}"
    using False by (simp add: Hint_def Let_def split: option.split)
  moreover have "ID ` insert (c\<lparr>LastSeen := 0\<rparr>) (set (concat (buckets t))) = insert (ID c) (ID ` set (concat (buckets t)))"
    by simp
  ultimately show ?thesis unfolding All_rt_concat by (metis buckets_set_bucket empty_iff insert_iff subset_insertI)
qed (auto simp: Hint_def)

lemma dht_inv_rt: "dht_inv s d \<Longrightarrow> rt_inv (d_rt d)"
  by (simp add: dht_inv_def rt_state_inv_def)

lemma FindNode_ids:
  assumes "FindNode e d c target = (d1, res)" "rt_inv (d_rt d)" "table_ids d \<subseteq> U" "ID c \<in> U"
    and "\<And>addr m reply wcs. re_net e addr m = Inr reply \<Longrightarrow> Unmarshal dec_nodesPayload (m_Payload reply) [] = Some wcs \<Longrightarrow>
      ID ` set (read_contacts wcs) \<subseteq> U"
  shows "table_ids d1 \<subseteq> U" and "\<And>nodes. res = Some nodes \<Longrightarrow> ID ` set nodes \<subseteq> U"
proof -
  have u: "table_ids (rt_Update (re_now e) d c) \<subseteq> U"
    unfolding table_ids_def rt_Update_simps
    by (rule order_trans [OF Update_ids [OF assms(2)]]) (use assms(3,4) in \<open>simp add: table_ids_def\<close>)
  have req: "\<exists>addr. re_net e addr m = Inr reply" if "requestContact (re_net e) c m = Inr reply" for m reply
  proof -
    have "request_loop (re_net e) m err addrs = Inr reply \<Longrightarrow> \<exists>addr. re_net e addr m = Inr reply" for err addrs
      by (induction addrs arbitrary: err) (auto split: sum.splits)
    then show ?thesis using that by (auto simp: requestContact_def Let_def split: if_splits)
  qed
  show "table_ids d1 \<subseteq> U" using assms(1,3) u by (auto simp: FindNode_def split: sum.splits if_splits option.splits)
  show "ID ` set nodes \<subseteq> U" if "res = Some nodes" for nodes
    using assms(1) that req assms(5)
    by (auto simp: FindNode_def split: sum.splits if_splits option.splits) (meson image_subset_iff req assms(5))
qed

interpretation lookup_within: walk_invariant "visit_node target" env
  "\<lambda>d _. net_within U env \<longrightarrow> dht_inv s d \<and> table_ids d \<subseteq> U" "\<lambda>c. net_within U env \<longrightarrow> ID c \<in> U"
  for target env U s
proof (unfold_locales, goal_cases)
  case (1 d acc c r d1 acc1 nodes)
  show ?case
  proof (cases "net_within U env")
    case True
    then have n: "re_net (env r) addr m = Inr reply \<Longrightarrow> Unmarshal dec_nodesPayload (m_Payload reply) [] = Some wcs \<Longrightarrow>
      ID ` set (read_contacts wcs) \<subseteq> U" for addr m reply wcs unfolding net_within_def by blast
    obtain res where f: "FindNode (env r) d c target = (d1, res)" "nodes = (case res of None \<Rightarrow> [] | Some ns \<Rightarrow> ns)"
      using 1(3) by (auto simp: visit_node_def split: prod.splits option.splits)
    have "table_ids d1 \<subseteq> U" "ID ` set nodes \<subseteq> U"
      using FindNode_ids [OF f(1) dht_inv_rt _ _ n] 1(1,2) True f(2) by (auto split: option.splits)
    moreover have "dht_inv s d1" using dht_runs.run_inv [OF visit_changes(1) [OF 1(3)]] 1(1) True by blast
    ultimately show ?thesis by (auto simp: list_all_iff)
  qed (simp add: list_all_iff)
next
  case (2 d acc r n)
  show ?case
  proof
    assume w: "net_within U env"
    then have "dht_changes d (re_among (env r) n d)" by (simp add: net_within_def env_ok_def)
    with 2 w have "dht_inv s (re_among (env r) n d)" by (simp add: dht_runs.run_inv)
    with 2 w show "dht_inv s (re_among (env r) n d) \<and> table_ids (re_among (env r) n d) \<subseteq> U" by (simp add: net_within_def)
  qed
next
  case (3 d acc c)
  show ?case
  proof
    assume "net_within U env"
    then have "dht_inv s d" "table_ids d \<subseteq> U" "ID c \<in> U" using 3 by auto
    then show "dht_inv s (d\<lparr>d_rt := Hint (d_rt d) c\<rparr>) \<and> table_ids (d\<lparr>d_rt := Hint (d_rt d) c\<rparr>) \<subseteq> U"
      using dht_change_inv [OF ch_hint] order_trans [OF Hint_ids [OF dht_inv_rt, of s d c]] by (simp add: table_ids_def)
  qed
next
  case (4 b r)
  have "net_within U env \<Longrightarrow> set (re_order (env r) b) = set b"
    by (rule mset_eq_setD) (simp add: net_within_def env_ok_def)
  with 4 show ?case by (auto simp: list_all_iff)
next
  case (5 d acc)
  then show ?case by (auto simp: list_all_iff table_ids_def)
qed

lemma env_ok_set: "env_ok env \<Longrightarrow> set (re_order (env r) b) = set b"
  by (rule mset_eq_setD) (simp add: env_ok_def)

subsection \<open>Reading a value\<close>

lemma visit_value_keeps: "visit_value key verify e d c (Some v) = (d1, f1, nodes) \<Longrightarrow> f1 = Some v"
  by (auto simp: visit_value_def split: prod.splits found.splits if_splits)

lemma run_visits_keeps: "run_visits (visit_value key verify) e n cs d (Some v) = (d1, f1, learned) \<Longrightarrow> f1 = Some v"
  by (induction cs arbitrary: n d d1 f1 learned) (auto split: prod.splits dest!: visit_value_keeps)

lemma run_visits_finds:
  assumes "run_visits (visit_value key verify) e n cs d f = (d1, f1, learned)" "c \<in> set cs"
    and "requestContact (re_net e) c (find_value_request key) = Inr reply" "read_found reply = FoundValue v"
    and "ContentAddress (sha256 (re_prims e)) v = key"
  shows "f1 \<noteq> None"
  using assms(1,2)
proof (induction cs arbitrary: n d f d1 f1 learned)
  case (Cons a cs)
  obtain d2 f2 nodes where v: "visit_value key verify e (re_among e n d) a f = (d2, f2, nodes)" by (metis prod_cases3)
  obtain d3 f3 rest where w: "run_visits (visit_value key verify) e (Suc n) cs d2 f2 = (d3, f3, rest)" by (metis prod_cases3)
  have f1: "f1 = f3" using Cons.prems(1) by (simp add: v w)
  show ?case
  proof (cases "a = c")
    case True
    then have "f2 \<noteq> None" using v assms(3-5) by (auto simp: visit_value_def sendFindValue_def split: if_splits)
    then show ?thesis using run_visits_keeps w f1 by blast
  next
    case False
    then show ?thesis using Cons.IH [OF w] Cons.prems(2) f1 by simp
  qed
qed simp

lemma getInner_walks:
  assumes "\<not> IsBlocked d key" "store_find (d_store d) key = None" "Closest (d_rt d) key K \<noteq> []"
  shows "getInner h env d key verify =
    (case walk (visit_value key verify) (\<lambda>f. f \<noteq> None) env key 0 [] (Closest (d_rt d) key K) d None of
       (d2, None, _, _) \<Rightarrow> (d2, Inl GetNotFound)
     | (d2, Some v, _, _) \<Rightarrow>
         (if verify then d2\<lparr>d_store := store_Put (h_keys h) (h_fault h) (h_now h) (d_store d2) key v\<rparr> else d2, Inr v))"
proof -
  have "store_Get (h_now h) (d_store d) key = (d_store d, None)"
    using assms(2) by (simp add: store_Get_def store_find_def)
  moreover have "d\<lparr>d_store := d_store d\<rparr> = d" by simp
  ultimately show ?thesis using assms(1,3) by (simp add: getInner_def Let_def)
qed

lemma getInner_finds:
  assumes "\<not> IsBlocked d key" "store_find (d_store d) key = None"
    and "set (pick_batch [] (Closest (d_rt d) key K)) \<subseteq> set (re_order (env 0) (pick_batch [] (Closest (d_rt d) key K)))"
    and "c \<in> set (take Alpha (Closest (d_rt d) key K))"
    and "requestContact (re_net (env 0)) c (find_value_request key) = Inr reply" "read_found reply = FoundValue v"
    and "ContentAddress (sha256 (re_prims (env 0))) v = key"
  shows "\<exists>d2 w s q. getInner h env d key True
      = (d2\<lparr>d_store := store_Put (h_keys h) (h_fault h) (h_now h) (d_store d2) key w\<rparr>, Inr w)
    \<and> walk (visit_value key True) (\<lambda>f. f \<noteq> None) env key 0 [] (Closest (d_rt d) key K) d None = (d2, Some w, s, q)
    \<and> (\<exists>learned. run_visits (visit_value key True) (env 0) 0
        (re_order (env 0) (pick_batch [] (Closest (d_rt d) key K))) d None = (d2, Some w, learned))"
proof -
  let ?s = "Closest (d_rt d) key K"
  have c: "c \<in> set (pick_batch [] ?s)" using assms(4) by (simp add: pick_batch_def)
  then have ne: "?s \<noteq> []" "pick_batch [] ?s \<noteq> []" by (auto simp: pick_batch_def Alpha_def)
  obtain d1 f1 learned where v: "run_visits (visit_value key True) (env 0) 0 (re_order (env 0) (pick_batch [] ?s)) d None = (d1, f1, learned)"
    by (metis prod_cases3)
  obtain w where w: "f1 = Some w" using run_visits_finds [OF v _ assms(5-7)] assms(3) c by auto
  then have wk: "walk (visit_value key True) (\<lambda>f. f \<noteq> None) env key 0 [] ?s d None = (d1, Some w, ?s, map ID (pick_batch [] ?s))"
    using ne v by (subst walk.simps) (simp add: Let_def)
  then have "getInner h env d key True = (d1\<lparr>d_store := store_Put (h_keys h) (h_fault h) (h_now h) (d_store d1) key w\<rparr>, Inr w)"
    using getInner_walks [OF assms(1,2) ne(1)] by simp
  with v w wk show ?thesis by blast
qed

lemma store_Put_find: "store_find (store_Put ks fault now s key v) key = Some v"
proof -
  have "snd (put ks fault now s key v [])" by (simp add: put_cases put_locked_def over_quota_def Let_def)
  then show ?thesis using store.put_same [of "(ks, fault, now, [])" s key v "fst (put ks fault now s key v [])"]
    by (simp add: store_Put_def prod_eq_iff)
qed

lemma getInner_state:
  "fst (getInner h env d key False) \<in>
     {d, d\<lparr>d_store := fst (store_Get (h_now h) (d_store d) key)\<rparr>,
      fst (walk (visit_value key False) (\<lambda>f. f \<noteq> None) env key 0 []
        (Closest (d_rt (d\<lparr>d_store := fst (store_Get (h_now h) (d_store d) key)\<rparr>)) key K)
        (d\<lparr>d_store := fst (store_Get (h_now h) (d_store d) key)\<rparr>) None)}"
  by (cases "store_Get (h_now h) (d_store d) key") (simp add: getInner_def Let_def split: prod.split option.split)

lemma GetAllUnverified_state:
  "\<exists>f0. fst (GetAllUnverified h env order d key) \<in>
     {d\<lparr>d_store := fst (store_Get (h_now h) (d_store d) key)\<rparr>,
      fst (walk (visit_all key) (\<lambda>_. False) env key 0 []
        (Closest (d_rt (d\<lparr>d_store := fst (store_Get (h_now h) (d_store d) key)\<rparr>)) key K)
        (d\<lparr>d_store := fst (store_Get (h_now h) (d_store d) key)\<rparr>) f0)}"
  by (rule exI [of _ "case snd (store_Get (h_now h) (d_store d) key) of None \<Rightarrow> [] | Some v \<Rightarrow> [v]"],
      cases "store_Get (h_now h) (d_store d) key")
     (simp add: GetAllUnverified_def Let_def split: prod.split option.split)

section \<open>Properties\<close>

text \<open>
  C6: \<open>Lookup\<close> returns the closest contacts it knows when it ends. Whatever the network answers
  and whatever else the node does meanwhile, the result is the \<open>K\<close> (or all) contacts of the final
  routing table that are closest to the target, in the order of their distance; and the closest
  one of them was asked during this lookup.
\<close>

theorem Lookup_spec:
  assumes "Lookup env d target = (d', cs)"
  shows "length cs = min K (Size (d_rt d')) \<and> sorted (map (\<lambda>c. distanceBigInt target (ID c)) cs)
    \<and> set cs \<subseteq> set (All_rt (d_rt d'))
    \<and> (\<forall>c\<in>set cs. \<forall>e\<in>set (All_rt (d_rt d')) - set cs. distanceBigInt target (ID c) \<le> distanceBigInt target (ID e))
    \<and> (\<exists>asked. walk (visit_node target) (\<lambda>_. False) env target 0 [] (Closest (d_rt d) target K) d () = (d', (), cs, asked)
        \<and> (cs \<noteq> [] \<longrightarrow> ID (hd cs) \<in> set asked))"
proof -
  note cs = Lookup_result [OF assms]
  obtain s' q' where w: "walk (visit_node target) (\<lambda>_. False) env target 0 [] (Closest (d_rt d) target K) d () = (d', (), s', q')"
    using assms by (auto simp: Lookup_def Let_def split: prod.splits)
  have "s' = cs" using walk_result(1) [OF w] cs by simp
  with w walk_result(2) [OF w] show ?thesis
    using Closest_sorted set_Closest Closest_nearest unfolding cs by (auto simp: cs)
qed



text \<open>A small network for the witnesses: one contact, which may answer.\<close>

lemma concat_replicate_update: "i < n \<Longrightarrow> concat ((replicate n [])[i := b]) = b"
proof (induction n arbitrary: i)
  case (Suc n)
  then show ?case by (cases i) simp_all
qed simp

lemma All_rt_single:
  "ID c \<noteq> s \<Longrightarrow> All_rt (fst (Update (SetEvictionPing (NewRoutingTable s) p) now c)) = [c\<lparr>LastSeen := now\<rparr>]"
  using bucket_index_less [of "ID c" s]
  by (simp add: Update_def Let_def All_rt_concat NewRoutingTable_def SetEvictionPing_def set_bucket_def
      concat_replicate_update K_def)

lemma Closest_single:
  assumes "All_rt t = [c]"
  shows "Closest t target K = [c]"
proof -
  obtain s where "mset s = mset [c]" "Closest t target K = take K s"
    using Closest_prefix [of t target K] assms by auto
  then show ?thesis by (simp add: K_def)
qed

definition sample_peer :: Contact where
  "sample_peer = \<lparr>ID = id_copy [1], Address = ''a'', AltAddresses = [], LastSeen = 0\<rparr>"

definition sample_known :: DHT where
  "sample_known = rt_Update 0 sample_dht sample_peer"

definition sample_env :: "network \<Rightarrow> (nat \<Rightarrow> DHT \<Rightarrow> DHT) \<Rightarrow> nat \<Rightarrow> round_env" where
  "sample_env net among r = \<lparr>re_prims = toy_prims, re_now = 0, re_net = net, re_order = (\<lambda>b. b), re_among = among\<rparr>"

definition sample_key :: NodeID where
  "sample_key = ContentAddress (sha256 toy_prims) [7]"

definition sample_answer :: Message where
  "sample_answer = mk_message ''dht_value'' (print_json (enc_valuePayload (b64_encode True [7])))"

lemma sample_known_simps:
  "Closest (d_rt sample_known) target K = [sample_peer]" "IsBlocked sample_known k = False"
  "store_find (d_store sample_known) k = None" "table_ids sample_known = {id_copy [1]}"
  "d_store sample_known = newLocalStore\<lparr>perPeerMax := 0\<rparr>" "d_blocklist sample_known = None"
proof -
  have "id_copy [1] \<noteq> id_copy []" by code_simp
  then have "ID sample_peer \<noteq> id_copy []" by (simp add: sample_peer_def)
  from All_rt_single [OF this, of True 0] have all: "All_rt (d_rt sample_known) = [sample_peer]"
    by (simp add: sample_known_def sample_dht_def) (simp add: sample_peer_def)
  from Closest_single [OF all] show "Closest (d_rt sample_known) target K = [sample_peer]" .
  from all show "table_ids sample_known = {id_copy [1]}" by (simp add: table_ids_def sample_peer_def)
qed (simp_all add: sample_known_def sample_dht_def IsBlocked_def newLocalStore_def store_find_def)

lemma sample_dht_inv: "dht_inv (id_copy []) sample_dht"
  using dht_inv_new [OF sample_dht_new] by (simp add: store.all_stored_def sample_dht_def)

lemma sample_known_inv: "dht_inv (id_copy []) sample_known"
  using dht_change_inv [OF ch_update sample_dht_inv] by (simp add: sample_known_def)

lemma sample_env_ok: "(\<And>n d. dht_changes d (among n d)) \<Longrightarrow> env_ok (sample_env net among)"
  by (simp add: env_ok_def sample_env_def)

theorem Lookup_spec_witness:
  "\<exists>d' cs. Lookup (sample_env (\<lambda>_ _. Inl []) (\<lambda>_ d. d)) sample_known (id_copy []) = (d', cs) \<and> length cs = min K (Size (d_rt d'))"
proof -
  obtain d' cs where "Lookup (sample_env (\<lambda>_ _. Inl []) (\<lambda>_ d. d)) sample_known (id_copy []) = (d', cs)" by fastforce
  with Lookup_spec [OF this] show ?thesis by blast
qed



lemma getInner_verifies:
  assumes "getInner h env d key True = (d', Inr v)" and "\<forall>r. re_prims (env r) = h_prims h"
  shows "ContentAddress (sha256 (h_prims h)) v = key \<and> \<not> IsBlocked d key"
proof -
  obtain s cached where g: "store_Get (h_now h) (d_store d) key = (s, cached)" by fastforce
  let ?w = "walk (visit_value key True) (\<lambda>f. f \<noteq> None) env key 0 [] (Closest (d_rt (d\<lparr>d_store := s\<rparr>)) key K) (d\<lparr>d_store := s\<rparr>) None"
  obtain d2 f s2 q where w: "?w = (d2, f, s2, q)" by (metis prod_cases4)
  have "f = Some u \<Longrightarrow> ContentAddress (sha256 (h_prims h)) u = key" for u
    using value_verified.walk_start(1) [OF w] assms(2) by auto
  then show ?thesis using assms(1) w
    by (auto simp: getInner_def g Let_def split: if_splits option.splits)
qed

text \<open>
  C5: a verified read returns only what was asked for. Whatever the nodes of the network answer, a
  value that \<open>Get\<close> returns hashes to the key, and the key was not blocked when the read began.
\<close>

theorem Get_verified:
  assumes "getInner h env d key True = (d', Inr v)" and "\<forall>r. re_prims (env r) = h_prims h"
  shows "ContentAddress (sha256 (h_prims h)) v = key \<and> \<not> IsBlocked d key"
  by (rule getInner_verifies [OF assms])

text \<open>
  C37: a read succeeds when one of the \<open>Alpha\<close> closest contacts has the value. If such a contact is
  a node of this program that stores the value under its hash and has not blocked it, and its answer
  arrives, then \<open>Get\<close> returns a value with the right hash, whatever all the others answer, and the
  node now stores it itself.
\<close>

theorem Get_live:
  assumes "\<not> IsBlocked d key" and "store_find (d_store d) key = None" and "env_ok env"
    and "c \<in> set (take Alpha (Closest (d_rt d) key K))"
    and "store_find (d_store remote) key = Some v" and "\<not> IsBlocked remote key"
    and "same_body msg (find_value_request key)" and "HandleMessage hr remote addr msg = Some (remote', [Reply addr msg answer])"
    and "same_body reply answer" and "requestContact (re_net (env 0)) c (find_value_request key) = Inr reply"
    and "ContentAddress (sha256 (re_prims (env 0))) v = key" and "\<forall>r. re_prims (env r) = h_prims h"
  shows "\<exists>d' w. getInner h env d key True = (d', Inr w) \<and> ContentAddress (sha256 (h_prims h)) w = key
    \<and> store_find (d_store d') key = Some w"
proof -
  have "answer = mk_message ''dht_value'' (print_json (enc_valuePayload (b64_encode True v)))"
    using find_value_answer [OF assms(7,6,5), of hr addr] assms(8) by auto
  then have found: "read_found reply = FoundValue v" using assms(9) by (simp add: read_found_value)
  have ord: "set (pick_batch [] (Closest (d_rt d) key K)) \<subseteq> set (re_order (env 0) (pick_batch [] (Closest (d_rt d) key K)))"
    using env_ok_set [OF assms(3)] by blast
  obtain d2 w s q where g: "getInner h env d key True
      = (d2\<lparr>d_store := store_Put (h_keys h) (h_fault h) (h_now h) (d_store d2) key w\<rparr>, Inr w)"
    "walk (visit_value key True) (\<lambda>f. f \<noteq> None) env key 0 [] (Closest (d_rt d) key K) d None = (d2, Some w, s, q)"
    using getInner_finds [where env = env, OF assms(1,2) ord assms(4,10) found assms(11), of h] by blast
  have "ContentAddress (sha256 (h_prims h)) w = key"
    using value_verified.walk_start(1) [OF g(2)] assms(12) by auto
  with g(1) show ?thesis by (auto simp: store_Put_find)
qed

lemma sample_request:
  "requestContact net sample_peer m = (case net ''a'' m of Inr r \<Rightarrow> Inr r | Inl e \<Rightarrow> Inl e)"
  by (simp add: requestContact_def sample_peer_def AllAddresses_def split: sum.split)

lemma sample_answer_read: "read_found sample_answer = FoundValue [7]"
  by (simp add: sample_answer_def read_found_value same_body_def)

theorem Get_verified_witness:
  "ContentAddress (sha256 toy_prims) [7] = sample_key
   \<and> (\<exists>d'. getInner sample_henv (sample_env (\<lambda>_ _. Inr sample_answer) (\<lambda>_ d. d)) sample_known sample_key True = (d', Inr [7]))"
proof -
  let ?env = "sample_env (\<lambda>_ _. Inr sample_answer) (\<lambda>_ d. d)"
  obtain d1 where v: "run_visits (visit_value sample_key True) (?env 0) 0 [sample_peer] sample_known None = (d1, Some [7], [])"
    by (auto simp: visit_value_def sendFindValue_def sample_env_def sample_request sample_answer_read sample_key_def)
  then have "walk (visit_value sample_key True) (\<lambda>f. f \<noteq> None) ?env sample_key 0 [] [sample_peer] sample_known None
      = (d1, Some [7], [sample_peer], [id_copy [1]])"
    by (subst walk.simps) (simp add: pick_batch_def Alpha_def sample_env_def sample_peer_def Let_def)
  then obtain d' where g: "getInner sample_henv ?env sample_known sample_key True = (d', Inr [7])"
    using getInner_walks [of sample_known sample_key sample_henv ?env True] by (simp add: sample_known_simps(1-3))
  from Get_verified [OF g] g show ?thesis by (simp add: sample_env_def sample_henv_def)
qed

definition sample_remote :: DHT where
  "sample_remote = sample_dht\<lparr>d_store := store_Put [] None 0 newLocalStore sample_key [7]\<rparr>"

theorem Get_live_witness:
  "\<exists>d' w. getInner sample_henv (sample_env (\<lambda>_ _. Inr sample_answer) (\<lambda>_ d. d)) sample_known sample_key True = (d', Inr w)
     \<and> ContentAddress (sha256 toy_prims) w = sample_key"
proof -
  let ?env = "sample_env (\<lambda>_ _. Inr sample_answer) (\<lambda>_ d. d)"
  have r: "store_find (d_store sample_remote) sample_key = Some [7]" "\<not> IsBlocked sample_remote sample_key"
    by (simp_all add: sample_remote_def store_Put_find) (simp add: IsBlocked_def sample_dht_def)
  obtain r' where h: "HandleMessage sample_henv sample_remote [] (find_value_request sample_key)
      = Some (r', [Reply [] (find_value_request sample_key) sample_answer])"
    using find_value_answer [OF _ r(2,1), of "find_value_request sample_key" sample_henv "[]"]
    by (auto simp: same_body_def sample_answer_def)
  have "requestContact (re_net (?env 0)) sample_peer (find_value_request sample_key) = Inr sample_answer"
    by (simp add: sample_env_def sample_request)
  from Get_live [where env = ?env, OF _ _ sample_env_ok _ r _ h _ this, of sample_known sample_henv] show ?thesis
    by (auto simp: sample_known_simps(1-3) Alpha_def same_body_def sample_env_def sample_key_def sample_henv_def)
qed

lemma run_visits_unreachable:
  assumes "\<forall>c\<in>set cs. \<exists>err. requestContact (re_net e) c (find_value_request key) = Inl err" "re_among e = (\<lambda>_ d. d)"
  shows "run_visits (visit_value key verify) e n cs d f = (d, f, [])"
  using assms(1)
proof (induction cs arbitrary: n)
  case (Cons c cs)
  then have "visit_value key verify e d c f = (d, f, [])" by (auto simp: visit_value_def sendFindValue_def)
  with Cons show ?case by (simp add: assms(2))
qed (simp add: assms(2))

text \<open>
  A read gives up after one round without progress. When none of the \<open>Alpha\<close> closest contacts
  can be reached, \<open>getInner\<close> reports that the value does not exist, although none of the other
  contacts of the short list, any of which may store it, has been asked.
\<close>

theorem get_gives_up:
  assumes "\<not> IsBlocked d key" and "store_find (d_store d) key = None" and "Closest (d_rt d) key K \<noteq> []"
    and "env_ok env" and "re_among (env 0) = (\<lambda>_ d. d)"
    and "\<forall>c\<in>set (take Alpha (Closest (d_rt d) key K)).
      \<exists>err. requestContact (re_net (env 0)) c (find_value_request key) = Inl err"
  shows "getInner h env d key verify = (d, Inl GetNotFound)"
proof -
  let ?s = "Closest (d_rt d) key K"
  let ?b = "pick_batch [] ?s"
  have b: "?b = take Alpha ?s" "?b \<noteq> []" using assms(3) by (simp_all add: pick_batch_def Alpha_def)
  have "run_visits (visit_value key verify) (env 0) 0 (re_order (env 0) ?b) d None = (d, None, [])"
    using assms(5,6) env_ok_set [OF assms(4)] b(1) by (intro run_visits_unreachable) auto
  then have "walk (visit_value key verify) (\<lambda>f. f \<noteq> None) env key 0 [] ?s d None = (d, None, ?s, map ID ?b)"
    using b(2) by (subst walk.simps) (simp add: Let_def hint_learned_def)
  then show ?thesis using getInner_walks [OF assms(1-3)] by simp
qed

theorem get_gives_up_witness:
  "getInner sample_henv (sample_env (\<lambda>_ _. Inl []) (\<lambda>_ d. d)) sample_known sample_key True = (sample_known, Inl GetNotFound)"
  by (rule get_gives_up [OF _ _ _ sample_env_ok])
     (simp_all add: sample_known_simps(1-3) Alpha_def sample_env_def sample_request)

text \<open>
  A chunk that is revoked while it is being read stays. The block list is consulted only at the
  start of \<open>getInner\<close>. When a revoke of the key is applied during the read, the value is still
  returned, and it is then stored after the revoke deleted it: the node keeps a blocked chunk.
\<close>

theorem get_caches_revoked:
  "\<exists>env d'. env_ok env \<and> getInner sample_henv env sample_known sample_key True = (d', Inr [7])
     \<and> IsBlocked d' sample_key \<and> store_find (d_store d') sample_key = Some [7]"
proof -
  let ?rp = "zero_Revoke\<lparr>rv_Chunks := [Hex sample_key]\<rparr>"
  let ?env = "sample_env (\<lambda>_ _. Inr sample_answer) (\<lambda>_ d. applyRevoke d ?rp)"
  define d1 where "d1 = applyRevoke (rt_Update 0 (applyRevoke sample_known ?rp) sample_peer) ?rp"
  have v: "run_visits (visit_value sample_key True) (?env 0) 0 [sample_peer] sample_known None = (d1, Some [7], [])"
    by (auto simp: visit_value_def sendFindValue_def sample_env_def sample_request sample_answer_read sample_key_def d1_def)
  have "IsBlocked d1 sample_key" by (simp add: d1_def applyRevoke_blocked)
  moreover from v have "walk (visit_value sample_key True) (\<lambda>f. f \<noteq> None) ?env sample_key 0 [] [sample_peer] sample_known None
      = (d1, Some [7], [sample_peer], [id_copy [1]])"
    by (subst walk.simps) (simp add: pick_batch_def Alpha_def sample_env_def sample_peer_def Let_def)
  then have "getInner sample_henv ?env sample_known sample_key True
      = (d1\<lparr>d_store := store_Put (h_keys sample_henv) (h_fault sample_henv) (h_now sample_henv) (d_store d1) sample_key [7]\<rparr>, Inr [7])"
    using getInner_walks [of sample_known sample_key sample_henv ?env True] by (simp add: sample_known_simps(1-3))
  moreover have "env_ok ?env" by (rule sample_env_ok) (rule applyRevoke_changes)
  ultimately show ?thesis by (intro exI [of _ ?env]) (simp add: store_Put_find)
qed



lemma short_append: "list_all short_char (xs @ ys) \<longleftrightarrow> list_all short_char xs \<and> list_all short_char ys"
  by simp

lemma plain_short: "list_all plain_char s \<Longrightarrow> list_all short_char s"
  by (auto simp: list_all_iff short_char_def)

lemma short_quote: "list_all plain_char s \<Longrightarrow> list_all short_char (quote s)"
  by (simp add: quote_def plain_short) (simp add: short_char_def dquote_def)

lemma payload_sizes:
  assumes "length v \<le> MaxValueSize"
  shows "length (quote_body (print_json (enc_storePayload \<lparr>sp_Key = Hex key, sp_Value = b64_encode True v\<rparr>))) \<le> 180000"
    and "length (quote_body (print_json (enc_valuePayload (b64_encode True v)))) \<le> 180000"
proof -
  have k: "list_all plain_char ''key''" "list_all plain_char ''value''" by (simp_all add: plain_char_def)
  have h: "list_all plain_char (Hex key)" "length (Hex key) = 64" by (simp_all add: Hex_def IDSize_def)
  have sep: "list_all short_char ''{''" "list_all short_char '':''" "list_all short_char '',''" "list_all short_char ''}''"
    by (simp_all add: short_char_def plain_char_def)
  have b: "length (b64_encode True v) \<le> 87384"
    using length_b64_encode [of v] assms by (simp add: MaxValueSize_def)
  have "list_all short_char (print_json (enc_storePayload \<lparr>sp_Key = Hex key, sp_Value = b64_encode True v\<rparr>))"
    "list_all short_char (print_json (enc_valuePayload (b64_encode True v)))"
    using k h(1) sep by (simp_all add: enc_storePayload_def enc_valuePayload_def short_quote)
  from this [THEN quote_body_short] show
    "length (quote_body (print_json (enc_storePayload \<lparr>sp_Key = Hex key, sp_Value = b64_encode True v\<rparr>))) \<le> 180000"
    "length (quote_body (print_json (enc_valuePayload (b64_encode True v)))) \<le> 180000"
    using b k h by (simp_all add: enc_storePayload_def enc_valuePayload_def length_quote)
qed

lemma signed_length:
  assumes "\<forall>k d. length (ed_sign c k d) = 64" "prims_ok c" "length (PublicKey i) = 32"
    and "list_all plain_char (m_Type m)" "length (m_Type m) \<le> 32" "list_all plain_char (m_ReqID m)" "length (m_ReqID m) \<le> 32"
  shows "length (Marshal (enc_Message (sign_message c i m))) \<le> 500 + length (quote_body (m_Payload m))"
proof -
  have "length (Identity_ID c i) = 64" "list_all plain_char (Identity_ID c i)"
    using assms(2) by (simp_all add: Identity_ID_def PublicKeyToID_length) (simp add: PublicKeyToID_def)
  moreover have "length (dec_int ProtocolVersion) \<le> 1" by code_simp
  ultimately show ?thesis
    using Marshal_Message_length [of "sign_message c i m"] assms
    by (simp add: sign_message_def Let_def PublicKeyToHex_def Sign_def)
qed

text \<open>
  Every value that may be stored fits into one message. The message that stores a value of at
  most \<open>MaxValueSize\<close> bytes, and the reply that carries it, with a request identifier of 32
  hexadecimal digits, stay below \<open>MaxMessageSize\<close> once they are signed: \<open>sendOn\<close> never refuses
  them.
\<close>

theorem value_messages_fit:
  assumes "length v \<le> MaxValueSize" and "prims_ok c" and "length (PublicKey i) = 32"
    and "\<forall>k d. length (ed_sign c k d) = 64" and "length rnd = 16"
  shows "sendOn c i ((store_request key v)\<lparr>m_ReqID := hex_encode rnd\<rparr>) \<noteq> None
    \<and> sendOn c i ((mk_message ''dht_value'' (print_json (enc_valuePayload (b64_encode True v))))\<lparr>m_ReqID := hex_encode rnd\<rparr>) \<noteq> None"
proof -
  have t: "list_all plain_char ''dht_store''" "list_all plain_char ''dht_value''" by (simp_all add: plain_char_def)
  have "length (Marshal (enc_Message (sign_message c i (m\<lparr>m_ReqID := hex_encode rnd\<rparr>)))) \<le> MaxMessageSize"
    if "list_all plain_char (m_Type m)" "length (m_Type m) \<le> 32" "length (quote_body (m_Payload m)) \<le> 180000" for m
    using signed_length [OF assms(4,2,3), of "m\<lparr>m_ReqID := hex_encode rnd\<rparr>"] that assms(5) by (simp add: MaxMessageSize_def)
  from this [of "store_request key v"] this [of "mk_message ''dht_value'' (print_json (enc_valuePayload (b64_encode True v)))"]
  show ?thesis using payload_sizes [OF assms(1)] t by (simp add: sendOn_def Let_def store_request_def)
qed

theorem value_messages_fit_witness:
  "sendOn (toy_prims\<lparr>ed_sign := \<lambda>_ _. replicate 64 0, ed_verify := \<lambda>_ _ _. True\<rparr>) toy_identity
     ((store_request sample_key (replicate 65536 0))\<lparr>m_ReqID := hex_encode (replicate 16 0)\<rparr>) \<noteq> None"
proof -
  have "length (replicate 65536 (0 :: byte)) \<le> MaxValueSize" by (simp only: length_replicate) (simp add: MaxValueSize_def)
  moreover have "prims_ok (toy_prims\<lparr>ed_sign := \<lambda>_ _. replicate 64 0, ed_verify := \<lambda>_ _ _. True\<rparr>)"
    using toy_prims_ok by (simp add: prims_ok_def)
  ultimately show ?thesis
    using value_messages_fit [of "replicate 65536 0" _ toy_identity "replicate 16 0" sample_key]
    by (simp add: toy_identity_def)
qed

end
