(* ===== verification/Maintenance.thy ===== *)
theory Maintenance
  imports Dht_Lookup
begin

text \<open>
  \<^verbatim>\<open>core/dht/maintenance.go\<close>: republishing the stored values, pinging the routing table, and
  reconnecting to the bootstrap peers with exponential backoff. The loops of the source repeat one
  pass at every tick of a timer until they are stopped; the passes and what one iteration of the
  bootstrap loop does are modelled, with the network as an argument as in the lookups.
\<close>

section \<open>Definitions\<close>

definition minute :: int where
  "minute = 60 * second"

definition DefaultRepublishInterval :: int where
  "DefaultRepublishInterval = 60 * minute"

definition DefaultPeerCheckInterval :: int where
  "DefaultPeerCheckInterval = 10 * minute"

definition DefaultBootstrapRetryInterval :: int where
  "DefaultBootstrapRetryInterval = 30 * second"

definition MaxBootstrapBackoff :: int where
  "MaxBootstrapBackoff = 5 * minute"

record MaintenanceConfig =
  BootstrapPeers :: "string list"
  RepublishInterval :: int
  PeerCheckInterval :: int
  BootstrapRetryInterval :: int

definition start_config :: "MaintenanceConfig \<Rightarrow> MaintenanceConfig" where
  "start_config cfg =
     (let cfg = (if RepublishInterval cfg = 0 then cfg\<lparr>RepublishInterval := DefaultRepublishInterval\<rparr> else cfg);
          cfg = (if PeerCheckInterval cfg = 0 then cfg\<lparr>PeerCheckInterval := DefaultPeerCheckInterval\<rparr> else cfg)
      in if BootstrapRetryInterval cfg = 0 then cfg\<lparr>BootstrapRetryInterval := DefaultBootstrapRetryInterval\<rparr> else cfg)"

subsection \<open>Republishing\<close>

text \<open>\<open>ks\<close> is the order in which the map is enumerated.\<close>

definition snapshotKeys :: "string list \<Rightarrow> localStore \<Rightarrow> string list" where
  "snapshotKeys ks s = filter (\<lambda>k. k |\<in>| fmdom (data s)) ks"

record publish_env =
  pe_h :: henv
  pe_lookup :: "nat \<Rightarrow> round_env"
  pe_store :: round_env

fun republish_loop :: "(nat \<Rightarrow> publish_env) \<Rightarrow> nat \<Rightarrow> string list \<Rightarrow> DHT \<Rightarrow> DHT" where
  "republish_loop pe n [] d = d"
| "republish_loop pe n (hex # keys) d =
     (case IDFromHex hex of
        Inl _ \<Rightarrow> republish_loop pe (Suc n) keys d
      | Inr key \<Rightarrow>
          (case store_Get (h_now (pe_h (pe n))) (d_store d) key of
             (s, None) \<Rightarrow> republish_loop pe (Suc n) keys (d\<lparr>d_store := s\<rparr>)
           | (s, Some v) \<Rightarrow>
               (case Store (pe_h (pe n)) (pe_lookup (pe n)) (pe_store (pe n)) (d\<lparr>d_store := s\<rparr>) key v of
                  Inl _ \<Rightarrow> republish_loop pe (Suc n) keys (d\<lparr>d_store := s\<rparr>)
                | Inr (d1, _) \<Rightarrow> republish_loop pe (Suc n) keys d1)))"

definition republishAll :: "string list \<Rightarrow> (nat \<Rightarrow> publish_env) \<Rightarrow> DHT \<Rightarrow> DHT" where
  "republishAll ks pe d = republish_loop pe 0 (snapshotKeys ks (d_store d)) d"

text \<open>\<open>waiting\<close> is what the node does until the table fills or 15 seconds have passed.\<close>

definition startupRepublish :: "(DHT \<Rightarrow> DHT) \<Rightarrow> bool \<Rightarrow> string list \<Rightarrow> (nat \<Rightarrow> publish_env) \<Rightarrow> DHT \<Rightarrow> DHT" where
  "startupRepublish waiting stopped ks pe d =
     (let d1 = waiting d
      in if stopped \<or> Size (d_rt d1) = 0 then d1 else republishAll ks pe d1)"

subsection \<open>Pinging\<close>

fun ping_loop :: "round_env \<Rightarrow> nat \<Rightarrow> Contact list \<Rightarrow> DHT \<Rightarrow> DHT option" where
  "ping_loop e n [] d = Some (re_among e n d)"
| "ping_loop e n (c # cs) d =
     (case Ping e (re_among e n d) c of
        (d1, True) \<Rightarrow> ping_loop e (Suc n) cs d1
      | (d1, False) \<Rightarrow>
          (case Remove (d_rt d1) (ID c) of
             None \<Rightarrow> None
           | Some t \<Rightarrow> ping_loop e (Suc n) cs (d1\<lparr>d_rt := t\<rparr>)))"

definition pingAll :: "round_env \<Rightarrow> DHT \<Rightarrow> DHT option" where
  "pingAll e d = ping_loop e 0 (re_order e (All_rt (d_rt d))) d"

subsection \<open>Bootstrapping\<close>

text \<open>What one call of \<open>Bootstrap\<close> meets.\<close>

record boot_env =
  be_connected :: bool
  be_waiting :: "DHT \<Rightarrow> DHT"
  be_lookup :: "nat \<Rightarrow> round_env"

definition bootstrap_at :: "(string \<Rightarrow> boot_env) \<Rightarrow> DHT \<Rightarrow> string \<Rightarrow> DHT \<times> boot_error option" where
  "bootstrap_at be d addr = Bootstrap (be_connected (be addr)) (be_waiting (be addr)) (be_lookup (be addr)) d"

fun try_peers :: "(string \<Rightarrow> boot_env) \<Rightarrow> string list \<Rightarrow> DHT \<Rightarrow> DHT \<times> bool" where
  "try_peers be [] d = (d, False)"
| "try_peers be (addr # addrs) d =
     (case bootstrap_at be d addr of
        (d1, None) \<Rightarrow> (d1, True)
      | (d1, Some _) \<Rightarrow> try_peers be addrs d1)"

definition bootstrap_iteration ::
  "MaintenanceConfig \<Rightarrow> (string \<Rightarrow> boot_env) \<Rightarrow> DHT \<times> int \<Rightarrow> DHT \<times> int" where
  "bootstrap_iteration cfg be st =
     (case st of (d, wait) \<Rightarrow>
        if Size (d_rt d) > 0 then (d, BootstrapRetryInterval cfg)
        else case try_peers be (BootstrapPeers cfg) d of
               (d1, succeeded) \<Rightarrow>
                 if succeeded then (d1, BootstrapRetryInterval cfg)
                 else (d1, let wait = wait * 2 in if wait > MaxBootstrapBackoff then MaxBootstrapBackoff else wait))"

fun bootstrap_tries :: "(string \<Rightarrow> boot_env) \<Rightarrow> string list \<Rightarrow> (string \<times> boot_error) list \<Rightarrow> DHT
    \<Rightarrow> DHT \<times> ((string \<times> boot_error) list + string)" where
  "bootstrap_tries be [] errs d = (d, Inl errs)"
| "bootstrap_tries be (addr0 # addrs) errs d =
     (let addr = TrimSpace addr0
      in if addr = [] then bootstrap_tries be addrs errs d
         else case bootstrap_at be d addr of
                (d1, None) \<Rightarrow> (d1, Inr addr)
              | (d1, Some err) \<Rightarrow> bootstrap_tries be addrs (errs @ [(addr, err)]) d1)"

definition BootstrapAll :: "(string \<Rightarrow> boot_env) \<Rightarrow> string list \<Rightarrow> DHT \<Rightarrow> DHT \<times> ((string \<times> boot_error) list + string)" where
  "BootstrapAll be addrs d = (if addrs = [] then (d, Inr []) else bootstrap_tries be addrs [] d)"

section \<open>Lemmas\<close>

definition publish_ok :: "publish_env \<Rightarrow> bool" where
  "publish_ok p \<longleftrightarrow> env_ok (pe_lookup p) \<and> env_ok (\<lambda>_. pe_store p)"

lemma StoreLocal_changes: "StoreLocal h d key v = Inr d1 \<Longrightarrow> dht_changes d d1"
  using dht_event_changes [of d "LocalStore h key v" d1] by simp

lemma Store_changes:
  assumes "Store h env e d key v = Inr (d2, n)" "env_ok env" "env_ok (\<lambda>_. e)"
  shows "dht_changes d d2"
proof -
  obtain d1 where d1: "StoreLocal h d key v = Inr d1" using assms(1) by (auto simp: Store_def split: sum.splits)
  then have "d2 = d1 \<or> Replicate env e d1 key v = (d2, n)" using assms(1) by (auto simp: Store_def split: if_splits)
  then show ?thesis using StoreLocal_changes [OF d1] Replicate_changes [OF assms(2,3)] by (metis rtranclp_trans)
qed

lemma republish_loop_changes:
  "(\<And>n. publish_ok (pe n)) \<Longrightarrow> dht_changes d0 d \<Longrightarrow> dht_changes d0 (republish_loop pe n keys d)"
proof (induction keys arbitrary: n d)
  case (Cons hex keys)
  show ?case
  proof (cases "IDFromHex hex")
    case (Inr key)
    obtain s cached where g: "store_Get (h_now (pe_h (pe n))) (d_store d) key = (s, cached)" by fastforce
    have "dht_change d (d\<lparr>d_store := s\<rparr>)" using ch_get [of d "h_now (pe_h (pe n))" key] by (simp add: g)
    then have d1: "dht_changes d0 (d\<lparr>d_store := s\<rparr>)" using Cons.prems(2) by (rule rtranclp.rtrancl_into_rtrancl [rotated])
    have "dht_changes d0 d2" if "Store (pe_h (pe n)) (pe_lookup (pe n)) (pe_store (pe n)) (d\<lparr>d_store := s\<rparr>) key v = Inr (d2, k)" for v d2 k
      using Store_changes [OF that] Cons.prems(1) [of n] d1 by (auto simp: publish_ok_def intro: rtranclp_trans)
    then show ?thesis using Cons d1 by (auto simp: Inr g split: option.split sum.split)
  qed (use Cons in simp)
qed simp

lemma Remove_Some: "rt_inv t \<Longrightarrow> i \<noteq> self t \<Longrightarrow> \<exists>t'. Remove t i = Some t'"
  using Remove_None [of t i] by auto

lemma Ping_changes: "Ping e d c = (d1, ok) \<Longrightarrow> dht_changes d d1"
  by (auto simp: Ping_def intro: ch_update split: sum.splits if_splits)

lemma ping_loop_safe:
  assumes "env_ok (\<lambda>_. e)" "dht_inv s d" "\<forall>c\<in>set cs. ID c \<noteq> s"
  shows "\<exists>d'. ping_loop e n cs d = Some d' \<and> dht_changes d d'"
  using assms(2,3)
proof (induction cs arbitrary: n d)
  case Nil
  then show ?case using assms(1) by (simp add: env_ok_def)
next
  case (Cons c cs)
  obtain d1 ok where p: "Ping e (re_among e n d) c = (d1, ok)" by fastforce
  have d1: "dht_changes d d1"
    using Ping_changes [OF p] assms(1) unfolding env_ok_def by (metis rtranclp_trans)
  then have inv: "dht_inv s d1" using dht_runs.run_inv Cons.prems(1) by blast
  show ?case
  proof (cases ok)
    case True
    then show ?thesis using Cons.IH [OF inv, of "Suc n"] Cons.prems(2) p d1 by (auto intro: rtranclp_trans)
  next
    case False
    have "rt_inv (d_rt d1)" "self (d_rt d1) = s" using inv by (auto simp: dht_inv_def rt_state_inv_def)
    then obtain t where t: "Remove (d_rt d1) (ID c) = Some t" using Remove_Some [of "d_rt d1" "ID c"] Cons.prems(2) by auto
    then have "dht_changes d (d1\<lparr>d_rt := t\<rparr>)" using d1 ch_remove [OF t] by (rule_tac rtranclp.rtrancl_into_rtrancl)
    moreover from this have "dht_inv s (d1\<lparr>d_rt := t\<rparr>)" using dht_runs.run_inv Cons.prems(1) by blast
    ultimately show ?thesis using Cons.IH [of "d1\<lparr>d_rt := t\<rparr>" "Suc n"] Cons.prems(2) p t False by (auto intro: rtranclp_trans)
  qed
qed

subsection \<open>Storing a value again\<close>

definition within_budget :: "localStore \<Rightarrow> bool" where
  "within_budget s \<longleftrightarrow> maxBytes s \<le> 0 \<or> total_st s \<le> maxBytes s"

lemma bytes_held_lookup: "fmlookup m k = Some v \<Longrightarrow> int (length v) \<le> bytes_held m"
  using bytes_held_drop [of m k v] bytes_held_nonneg [of "fmdrop k m"] by simp

lemma no_eviction:
  assumes "store_exact s" "within_budget s" "fmlookup (data s) (Hex k) = Some v"
  shows "evictToFit ks (refund_old s (Hex k)) (int (length v)) = refund_old s (Hex k)"
proof -
  have "int (length v) \<le> total_st s"
    using assms(1,3) bytes_held_lookup by (simp add: store_exact_def counted_def)
  moreover have "total_st (refund_old s (Hex k)) = total_st s - int (length v)"
    using assms(3) by (simp add: refund_old_present)
  ultimately show ?thesis using assms(2)
    by (auto simp: evictToFit_def evictUntilUnder_def within_budget_def Let_def)
qed

lemma store_Put_again:
  assumes "store_exact s" "within_budget s" "fmlookup (data s) (Hex k) = Some v"
    and s'_def: "s' = store_Put ks f now s k v"
  shows "data s' = data s" "attribution s' = fmdrop (Hex k) (attribution s)" "store_exact s'" "within_budget s'"
proof -
  note ev = no_eviction [OF assms(1-3)]
  have q: "\<not> over_quota s (Hex k) n []" for n by (simp add: over_quota_def)
  then have p: "s' = put_disk f now (fst (put_locked ks now s k v [])) k v" by (simp add: s'_def store_Put_def put_cases)
  have "fmupd (Hex k) v (data s) = data s" using assms(3) by (intro fmap_ext) auto
  then show d: "data s' = data s" using q by (simp add: p put_locked_lookup ev)
  show "attribution s' = fmdrop (Hex k) (attribution s)" using q by (simp add: p put_locked_def Let_def ev)
  show "store_exact s'" using put_locked_exact [OF assms(1)] assms(3) by (simp add: p double_refund_def ev)
  then have "total_st s' = total_st s" using assms(1) d by (simp add: store_exact_def counted_def)
  then show "within_budget s'" using assms(2) by (simp add: within_budget_def p)
qed

subsection \<open>A network that changes nothing else\<close>

definition calm :: "(nat \<Rightarrow> round_env) \<Rightarrow> bool" where
  "calm env \<longleftrightarrow> (\<forall>r n d. re_among (env r) n d = d)"

lemma FindNode_store [simp]:
  "FindNode e d c target = (d1, ns) \<Longrightarrow> d_store d1 = d_store d \<and> d_blocklist d1 = d_blocklist d"
  by (auto simp: FindNode_def split: sum.splits if_splits option.splits)

interpretation lookup_calm: walk_invariant "visit_node target" env
  "\<lambda>d _. calm env \<longrightarrow> d_store d = s0 \<and> d_blocklist d = b0" "\<lambda>_. True"
  for target env s0 b0
  by unfold_locales (auto simp: calm_def list_all_iff visit_node_def split: prod.splits option.splits dest!: FindNode_store)

lemma Lookup_calm:
  assumes "calm env" "Lookup env d target = (d', cs)"
  shows "d_store d' = d_store d \<and> d_blocklist d' = d_blocklist d"
proof -
  obtain u s' q' where w: "walk (visit_node target) (\<lambda>_. False) env target 0 [] (Closest (d_rt d) target K) d () = (d', u, s', q')"
    using assms(2) by (auto simp: Lookup_def Let_def split: prod.splits)
  from lookup_calm.walk_start(1) [OF w, of "d_store d" "d_blocklist d"] assms(1) show ?thesis by simp
qed

lemma send_stores_calm:
  "calm (\<lambda>_. e) \<Longrightarrow> send_stores e n key v cs d = (d', k) \<Longrightarrow> d_store d' = d_store d \<and> d_blocklist d' = d_blocklist d"
proof (induction cs arbitrary: n d d' k)
  case (Cons c cs)
  obtain d1 ok where s: "sendStore e d c key v = (d1, ok)" by fastforce
  then have "d_store d1 = d_store d \<and> d_blocklist d1 = d_blocklist d" by (auto simp: sendStore_def split: sum.splits if_splits)
  with Cons s show ?case by (auto simp: calm_def split: if_splits prod.splits)
qed (simp add: calm_def)

lemma Store_calm:
  assumes "calm env" "calm (\<lambda>_. e)" "Store h env e d key v = Inr (d2, n)" "\<not> IsBlocked d key"
  shows "d_store d2 = store_Put (h_keys h) (h_fault h) (h_now h) (d_store d) key v \<and> d_blocklist d2 = d_blocklist d"
proof -
  let ?d1 = "d\<lparr>d_store := store_Put (h_keys h) (h_fault h) (h_now h) (d_store d) key v\<rparr>"
  obtain d3 cs where l: "Lookup env ?d1 key = (d3, cs)" by fastforce
  have "Replicate env e ?d1 key v = (d2, n)" using assms(3,4) by (auto simp: Store_def StoreLocal_def split: if_splits)
  then have "send_stores e 0 key v (re_order e cs) d3 = (d2, n)" using l assms(4) by (simp add: Replicate_def)
  from send_stores_calm [OF assms(2) this] Lookup_calm [OF assms(1) l] show ?thesis by simp
qed

lemma republish_step:
  assumes "calm (pe_lookup (pe n))" "calm (\<lambda>_. pe_store (pe n))" "store_exact (d_store d)" "within_budget (d_store d)"
    and "fmlookup (data (d_store d)) (Hex key) = Some v" "length v \<le> MaxValueSize" "\<not> IsBlocked d key"
  shows "\<exists>d2. republish_loop pe n (Hex key # keys) d = republish_loop pe (Suc n) keys d2
    \<and> data (d_store d2) = data (d_store d) \<and> attribution (d_store d2) = fmdrop (Hex key) (attribution (d_store d))
    \<and> store_exact (d_store d2) \<and> within_budget (d_store d2) \<and> d_blocklist d2 = d_blocklist d"
proof -
  let ?h = "pe_h (pe n)"
  obtain s where g: "store_Get (h_now ?h) (d_store d) key = (s, Some v)" "s = fst (store_Get (h_now ?h) (d_store d) key)"
    using assms(5) store_Get_simps(9) by (metis prod.collapse)
  have s: "store_exact s" "within_budget s" "fmlookup (data s) (Hex key) = Some v" "data s = data (d_store d)"
    "attribution s = attribution (d_store d)"
    using assms(3-5) unfolding g(2) by (simp_all add: store_Get_exact) (simp add: within_budget_def)
  obtain d2 k where st: "Store ?h (pe_lookup (pe n)) (pe_store (pe n)) (d\<lparr>d_store := s\<rparr>) key v = Inr (d2, k)"
    using assms(6,7) by (cases "Replicate (pe_lookup (pe n)) (pe_store (pe n))
        (d\<lparr>d_store := store_Put (h_keys ?h) (h_fault ?h) (h_now ?h) s key v\<rparr>) key v")
      (auto simp: Store_def StoreLocal_def)
  have "d_store d2 = store_Put (h_keys ?h) (h_fault ?h) (h_now ?h) s key v \<and> d_blocklist d2 = d_blocklist d"
    using Store_calm [OF assms(1,2) st] assms(7) by simp
  with store_Put_again [OF s(1-3), of "d_store d2"] s(4,5) st g(1) show ?thesis by auto
qed

lemma republish_loop_attribution:
  assumes "\<forall>n. calm (pe_lookup (pe n)) \<and> calm (\<lambda>_. pe_store (pe n))"
    and "store_exact (d_store d)" "within_budget (d_store d)"
    and "\<forall>k\<in>set keys. \<exists>i v. k = Hex i \<and> fmlookup (data (d_store d)) k = Some v \<and> length v \<le> MaxValueSize \<and> \<not> IsBlocked d i"
  shows "let d' = republish_loop pe n keys d in data (d_store d') = data (d_store d)
    \<and> attribution (d_store d') = fmdrop_set (set keys) (attribution (d_store d)) \<and> store_exact (d_store d')"
  using assms(2-4)
proof (induction keys arbitrary: n d)
  case Nil
  have "fmdrop_set {} m = m" for m :: "(string, string) fmap" by (rule fmap_ext) simp
  with Nil show ?case by (simp add: Let_def)
next
  case (Cons k keys)
  then obtain i v where k: "k = Hex i" "fmlookup (data (d_store d)) (Hex i) = Some v" "length v \<le> MaxValueSize" "\<not> IsBlocked d i"
    by auto
  from assms(1) have "calm (pe_lookup (pe n))" "calm (\<lambda>_. pe_store (pe n))" by auto
  from republish_step [where pe = pe, OF this Cons.prems(1,2) k(2-4), of keys] obtain d2 where
    d2: "republish_loop pe n (Hex i # keys) d = republish_loop pe (Suc n) keys d2"
    "data (d_store d2) = data (d_store d)" "attribution (d_store d2) = fmdrop (Hex i) (attribution (d_store d))"
    "store_exact (d_store d2)" "within_budget (d_store d2)" "d_blocklist d2 = d_blocklist d" by blast
  have "IsBlocked d2 j = IsBlocked d j" for j by (simp add: IsBlocked_def d2(6))
  with Cons.prems(3) d2(2) have "\<forall>k\<in>set keys. \<exists>i v. k = Hex i \<and> fmlookup (data (d_store d2)) k = Some v
      \<and> length v \<le> MaxValueSize \<and> \<not> IsBlocked d2 i" by auto
  from Cons.IH [OF d2(4,5) this, of "Suc n"] d2(1-3) k(1) show ?case
    by (auto simp: Let_def intro!: fmap_ext)
qed

section \<open>Properties\<close>

text \<open>
  Republishing forgets who stored what. The pass stores every value again as if it were the
  node's own, which deletes its attribution. After one pass over a store within its budget, with
  every value readable and no key blocked, the store holds exactly the same values but charges none
  of them to any peer: every peer has its whole quota again. With the default interval this happens
  once an hour.
\<close>

theorem republish_clears_quota:
  assumes "\<forall>n. calm (pe_lookup (pe n)) \<and> calm (\<lambda>_. pe_store (pe n))"
    and "store_exact (d_store d)" and "maxBytes (d_store d) \<le> 0 \<or> total_st (d_store d) \<le> maxBytes (d_store d)"
    and "set ks = fset (fmdom (data (d_store d)))"
    and "\<forall>k v. fmlookup (data (d_store d)) k = Some v \<longrightarrow> length v \<le> MaxValueSize \<and> (\<exists>i. k = Hex i \<and> \<not> IsBlocked d i)"
  shows "data (d_store (republishAll ks pe d)) = data (d_store d)
    \<and> (\<forall>p. p \<noteq> [] \<longrightarrow> PerPeerUsage (d_store (republishAll ks pe d)) p = 0)"
proof -
  let ?keys = "snapshotKeys ks (d_store d)" and ?d' = "republishAll ks pe d"
  have keys: "set ?keys = fset (fmdom (data (d_store d)))" using assms(4) by (auto simp: snapshotKeys_def)
  then have "\<forall>k\<in>set ?keys. \<exists>i v. k = Hex i \<and> fmlookup (data (d_store d)) k = Some v \<and> length v \<le> MaxValueSize \<and> \<not> IsBlocked d i"
    using assms(5) by (auto simp: fmlookup_dom_iff)
  from republish_loop_attribution [OF assms(1,2) _ this, of 0] assms(3) have r:
    "data (d_store ?d') = data (d_store d)" "attribution (d_store ?d') = fmdrop_set (set ?keys) (attribution (d_store d))"
    "store_exact (d_store ?d')" by (simp_all add: republishAll_def Let_def within_budget_def)
  have "fmlookup (attribution (d_store d)) k = None" if "k \<notin> set ?keys" for k
    using assms(2) that keys unfolding store_exact_def store_shape_def by (metis fmdom_notI fsubsetD fmdom_notD)
  then have "fmlookup (attribution (d_store ?d')) k = None" for k by (simp add: r(2))
  then have "peer_bytes (data (d_store ?d')) (attribution (d_store ?d')) p = 0" for p
    by (simp add: peer_bytes_def fmsum_def)
  then show ?thesis using r(1,3) by (simp add: store_exact_def counted_def PerPeerUsage_def)
qed

definition sample_publish :: "nat \<Rightarrow> publish_env" where
  "sample_publish n = \<lparr>pe_h = sample_henv, pe_lookup = sample_env (\<lambda>_ _. Inl []) (\<lambda>_ d. d),
     pe_store = sample_env (\<lambda>_ _. Inl []) (\<lambda>_ d. d) 0\<rparr>"

definition sample_charged :: DHT where
  "sample_charged = sample_dht\<lparr>d_store := sample_store1 (id_copy [])\<rparr>"

lemma sample_store1_exact: "store_exact (sample_store1 a)"
  by (auto simp: store_exact_def store_shape_def counted_def put_evals bytes_held_upd peer_bytes_upd fmdrop_fmupd)

theorem republish_clears_quota_witness:
  "PerPeerUsage (d_store sample_charged) ''p'' = 5
   \<and> PerPeerUsage (d_store (republishAll [Hex (id_copy [])] sample_publish sample_charged)) ''p'' = 0"
proof -
  have "\<forall>n. calm (pe_lookup (sample_publish n)) \<and> calm (\<lambda>_. pe_store (sample_publish n))"
    by (simp add: sample_publish_def calm_def sample_env_def)
  moreover have "\<not> IsBlocked sample_charged i" for i by (simp add: sample_charged_def IsBlocked_def sample_dht_def)
  ultimately show ?thesis
    using republish_clears_quota [of sample_publish sample_charged "[Hex (id_copy [])]"] sample_store1_exact
    by (simp add: sample_charged_def put_evals PerPeerUsage_def MaxValueSize_def)
qed

text \<open>
  C34: the maintenance passes are safe. Pinging the whole table never panics: no contact is the node
  itself, so that \<open>Remove\<close> always has a bucket. Pinging and republishing keep the invariants of the
  node and keep revoked chunks out of the store, whatever happens on the network meanwhile.
\<close>

theorem maintenance_safe:
  assumes "env_ok (\<lambda>_. e)" and "\<forall>n. publish_ok (pe n)" and "dht_inv s d" and "purged k d"
  shows "(\<exists>d'. pingAll e d = Some d' \<and> dht_inv s d' \<and> purged k d')
    \<and> dht_inv s (republishAll ks pe d) \<and> purged k (republishAll ks pe d)"
proof -
  have "\<forall>c\<in>set (All_rt (d_rt d)). ID c \<noteq> s"
  proof -
    have "rt_inv (d_rt d)" "self (d_rt d) = s" using assms(3) by (auto simp: dht_inv_def rt_state_inv_def)
    then show ?thesis using rt_inv_contact [of "d_rt d"] by simp
  qed
  then have "\<forall>c\<in>set (re_order e (All_rt (d_rt d))). ID c \<noteq> s"
    using env_ok_set [OF assms(1)] by auto
  from ping_loop_safe [OF assms(1,3) this, of 0] obtain d' where d': "pingAll e d = Some d'" "dht_changes d d'"
    by (auto simp: pingAll_def)
  have "dht_changes d (republishAll ks pe d)"
    unfolding republishAll_def by (rule republish_loop_changes) (use assms(2) in auto)
  with d' show ?thesis using dht_runs.run_inv purged_runs.run_inv assms(3,4) by blast
qed

theorem maintenance_safe_witness:
  "\<exists>d'. pingAll (sample_env (\<lambda>_ _. Inl []) (\<lambda>_ d. d) 0) (applyRevoke sample_known sample_revoke) = Some d'"
proof -
  have e: "env_ok (\<lambda>_. sample_env (\<lambda>_ _. Inl []) (\<lambda>_ d. d) 0)" by (auto simp: env_ok_def sample_env_def)
  have p: "\<forall>n. publish_ok (sample_publish n)"
    using e sample_env_ok by (auto simp: publish_ok_def sample_publish_def)
  have "purged (id_copy []) (applyRevoke sample_known sample_revoke)"
    by (rule applyRevoke_purged [of "Hex (id_copy [])"]) (simp_all add: sample_revoke_def)
  from maintenance_safe [OF e p dht_runs.run_inv [OF applyRevoke_changes sample_known_inv] this] show ?thesis by blast
qed

lemma try_peers_unreachable: "(\<And>a. \<not> be_connected (be a)) \<Longrightarrow> try_peers be addrs d = (d, False)"
  by (induction addrs) (auto simp: bootstrap_at_def Bootstrap_def)

text \<open>
  The pause between bootstrap attempts. It always stays between the configured interval, or the
  cap if that is smaller, and the larger of the two. As long as the node is alone and no bootstrap
  peer can be reached, it doubles with every attempt until it reaches the cap; as soon as the node
  has a contact, it is the configured interval again.
\<close>

theorem bootstrap_backoff:
  assumes "0 < BootstrapRetryInterval cfg" and "base = BootstrapRetryInterval cfg"
  shows "(let wait = snd (foldl (\<lambda>st be. bootstrap_iteration cfg be st) (d, base) bes)
          in min base MaxBootstrapBackoff \<le> wait \<and> wait \<le> max base MaxBootstrapBackoff)
    \<and> (Size (d_rt d) = 0 \<and> (\<forall>be\<in>set bes. \<forall>a. \<not> be_connected (be a)) \<and> base \<le> MaxBootstrapBackoff \<longrightarrow>
        foldl (\<lambda>st be. bootstrap_iteration cfg be st) (d, base) bes = (d, min (base * 2 ^ length bes) MaxBootstrapBackoff))
    \<and> (0 < Size (d_rt d) \<longrightarrow> snd (bootstrap_iteration cfg be (d, w)) = base)"
proof -
  have pos: "0 < MaxBootstrapBackoff" by (simp add: MaxBootstrapBackoff_def minute_def second_def)
  let ?ok = "\<lambda>w. min base MaxBootstrapBackoff \<le> w \<and> w \<le> max base MaxBootstrapBackoff"
  have step: "?ok w \<Longrightarrow> ?ok (snd (bootstrap_iteration cfg be (d, w)))" for be d w
    using pos assms by (auto simp: bootstrap_iteration_def Let_def split: prod.splits)
  have "?ok w \<Longrightarrow> ?ok (snd (foldl (\<lambda>st be. bootstrap_iteration cfg be st) (d, w) bes))" for d w
  proof (induction bes arbitrary: d w)
    case (Cons be bes)
    obtain d1 w1 where b: "bootstrap_iteration cfg be (d, w) = (d1, w1)" by fastforce
    then have "?ok w1" using step [OF Cons.prems, of be d] by simp
    from Cons.IH [OF this, of d1] b show ?case by simp
  qed simp
  moreover have "foldl (\<lambda>st be. bootstrap_iteration cfg be st) (d, w) bes = (d, min (w * 2 ^ length bes) MaxBootstrapBackoff)"
    if "Size (d_rt d) = 0" "\<forall>be\<in>set bes. \<forall>a. \<not> be_connected (be a)" "0 < w" "w \<le> MaxBootstrapBackoff" for w
    using that(2-4)
  proof (induction bes arbitrary: w)
    case (Cons be bes)
    let ?w = "min (w * 2) MaxBootstrapBackoff"
    have "bootstrap_iteration cfg be (d, w) = (d, ?w)"
      using that(1) Cons.prems(1) try_peers_unreachable [of be] by (auto simp: bootstrap_iteration_def Let_def)
    moreover have "min (?w * 2 ^ length bes) MaxBootstrapBackoff = min (w * 2 ^ length (be # bes)) MaxBootstrapBackoff"
    proof (cases "w * 2 \<le> MaxBootstrapBackoff")
      case False
      have "MaxBootstrapBackoff * 1 \<le> MaxBootstrapBackoff * 2 ^ length bes" "w * 2 * 1 \<le> w * 2 * 2 ^ length bes"
        using pos Cons.prems(2) by (intro mult_left_mono; simp)+
      then show ?thesis using False by (simp add: mult.assoc)
    qed (simp add: mult.assoc)
    ultimately show ?case using Cons.IH [of ?w] Cons.prems pos by simp
  qed simp
  ultimately show ?thesis using assms pos by (auto simp: Let_def bootstrap_iteration_def)
qed

theorem bootstrap_backoff_witness:
  "snd (foldl (\<lambda>st be. bootstrap_iteration (start_config \<lparr>BootstrapPeers = [''a''], RepublishInterval = 0, PeerCheckInterval = 0,
       BootstrapRetryInterval = 0\<rparr>) be st) (sample_dht, 30 * second)
     (replicate 2 (\<lambda>_. \<lparr>be_connected = False, be_waiting = \<lambda>d. d, be_lookup = sample_env (\<lambda>_ _. Inl []) (\<lambda>_ d. d)\<rparr>)))
   = 120 * second"
proof -
  let ?cfg = "start_config \<lparr>BootstrapPeers = [''a''], RepublishInterval = 0, PeerCheckInterval = 0, BootstrapRetryInterval = 0\<rparr>"
  have "Size (d_rt sample_dht) = 0"
    by (simp add: sample_dht_def Size_All_rt All_rt_concat SetEvictionPing_def NewRoutingTable_def)
  then show ?thesis
    using bootstrap_backoff [of ?cfg "30 * second" sample_dht
      "replicate 2 (\<lambda>_. \<lparr>be_connected = False, be_waiting = \<lambda>d. d, be_lookup = sample_env (\<lambda>_ _. Inl []) (\<lambda>_ d. d)\<rparr>)"]
    by (simp add: start_config_def Let_def DefaultBootstrapRetryInterval_def MaxBootstrapBackoff_def minute_def second_def)
qed

end
