(* ===== verification/Peer_Net.thy ===== *)
theory Peer_Net
  imports Dht
begin

text \<open>
  \<^verbatim>\<open>core/peer/peer.go\<close>, the connections of a peer: the alias map from addresses to connections, the
  canonical map from peer identifiers to connections, addresses and their wire form, requests that
  wait for a reply, and the loop that reads a connection.

  A connection is a number, and \<open>p_conns\<close> holds what the source keeps in the \<open>peerConn\<close> behind the
  pointer; equal pointers are equal numbers. What the operating system does (dialling, accepting,
  the secure handshake) is an argument.
\<close>

section \<open>Definitions\<close>

definition DefaultMaxConnections :: int where
  "DefaultMaxConnections = 1024"

record Peer =
  p_identity :: Identity
  p_Address :: string
  p_peers :: "(string, nat) fmap"
  p_byID :: "(string, nat) fmap"
  p_conns :: "nat \<Rightarrow> peerConn"
  p_pending :: "(string, Message list) fmap"
  p_relays :: "string list"
  p_public :: bool
  p_max :: int
  p_dialing :: "string fset"

definition no_conn :: peerConn where
  "no_conn = \<lparr>remoteID = [], remotePub = None, addresses = []\<rparr>"

definition New :: "Identity \<Rightarrow> string \<Rightarrow> Peer" where
  "New i address =
     \<lparr>p_identity = i, p_Address = address, p_peers = fmempty, p_byID = fmempty, p_conns = (\<lambda>_. no_conn),
      p_pending = fmempty, p_relays = [], p_public = False, p_max = DefaultMaxConnections, p_dialing = {||}\<rparr>"

definition SetMaxConnections :: "Peer \<Rightarrow> int \<Rightarrow> Peer" where
  "SetMaxConnections p n = p\<lparr>p_max := n\<rparr>"

definition atConnectionLimit :: "Peer \<Rightarrow> bool" where
  "atConnectionLimit p \<longleftrightarrow> p_max p > 0 \<and> int (fcard (fmdom (p_byID p))) \<ge> p_max p"

definition IsConnected :: "Peer \<Rightarrow> string \<Rightarrow> bool" where
  "IsConnected p addr \<longleftrightarrow> fmlookup (p_peers p) addr \<noteq> None"

subsection \<open>Addresses\<close>

definition SetPublic :: "Peer \<Rightarrow> bool \<Rightarrow> Peer" where
  "SetPublic p b = p\<lparr>p_public := b\<rparr>"

definition IsPublic :: "Peer \<Rightarrow> bool" where
  "IsPublic p = p_public p"

definition UseRelay :: "Peer \<Rightarrow> string list \<Rightarrow> Peer" where
  "UseRelay p relayAddrs = foldl (\<lambda>p addr. if addr = [] then p else p\<lparr>p_relays := p_relays p @ [addr]\<rparr>) p relayAddrs"

definition relay_url :: "string \<Rightarrow> string \<Rightarrow> string" where
  "relay_url relayAddr peerID = ''relay://'' @ relayAddr @ ''/'' @ peerID"

definition AdvertisedAddresses :: "prims \<Rightarrow> Peer \<Rightarrow> string list" where
  "AdvertisedAddresses c p =
     (let addrs = (if p_public p \<and> p_Address p \<noteq> [] then [p_Address p] else [])
                  @ map (\<lambda>ra. relay_url ra (Identity_ID c (p_identity p))) (p_relays p)
      in if addrs = [] then [p_Address p] else addrs)"

definition AdvertisedAddress :: "prims \<Rightarrow> Peer \<Rightarrow> string" where
  "AdvertisedAddress c p =
     (let addrs = AdvertisedAddresses c p in if addrs = [] then p_Address p else hd addrs)"

definition encodeAddresses :: "string list \<Rightarrow> string" where
  "encodeAddresses addrs = Join addrs '',''"

fun keep_addresses :: "string list \<Rightarrow> string list" where
  "keep_addresses [] = []"
| "keep_addresses (p # ps) = (let p' = TrimSpace p in if p' \<noteq> [] then p' # keep_addresses ps else keep_addresses ps)"

definition decodeAddresses :: "string \<Rightarrow> string list" where
  "decodeAddresses payload = (if payload = [] then [] else keep_addresses (Split payload (CHR '','')))"

definition parseRelayAddress :: "string \<Rightarrow> (string \<times> string) option" where
  "parseRelayAddress address =
     (if \<not> HasPrefix address ''relay://'' then None
      else
        let rest = drop (length ''relay://'') address
        in case IndexByte rest (CHR ''/'') of
             None \<Rightarrow> None
           | Some slash \<Rightarrow>
               if slash = 0 \<or> slash = length rest - 1 then None
               else Some (take slash rest, drop (slash + 1) rest))"

datatype dial = DialRelay string string | DialDirect string | DialBad

definition dialAddress :: "string \<Rightarrow> dial" where
  "dialAddress address =
     (if HasPrefix address ''relay://'' then
        (case parseRelayAddress address of
           None \<Rightarrow> DialBad
         | Some (relayAddr, peerID) \<Rightarrow> DialRelay relayAddr peerID)
      else DialDirect address)"

subsection \<open>The connection maps\<close>

definition appendUnique :: "string list \<Rightarrow> string \<Rightarrow> string list" where
  "appendUnique xs s = (if s \<in> set xs then xs else xs @ [s])"

definition add_alias :: "Peer \<Rightarrow> nat \<Rightarrow> string \<Rightarrow> Peer" where
  "add_alias p i addr =
     p\<lparr>p_peers := fmupd addr i (p_peers p),
       p_conns := (p_conns p)(i := (p_conns p i)\<lparr>addresses := appendUnique (addresses (p_conns p i)) addr\<rparr>)\<rparr>"

text \<open>The result is the existing connection, if there is one.\<close>

definition registerConn :: "Peer \<Rightarrow> nat \<Rightarrow> string \<Rightarrow> Peer \<times> nat option" where
  "registerConn p pc addr =
     (let rid = remoteID (p_conns p pc)
      in if rid \<noteq> [] then
           (case fmlookup (p_byID p) rid of
              Some cur \<Rightarrow>
                if cur \<noteq> pc then (add_alias p cur addr, Some cur)
                else (add_alias (p\<lparr>p_byID := fmupd rid pc (p_byID p)\<rparr>) pc addr, None)
            | None \<Rightarrow> (add_alias (p\<lparr>p_byID := fmupd rid pc (p_byID p)\<rparr>) pc addr, None))
         else (add_alias p pc addr, None))"

definition removeConn :: "Peer \<Rightarrow> nat \<Rightarrow> Peer" where
  "removeConn p pc =
     (let rid = remoteID (p_conns p pc);
          byID = (if rid \<noteq> [] \<and> fmlookup (p_byID p) rid = Some pc then fmdrop rid (p_byID p) else p_byID p);
          peers = foldl (\<lambda>m a. if fmlookup m a = Some pc then fmdrop a m else m) (p_peers p) (addresses (p_conns p pc))
      in p\<lparr>p_byID := byID, p_peers := peers\<rparr>)"

definition AddPeerAddress_op :: "Peer \<Rightarrow> string \<Rightarrow> string \<Rightarrow> Peer \<times> bool" where
  "AddPeerAddress_op p peerID addr =
     (case fmlookup (p_byID p) peerID of
        None \<Rightarrow> (p, False)
      | Some pc \<Rightarrow>
          if fmlookup (p_peers p) addr = Some pc then (p, False)
          else (add_alias p pc addr, True))"

definition PeerCount :: "Peer \<Rightarrow> nat" where
  "PeerCount p = fcard (fmdom (p_peers p))"

definition PeerCountByAddr :: "Peer \<Rightarrow> (string, string) fmap" where
  "PeerCountByAddr p = fmmap (\<lambda>i. remoteID (p_conns p i)) (p_peers p)"

definition UniqueConnCount :: "Peer \<Rightarrow> nat" where
  "UniqueConnCount p = fcard (fmdom (p_byID p))"

text \<open>\<open>order\<close> enumerates the alias map; the result is the connections the message is written to.\<close>

definition Broadcast_conns :: "Peer \<Rightarrow> string list \<Rightarrow> nat list" where
  "Broadcast_conns p order = map (\<lambda>a. the (fmlookup (p_peers p) a)) (filter (\<lambda>a. fmlookup (p_peers p) a \<noteq> None) order)"

text \<open>Stopping writes a goodbye to every alias and empties the alias map, but not the canonical map.\<close>

definition Stop :: "Peer \<Rightarrow> string list \<Rightarrow> Peer \<times> nat list" where
  "Stop p order = (p\<lparr>p_peers := fmempty\<rparr>, Broadcast_conns p order)"

text \<open>
  A new connection, dialled or accepted: \<open>fresh\<close> is its number, \<open>pub\<close> the key that the secure
  handshake authenticated, \<open>None\<close> when the dial or the handshake failed, and \<open>hello_ok\<close> tells
  whether the hello could be written. The limit is checked before the handshake; the handshake takes
  time, and \<open>p1\<close> is the peer when it has ended.
\<close>

datatype conn_result = ConnRefused | ConnFailed | ConnAliased | ConnHelloFailed | ConnUp

definition finish_conn :: "prims \<Rightarrow> Peer \<Rightarrow> nat \<Rightarrow> string \<Rightarrow> bytes \<Rightarrow> bool \<Rightarrow> Peer \<times> conn_result" where
  "finish_conn c p fresh addr pub hello_ok =
     (let p1 = p\<lparr>p_conns := (p_conns p)(fresh := \<lparr>remoteID = PublicKeyToID c pub, remotePub = Some pub, addresses = []\<rparr>)\<rparr>
      in case registerConn p1 fresh addr of
           (p2, Some _) \<Rightarrow> (p2, ConnAliased)
         | (p2, None) \<Rightarrow> if \<not> hello_ok then (removeConn p2 fresh, ConnHelloFailed) else (p2, ConnUp))"

definition Connect :: "prims \<Rightarrow> (Peer \<Rightarrow> Peer) \<Rightarrow> Peer \<Rightarrow> nat \<Rightarrow> string \<Rightarrow> bytes option \<Rightarrow> bool \<Rightarrow> Peer \<times> conn_result" where
  "Connect c meanwhile p fresh address pub hello_ok =
     (if atConnectionLimit p then (p, ConnRefused)
      else case pub of
             None \<Rightarrow> (meanwhile p, ConnFailed)
           | Some k \<Rightarrow> finish_conn c (meanwhile p) fresh address k hello_ok)"

definition handleIncoming :: "prims \<Rightarrow> (Peer \<Rightarrow> Peer) \<Rightarrow> Peer \<Rightarrow> nat \<Rightarrow> string \<Rightarrow> bytes option \<Rightarrow> bool \<Rightarrow> Peer \<times> conn_result" where
  "handleIncoming c meanwhile p fresh addr pub hello_ok =
     (if atConnectionLimit p then (p, ConnRefused)
      else case pub of
             None \<Rightarrow> (meanwhile p, ConnFailed)
           | Some k \<Rightarrow> finish_conn c (meanwhile p) fresh addr k hello_ok)"

definition handleIncomingFromRelay ::
  "prims \<Rightarrow> (Peer \<Rightarrow> Peer) \<Rightarrow> Peer \<Rightarrow> nat \<Rightarrow> string \<Rightarrow> bytes option \<Rightarrow> bool \<Rightarrow> Peer \<times> conn_result" where
  "handleIncomingFromRelay c meanwhile p fresh relayAddr pub hello_ok =
     (if atConnectionLimit p then (p, ConnRefused)
      else case pub of
             None \<Rightarrow> (meanwhile p, ConnFailed)
           | Some k \<Rightarrow> finish_conn c (meanwhile p) fresh (relay_url relayAddr (PublicKeyToID c k)) k hello_ok)"

text \<open>\<open>EnsureConnected\<close> at the moment of the call, and when the dial it started has ended.\<close>

datatype ensure = EnsureOK | EnsureWait | EnsureDial

definition EnsureConnected_begin :: "Peer \<Rightarrow> string \<Rightarrow> Peer \<times> ensure" where
  "EnsureConnected_begin p addr =
     (if IsConnected p addr then (p, EnsureOK)
      else if addr |\<in>| p_dialing p then (p, EnsureWait)
      else (p\<lparr>p_dialing := finsert addr (p_dialing p)\<rparr>, EnsureDial))"

definition EnsureConnected_end :: "Peer \<Rightarrow> string \<Rightarrow> Peer" where
  "EnsureConnected_end p addr = p\<lparr>p_dialing := p_dialing p |-| {|addr|}\<rparr>"

subsection \<open>Messages\<close>

text \<open>The connection a message to an address is written to.\<close>

definition Send_conn :: "Peer \<Rightarrow> string \<Rightarrow> nat option" where
  "Send_conn p address = fmlookup (p_peers p) address"

definition newReqID :: "bytes option \<Rightarrow> string option" where
  "newReqID rnd = map_option hex_encode rnd"

text \<open>
  A request: the channel is entered under the request identifier, the message is sent with it, and
  when the request returns, with the reply or after the timeout, the entry is deleted. The list is
  the content of the channel, which has room for one message.
\<close>

definition Request_begin :: "Peer \<Rightarrow> string \<Rightarrow> Message \<Rightarrow> Peer \<times> Message" where
  "Request_begin p reqID msg = (p\<lparr>p_pending := fmupd reqID [] (p_pending p)\<rparr>, msg\<lparr>m_ReqID := reqID\<rparr>)"

definition Request_end :: "Peer \<Rightarrow> string \<Rightarrow> Peer" where
  "Request_end p reqID = p\<lparr>p_pending := fmdrop reqID (p_pending p)\<rparr>"

definition Reply_message :: "Message \<Rightarrow> Message \<Rightarrow> Message" where
  "Reply_message request reply = reply\<lparr>m_ReqID := m_ReqID request\<rparr>"

datatype delivery =
    DeliverReply string Message
  | DeliverHandlers "Message option" Message

text \<open>
  What becomes of a verified message: it is written to the channel of the request it answers, or it
  is given to the handlers, after the built-in answer, if there is one.
\<close>

definition handleMessage :: "Peer \<Rightarrow> Message \<Rightarrow> Peer \<times> delivery" where
  "handleMessage p msg =
     (if m_ReqID msg \<noteq> [] \<and> fmlookup (p_pending p) (m_ReqID msg) \<noteq> None
      then (p\<lparr>p_pending := fmdrop (m_ReqID msg) (p_pending p)\<rparr>, DeliverReply (m_ReqID msg) msg)
      else (p, DeliverHandlers
              (if m_Type msg = ''ping'' then Some (zero_Message\<lparr>m_Type := ''pong'', m_Payload := ''alive''\<rparr>) else None) msg))"

text \<open>The messages a connection delivers from the bytes that arrive on it.\<close>

function readLoop :: "prims \<Rightarrow> peerConn \<Rightarrow> bytes \<Rightarrow> Message list" where
  "readLoop c pc s =
     (case read_frame s of
        FrameEOF \<Rightarrow> []
      | FrameBad \<Rightarrow> []
      | FrameMsg msg rest \<Rightarrow>
          (case verifyMessage c pc msg of
             Inl _ \<Rightarrow> []
           | Inr pc1 \<Rightarrow> msg # readLoop c pc1 rest))"
  by pat_completeness auto
termination
proof (relation "measure (\<lambda>(_, _, s). length s)", goal_cases)
  case (2 c pc s msg rest pc1)
  then show ?case by (auto simp: read_frame_def Let_def split: if_splits option.splits)
qed simp

declare readLoop.simps [simp del]

section \<open>The maps as a routing of addresses to peers\<close>

text \<open>
  The specification: the set of peers with a connection, and for each address the peer that a
  message to this address reaches.
\<close>

record net_spec =
  connected :: "string set"
  routes :: "string \<Rightarrow> string option"

datatype conn_event =
    EvConn nat string bytes bool
  | EvClose nat string
  | EvAlias string string

fun conn_step :: "prims \<Rightarrow> Peer \<Rightarrow> conn_event \<Rightarrow> Peer" where
  "conn_step c p (EvConn fresh addr pub hello_ok) = fst (finish_conn c p fresh addr pub hello_ok)"
| "conn_step c p (EvClose pc rid) = removeConn p pc"
| "conn_step c p (EvAlias rid addr) = fst (AddPeerAddress_op p rid addr)"

fun spec_step :: "prims \<Rightarrow> net_spec \<Rightarrow> conn_event \<Rightarrow> net_spec" where
  "spec_step c n (EvConn fresh addr pub hello_ok) =
     (let rid = PublicKeyToID c pub
      in if rid \<in> connected n then n\<lparr>routes := (routes n)(addr := Some rid)\<rparr>
         else if hello_ok then n\<lparr>connected := insert rid (connected n), routes := (routes n)(addr := Some rid)\<rparr>
         else n\<lparr>routes := (routes n)(addr := None)\<rparr>)"
| "spec_step c n (EvClose pc rid) =
     n\<lparr>connected := connected n - {rid}, routes := (\<lambda>a. if routes n a = Some rid then None else routes n a)\<rparr>"
| "spec_step c n (EvAlias rid addr) =
     (if rid \<in> connected n then n\<lparr>routes := (routes n)(addr := Some rid)\<rparr> else n)"

definition net_abs :: "Peer \<Rightarrow> net_spec" where
  "net_abs p = \<lparr>connected = fset (fmdom (p_byID p)),
     routes = (\<lambda>a. map_option (\<lambda>i. remoteID (p_conns p i)) (fmlookup (p_peers p) a))\<rparr>"

text \<open>A new connection has a new number; a connection that is closed was registered.\<close>

fun conn_legal :: "Peer \<Rightarrow> conn_event \<Rightarrow> bool" where
  "conn_legal p (EvConn fresh addr pub hello_ok) = (fresh |\<notin>| fmran (p_peers p) \<and> fresh |\<notin>| fmran (p_byID p))"
| "conn_legal p (EvClose pc rid) = (remoteID (p_conns p pc) = rid \<and> fmlookup (p_byID p) rid = Some pc)"
| "conn_legal p (EvAlias rid addr) = True"

definition conn_inv :: "Peer \<Rightarrow> bool" where
  "conn_inv p \<longleftrightarrow>
     (\<forall>rid i. fmlookup (p_byID p) rid = Some i \<longrightarrow> remoteID (p_conns p i) = rid \<and> rid \<noteq> [])
     \<and> (\<forall>a i. fmlookup (p_peers p) a = Some i \<longrightarrow>
          a \<in> set (addresses (p_conns p i)) \<and> fmlookup (p_byID p) (remoteID (p_conns p i)) = Some i)"

lemma conn_inv_byID: "conn_inv p \<Longrightarrow> fmlookup (p_byID p) rid = Some i \<Longrightarrow> remoteID (p_conns p i) = rid \<and> rid \<noteq> []"
  unfolding conn_inv_def by blast

lemma conn_inv_peers:
  "conn_inv p \<Longrightarrow> fmlookup (p_peers p) a = Some i \<Longrightarrow>
   a \<in> set (addresses (p_conns p i)) \<and> fmlookup (p_byID p) (remoteID (p_conns p i)) = Some i"
  unfolding conn_inv_def by blast

lemma conn_invI:
  assumes "\<And>rid i. fmlookup (p_byID p) rid = Some i \<Longrightarrow> remoteID (p_conns p i) = rid \<and> rid \<noteq> []"
    and "\<And>a i. fmlookup (p_peers p) a = Some i \<Longrightarrow>
      a \<in> set (addresses (p_conns p i)) \<and> fmlookup (p_byID p) (remoteID (p_conns p i)) = Some i"
  shows "conn_inv p"
  using assms unfolding conn_inv_def by blast

lemma set_appendUnique [simp]: "set (appendUnique xs s) = insert s (set xs)"
  by (auto simp: appendUnique_def)

lemma add_alias_simps [simp]:
  "p_byID (add_alias p i a) = p_byID p" "p_peers (add_alias p i a) = fmupd a i (p_peers p)"
  "remoteID (p_conns (add_alias p i a) j) = remoteID (p_conns p j)"
  "set (addresses (p_conns (add_alias p i a) j)) = (if j = i then insert a (set (addresses (p_conns p i))) else set (addresses (p_conns p j)))"
  by (auto simp: add_alias_def)

lemma add_alias_inv:
  "conn_inv p \<Longrightarrow> fmlookup (p_byID p) (remoteID (p_conns p i)) = Some i \<Longrightarrow> conn_inv (add_alias p i a)"
proof -
  assume inv: "conn_inv p" and i: "fmlookup (p_byID p) (remoteID (p_conns p i)) = Some i"
  have "b \<in> set (addresses (p_conns (add_alias p i a) j)) \<and> fmlookup (p_byID p) (remoteID (p_conns p j)) = Some j"
    if "fmlookup (fmupd a i (p_peers p)) b = Some j" for b j
  proof (cases "b = a")
    case True
    then show ?thesis using that i by simp
  next
    case False
    then show ?thesis using that inv by (simp add: conn_inv_def)
  qed
  with inv show ?thesis by (simp add: conn_inv_def)
qed

lemma add_alias_abs:
  "net_abs (add_alias p i a) = (net_abs p)\<lparr>routes := (routes (net_abs p))(a := Some (remoteID (p_conns p i)))\<rparr>"
  by (auto simp: net_abs_def fun_eq_iff)

lemma drop_aliases:
  "fmlookup (foldl (\<lambda>m a. if fmlookup m a = Some pc then fmdrop a m else m) m as) b =
     (if b \<in> set as \<and> fmlookup m b = Some pc then None else fmlookup m b)"
  by (induction as arbitrary: m) auto

lemma removeConn_lookup:
  assumes "conn_inv p" "fmlookup (p_byID p) (remoteID (p_conns p pc)) = Some pc"
  shows "fmlookup (p_peers (removeConn p pc)) a = (if fmlookup (p_peers p) a = Some pc then None else fmlookup (p_peers p) a)"
    and "p_byID (removeConn p pc) = fmdrop (remoteID (p_conns p pc)) (p_byID p)"
    and "p_conns (removeConn p pc) = p_conns p"
  using conn_inv_byID [OF assms] conn_inv_peers [OF assms(1), of a pc] assms(2)
  by (simp_all add: removeConn_def Let_def drop_aliases)

lemma removeConn_inv:
  assumes "conn_inv p" "fmlookup (p_byID p) (remoteID (p_conns p pc)) = Some pc"
  shows "conn_inv (removeConn p pc)"
proof (rule conn_invI, unfold removeConn_lookup [OF assms], goal_cases)
  case (1 rid i)
  then show ?case using conn_inv_byID [OF assms(1), of rid i] by (simp split: if_splits)
next
  case (2 a i)
  then have i: "fmlookup (p_peers p) a = Some i" "i \<noteq> pc" by (auto split: if_splits)
  note al = conn_inv_peers [OF assms(1) i(1)]
  then have "remoteID (p_conns p i) \<noteq> remoteID (p_conns p pc)" using assms(2) i(2) by auto
  with al show ?case by simp
qed


lemma removeConn_abs:
  assumes "conn_inv p" "fmlookup (p_byID p) (remoteID (p_conns p pc)) = Some pc"
  shows "net_abs (removeConn p pc) = spec_step c (net_abs p) (EvClose pc (remoteID (p_conns p pc)))"
proof -
  have "remoteID (p_conns p i) = remoteID (p_conns p pc) \<longleftrightarrow> i = pc" if "fmlookup (p_peers p) a = Some i" for a i
    using conn_inv_peers [OF assms(1) that] assms(2) by auto
  then show ?thesis by (auto simp: net_abs_def removeConn_lookup [OF assms] fun_eq_iff)
qed

lemma PublicKeyToID_nonempty: "prims_ok c \<Longrightarrow> PublicKeyToID c pub \<noteq> []"
  using PublicKeyToID_length [of c pub] by auto

lemma set_conn_inv:
  assumes "conn_inv p" "fresh |\<notin>| fmran (p_peers p)" "fresh |\<notin>| fmran (p_byID p)"
  shows "conn_inv (p\<lparr>p_conns := (p_conns p)(fresh := k)\<rparr>)" and "net_abs (p\<lparr>p_conns := (p_conns p)(fresh := k)\<rparr>) = net_abs p"
proof -
  have u: "fmlookup (p_byID p) rid = Some i \<Longrightarrow> i \<noteq> fresh" "fmlookup (p_peers p) a = Some i \<Longrightarrow> i \<noteq> fresh" for rid a i
    using assms(2,3) by (auto intro: fmranI)
  show "conn_inv (p\<lparr>p_conns := (p_conns p)(fresh := k)\<rparr>)"
  proof (rule conn_invI, goal_cases)
    case (1 rid i)
    then show ?case using conn_inv_byID [OF assms(1), of rid i] u(1) [of rid i] by simp
  next
    case (2 a i)
    then show ?case using conn_inv_peers [OF assms(1), of a i] u(2) [of a i] by simp
  qed
  show "net_abs (p\<lparr>p_conns := (p_conns p)(fresh := k)\<rparr>) = net_abs p"
    using u(2) by (auto simp: net_abs_def fun_eq_iff option.map_comp intro!: option.map_cong)
qed

text \<open>A connection is registered: to a peer that has one, and to a new peer.\<close>

lemma register_known:
  assumes "conn_inv p" "fmlookup (p_byID p) (remoteID (p_conns p pc)) = Some cur" "cur \<noteq> pc"
  shows "registerConn p pc addr = (add_alias p cur addr, Some cur)" "conn_inv (add_alias p cur addr)"
    "net_abs (add_alias p cur addr) = (net_abs p)\<lparr>routes := (routes (net_abs p))(addr := Some (remoteID (p_conns p pc)))\<rparr>"
  using conn_inv_byID [OF assms(1,2)] assms(2,3) add_alias_inv [OF assms(1), of cur addr]
  by (simp_all add: registerConn_def Let_def add_alias_abs)

lemma register_new:
  assumes "conn_inv p" "fmlookup (p_byID p) (remoteID (p_conns p pc)) = None" "remoteID (p_conns p pc) \<noteq> []"
    and "pc |\<notin>| fmran (p_peers p)"
    and p1_def: "p1 = add_alias (p\<lparr>p_byID := fmupd (remoteID (p_conns p pc)) pc (p_byID p)\<rparr>) pc addr"
  shows "registerConn p pc addr = (p1, None)" "conn_inv p1" "fmlookup (p_byID p1) (remoteID (p_conns p1 pc)) = Some pc"
    and "net_abs p1 = (net_abs p)\<lparr>connected := insert (remoteID (p_conns p pc)) (connected (net_abs p)),
      routes := (routes (net_abs p))(addr := Some (remoteID (p_conns p pc)))\<rparr>"
proof -
  let ?rid = "remoteID (p_conns p pc)"
  let ?q = "p\<lparr>p_byID := fmupd ?rid pc (p_byID p)\<rparr>"
  show "registerConn p pc addr = (p1, None)" using assms(2,3) by (simp add: registerConn_def Let_def p1_def)
  have "conn_inv ?q"
  proof (rule conn_invI, goal_cases)
    case (1 rid i)
    then show ?case using conn_inv_byID [OF assms(1), of rid i] assms(3) by (auto split: if_splits)
  next
    case (2 a i)
    then have a: "fmlookup (p_peers p) a = Some i" by simp
    then have "i \<noteq> pc" using assms(4) by (auto intro: fmranI)
    moreover have "remoteID (p_conns p i) \<noteq> ?rid" using conn_inv_peers [OF assms(1) a] assms(2) by auto
    ultimately show ?case using conn_inv_peers [OF assms(1) a] by simp
  qed
  then show "conn_inv p1" unfolding p1_def by (rule add_alias_inv) simp
  show "fmlookup (p_byID p1) (remoteID (p_conns p1 pc)) = Some pc" by (simp add: p1_def)
  show "net_abs p1 = (net_abs p)\<lparr>connected := insert ?rid (connected (net_abs p)),
      routes := (routes (net_abs p))(addr := Some ?rid)\<rparr>"
    by (simp add: p1_def add_alias_abs) (simp add: net_abs_def)
qed

lemma finish_conn_refines:
  assumes "prims_ok c" "conn_inv p" "fresh |\<notin>| fmran (p_peers p)" "fresh |\<notin>| fmran (p_byID p)"
  shows "conn_inv (fst (finish_conn c p fresh addr pub hello_ok))
    \<and> net_abs (fst (finish_conn c p fresh addr pub hello_ok)) = spec_step c (net_abs p) (EvConn fresh addr pub hello_ok)"
proof -
  let ?rid = "PublicKeyToID c pub"
  let ?q = "p\<lparr>p_conns := (p_conns p)(fresh := \<lparr>remoteID = ?rid, remotePub = Some pub, addresses = []\<rparr>)\<rparr>"
  note q = set_conn_inv [OF assms(2-4), of "\<lparr>remoteID = ?rid, remotePub = Some pub, addresses = []\<rparr>"]
  have rid: "remoteID (p_conns ?q fresh) = ?rid" "?rid \<noteq> []" using PublicKeyToID_nonempty [OF assms(1)] by auto
  have conn: "connected (net_abs p) = fset (fmdom (p_byID p))" by (simp add: net_abs_def)
  show ?thesis
  proof (cases "fmlookup (p_byID p) ?rid")
    case (Some cur)
    then have "cur \<noteq> fresh" using assms(4) by (auto intro: fmranI)
    moreover have "fmlookup (p_byID ?q) (remoteID (p_conns ?q fresh)) = Some cur" using Some by simp
    ultimately have r: "registerConn ?q fresh addr = (add_alias ?q cur addr, Some cur)" "conn_inv (add_alias ?q cur addr)"
      "net_abs (add_alias ?q cur addr) = (net_abs p)\<lparr>routes := (routes (net_abs p))(addr := Some ?rid)\<rparr>"
      using register_known [OF q(1), of fresh cur addr] q(2) by simp_all
    have "?rid \<in> connected (net_abs p)" using Some by (simp add: conn fmlookup_dom_iff)
    with r show ?thesis by (simp add: finish_conn_def Let_def)
  next
    case None
    then have "fmlookup (p_byID ?q) (remoteID (p_conns ?q fresh)) = None" "fresh |\<notin>| fmran (p_peers ?q)" using assms(3) by simp_all
    note r = register_new [OF q(1) this(1) _ this(2) refl, of addr]
    have nc: "?rid \<notin> connected (net_abs p)" using None by (simp add: conn fmlookup_dom_iff)
    show ?thesis
    proof (cases hello_ok)
      case True
      then show ?thesis using r rid nc q(2) by (simp add: finish_conn_def Let_def)
    next
      case False
      let ?p1 = "add_alias (?q\<lparr>p_byID := fmupd (remoteID (p_conns ?q fresh)) fresh (p_byID ?q)\<rparr>) fresh addr"
      have p1: "registerConn ?q fresh addr = (?p1, None)" "conn_inv ?p1" "fmlookup (p_byID ?p1) (remoteID (p_conns ?p1 fresh)) = Some fresh"
        "net_abs ?p1 = (net_abs p)\<lparr>connected := insert ?rid (connected (net_abs p)), routes := (routes (net_abs p))(addr := Some ?rid)\<rparr>"
        using r rid q(2) by simp_all
      have res: "fst (finish_conn c p fresh addr pub hello_ok) = removeConn ?p1 fresh"
        using p1(1) False by (simp add: finish_conn_def Let_def)
      have "routes (net_abs p) a \<noteq> Some ?rid" for a
        using conn_inv_peers [OF assms(2), of a] None by (auto simp: net_abs_def)
      then have "net_abs (removeConn ?p1 fresh) = spec_step c (net_abs p) (EvConn fresh addr pub hello_ok)"
        using removeConn_abs [OF p1(2,3), of c] nc False unfolding p1(4) by (auto simp: fun_eq_iff Let_def)
      then show ?thesis using removeConn_inv [OF p1(2,3)] res by simp
    qed
  qed
qed

interpretation nets: step_refinement "conn_step c" "spec_step c" net_abs conn_inv "\<lambda>p e. prims_ok c \<and> conn_legal p e"
  for c
proof (unfold_locales, goal_cases)
  case (1 p e)
  then show ?case
  proof (cases e)
    case (EvConn fresh addr pub hello_ok)
    then show ?thesis using 1 finish_conn_refines [of c p fresh addr pub hello_ok] by simp
  next
    case (EvClose pc rid)
    then show ?thesis using 1 by (auto intro: removeConn_inv)
  next
    case (EvAlias rid addr)
    have "fmlookup (p_byID p) rid = Some pc \<Longrightarrow> conn_inv (add_alias p pc addr)" for pc
      using conn_inv_byID [OF 1(1)] add_alias_inv [OF 1(1)] by simp
    then show ?thesis using 1(1) EvAlias by (auto simp: AddPeerAddress_op_def split: option.splits)
  qed
next
  case (2 p e)
  then show ?case
  proof (cases e)
    case (EvConn fresh addr pub hello_ok)
    then show ?thesis using 2 finish_conn_refines [of c p fresh addr pub hello_ok] by simp
  next
    case (EvClose pc rid)
    then show ?thesis using 2 removeConn_abs [of p pc c] by auto
  next
    case (EvAlias rid addr)
    show ?thesis
    proof (cases "fmlookup (p_byID p) rid")
      case None
      then show ?thesis using EvAlias by (simp add: AddPeerAddress_op_def net_abs_def fmlookup_dom_iff)
    next
      case (Some pc)
      have "fmlookup (p_peers p) addr = Some pc \<Longrightarrow> (routes (net_abs p))(addr := Some rid) = routes (net_abs p)"
        using conn_inv_byID [OF 2(1) Some] by (auto simp: net_abs_def fun_eq_iff)
      then show ?thesis using EvAlias Some conn_inv_byID [OF 2(1) Some]
        by (auto simp: AddPeerAddress_op_def add_alias_abs) (auto simp: net_abs_def fmlookup_dom_iff)
    qed
  qed
qed

lemma conn_inv_New: "conn_inv (New i address)"
  by (simp add: conn_inv_def New_def)

section \<open>Requests\<close>

text \<open>Requests that begin, end or are answered, in any order.\<close>

datatype req_event = ReqBegin string Message | ReqEnd string | ReqMessage Message

text \<open>A second message would block the reader: \<open>None\<close>.\<close>

fun req_step :: "Peer option \<Rightarrow> req_event \<Rightarrow> Peer option" where
  "req_step None e = None"
| "req_step (Some p) (ReqBegin reqID msg) = Some (fst (Request_begin p reqID msg))"
| "req_step (Some p) (ReqEnd reqID) = Some (Request_end p reqID)"
| "req_step (Some p) (ReqMessage msg) =
     (case handleMessage p msg of
        (p1, DeliverReply reqID _) \<Rightarrow> if fmlookup (p_pending p) reqID = Some [] then Some p1 else None
      | (p1, DeliverHandlers _ _) \<Rightarrow> Some p1)"

definition pending_inv :: "Peer option \<Rightarrow> bool" where
  "pending_inv r \<longleftrightarrow> (\<exists>p. r = Some p \<and> (\<forall>k ch. fmlookup (p_pending p) k = Some ch \<longrightarrow> ch = []))"

interpretation requests: handler_invariant req_step pending_inv
proof
  fix r e
  assume "pending_inv r"
  then obtain p where p: "r = Some p" "\<forall>k ch. fmlookup (p_pending p) k = Some ch \<longrightarrow> ch = []" by (auto simp: pending_inv_def)
  show "pending_inv (req_step r e)"
  proof (cases e)
    case (ReqMessage msg)
    then show ?thesis using p by (auto simp: pending_inv_def handleMessage_def)
  qed (use p in \<open>auto simp: pending_inv_def Request_begin_def Request_end_def split: if_splits\<close>)
qed

section \<open>Addresses\<close>

lemma keep_addresses_filter: "keep_addresses ps = filter (\<lambda>p. p \<noteq> []) (map TrimSpace ps)"
  by (induction ps) (auto simp: Let_def)

definition plain_address :: "string \<Rightarrow> bool" where
  "plain_address a \<longleftrightarrow> a \<noteq> [] \<and> CHR '','' \<notin> set a \<and> TrimSpace a = a"

lemma IndexByte_append: "x \<notin> set u \<Longrightarrow> IndexByte (u @ x # v) x = Some (length u)"
  by (induction u) auto

section \<open>Properties\<close>

text \<open>
  C10: the two connection maps implement a routing of addresses to peers. Whatever connections come
  and go and whatever aliases are added, a message to an address reaches the peer that the last such
  event for this address named, as long as this peer is connected; a peer never has two connections;
  and when its connection closes, no address leads to it any more.
\<close>

theorem conn_refinement:
  assumes "prims_ok c" and "legal_run (conn_step c) conn_legal (New i address) es" and "p = foldl (conn_step c) (New i address) es"
  shows "net_abs p = foldl (spec_step c) \<lparr>connected = {}, routes = (\<lambda>_. None)\<rparr> es
    \<and> (\<forall>a j. fmlookup (p_peers p) a = Some j \<longrightarrow> fmlookup (p_byID p) (remoteID (p_conns p j)) = Some j)"
proof -
  have l: "legal_run (conn_step c) (\<lambda>p e. prims_ok c \<and> conn_legal p e) (New i address) es" using assms(1,2) by simp
  have "conn_inv p" unfolding assms(3) by (rule nets.run_keeps [OF conn_inv_New l])
  moreover have "net_abs (New i address) = \<lparr>connected = {}, routes = (\<lambda>_. None)\<rparr>" by (simp add: net_abs_def New_def)
  ultimately show ?thesis using nets.run_refines [OF conn_inv_New l] by (auto simp: assms(3) dest: conn_inv_peers)
qed

theorem conn_refinement_witness:
  "routes (net_abs (foldl (conn_step toy_prims) (New toy_identity []) [EvConn 0 ''a'' [1] True])) ''a'' = Some (PublicKeyToID toy_prims [1])"
proof -
  have "legal_run (conn_step toy_prims) conn_legal (New toy_identity []) [EvConn 0 ''a'' [1] True]" by (simp add: New_def)
  from conn_refinement [OF toy_prims_ok this refl] show ?thesis by (simp add: Let_def)
qed

text \<open>
  A peer can take over the address of another. \<open>AddPeerAddress\<close> overwrites the connection an
  address leads to, and the DHT calls it for every address a peer claims in its hello. When a
  connected peer lists the address of another connected peer in its hello, messages to this address
  go to the claimant from then on.
\<close>

theorem hello_takes_address:
  assumes "observeHello h d from msg = Some (d', fx)" and "sender_id (h_prims h) msg = Some (claimant, i)"
    and "addr \<in> set (decodeAddresses (m_Payload msg))"
    and "conn_inv p" and "fmlookup (p_byID p) claimant = Some j"
    and "Send_conn p addr = Some victim" and "victim \<noteq> j"
  shows "AddPeerAddress claimant addr \<in> set fx
    \<and> Send_conn (fst (AddPeerAddress_op p claimant addr)) addr = Some j
    \<and> remoteID (p_conns p j) = claimant \<and> remoteID (p_conns p victim) \<noteq> claimant"
proof -
  have "addr \<in> set (decodeAddressesPayload (m_Payload msg))"
    using assms(3) by (auto simp: decodeAddresses_def decodeAddressesPayload_def keep_addresses_filter split: if_splits)
  then have "AddPeerAddress claimant addr \<in> set fx" using assms(1,2) by (auto simp: observeHello_def Let_def)
  moreover have "remoteID (p_conns p victim) \<noteq> claimant"
    using conn_inv_peers [OF assms(4), of addr victim] assms(5-7) by (auto simp: Send_conn_def)
  ultimately show ?thesis using assms(5-7) conn_inv_byID [OF assms(4,5)]
    by (auto simp: AddPeerAddress_op_def Send_conn_def)
qed

lemma IDFromHex_PublicKeyToID: "prims_ok c \<Longrightarrow> \<exists>i. IDFromHex (PublicKeyToID c pub) = Inr i"
  by (simp add: PublicKeyToID_def IDFromHex_def IDSize_def prims_ok_def)

definition sample_two :: Peer where
  "sample_two = (New toy_identity [])\<lparr>
     p_conns := (\<lambda>i. \<lparr>remoteID = (if i = 0 then ''other'' else Identity_ID toy_prims toy_identity), remotePub = None,
       addresses = (if i = 0 then [''v''] else [''w''])\<rparr>),
     p_peers := fmap_of_list [(''v'', 0), (''w'', 1)],
     p_byID := fmap_of_list [(''other'', 0), (Identity_ID toy_prims toy_identity, 1)]\<rparr>"

theorem hello_takes_address_witness:
  "Send_conn sample_two ''v'' = Some 0
   \<and> Send_conn (fst (AddPeerAddress_op sample_two (Identity_ID toy_prims toy_identity) ''v'')) ''v'' = Some 1"
proof -
  let ?pub = "PublicKey toy_identity" and ?msg = "zero_Message\<lparr>m_PublicKey := PublicKeyToHex (PublicKey toy_identity), m_Payload := ''v''\<rparr>"
  have ne: "Identity_ID toy_prims toy_identity \<noteq> ''other''"
    using PublicKeyToID_length [OF toy_prims_ok, of ?pub] by (auto simp: Identity_ID_def dest: arg_cong [of _ _ length])
  obtain i where "IDFromHex (PublicKeyToID toy_prims ?pub) = Inr i" using IDFromHex_PublicKeyToID [OF toy_prims_ok] by blast
  then have s: "sender_id (h_prims sample_henv) ?msg = Some (Identity_ID toy_prims toy_identity, i)"
    using PublicKeyFromHex_ToHex [OF PublicKey_length [OF toy_prims_ok toy_identity_ok]]
    by (simp add: sender_id_def sample_henv_def Identity_ID_def zero_Message_def)
  then obtain d' fx where h: "observeHello sample_henv sample_dht [] ?msg = Some (d', fx)"
    by (auto simp: observeHello_def Let_def)
  have v: "''v'' \<in> set (decodeAddresses (m_Payload ?msg))" by (simp add: zero_Message_def) code_simp
  have inv: "conn_inv sample_two"
    using ne PublicKeyToID_nonempty [OF toy_prims_ok, of ?pub]
    by (intro conn_invI) (auto simp: sample_two_def Identity_ID_def split: if_splits)
  from hello_takes_address [OF h s v inv, of 1 0] ne show ?thesis
    by (simp add: sample_two_def Send_conn_def)
qed

text \<open>
  The connection limit is not a limit. It is checked before the secure handshake and not again
  when the connection is registered. Two connections from different peers whose handshakes overlap
  both pass the check of a peer that admits one connection, and both are registered.
\<close>

theorem connection_limit_exceeded:
  assumes "prims_ok c" and "PublicKeyToID c k1 \<noteq> PublicKeyToID c k2"
    and "p0 = SetMaxConnections (New i address) 1"
    and "p1 = fst (handleIncoming c (\<lambda>p. p) p0 0 addr1 (Some k1) True)"
    and "p2 = fst (handleIncoming c (\<lambda>_. p1) p0 1 addr2 (Some k2) True)"
  shows "\<not> atConnectionLimit p0 \<and> UniqueConnCount p2 = 2 \<and> p_max p2 = 1"
proof -
  have ne: "PublicKeyToID c k1 \<noteq> []" "PublicKeyToID c k2 \<noteq> []" using PublicKeyToID_nonempty [OF assms(1)] by auto
  have lim: "\<not> atConnectionLimit p0" by (simp add: assms(3) atConnectionLimit_def SetMaxConnections_def New_def UniqueConnCount_def fcard.rep_eq)
  then have p1: "p1 = fst (finish_conn c p0 0 addr1 k1 True)" by (simp add: assms(4) handleIncoming_def)
  have m: "p_byID p1 = fmupd (PublicKeyToID c k1) 0 fmempty" "p_max p1 = 1"
    using ne by (simp_all add: p1 finish_conn_def registerConn_def Let_def assms(3) SetMaxConnections_def New_def)
      (simp add: add_alias_def)
  have p2: "p2 = fst (finish_conn c p1 1 addr2 k2 True)" using lim by (simp add: assms(5) handleIncoming_def)
  have "p_byID p2 = fmupd (PublicKeyToID c k2) 1 (fmupd (PublicKeyToID c k1) 0 fmempty)" "p_max p2 = 1"
    using ne m assms(2) by (simp_all add: p2 finish_conn_def registerConn_def Let_def) (simp add: add_alias_def)
  then show ?thesis using lim assms(2) by (simp add: UniqueConnCount_def fcard.rep_eq)
qed

theorem connection_limit_exceeded_witness:
  "UniqueConnCount (fst (handleIncoming toy_prims
     (\<lambda>_. fst (handleIncoming toy_prims (\<lambda>p. p) (SetMaxConnections (New toy_identity []) 1) 0 ''x'' (Some [1]) True))
     (SetMaxConnections (New toy_identity []) 1) 1 ''y'' (Some [2]) True)) = 2"
proof -
  have "PublicKeyToID toy_prims [1] \<noteq> PublicKeyToID toy_prims [2]" by code_simp
  from connection_limit_exceeded [OF toy_prims_ok this refl refl refl] show ?thesis by blast
qed

text \<open>
  Delivering a reply never blocks the reader of a connection. Whatever requests begin, are
  answered, time out and end, and whatever messages arrive, the channel of a request that is still
  entered is empty, so that writing the reply to it succeeds at once.
\<close>

theorem replies_never_block: "foldl req_step (Some (New i address)) es \<noteq> None"
proof -
  have "pending_inv (Some (New i address))" by (simp add: pending_inv_def New_def)
  from requests.fold_inv [OF this, of es] show ?thesis by (auto simp: pending_inv_def)
qed

text \<open>
  The two decoders of address lists agree, the one of the peer layer and the copy the DHT has of
  it, and they invert the encoder on addresses without commas and surrounding space.
\<close>

theorem addresses_roundtrip:
  "decodeAddresses payload = decodeAddressesPayload payload
   \<and> (list_all plain_address addrs \<longrightarrow> decodeAddressesPayload (encodeAddresses addrs) = addrs)"
proof -
  have eq: "decodeAddresses s = decodeAddressesPayload s" for s
    by (simp add: decodeAddresses_def decodeAddressesPayload_def keep_addresses_filter)
  have "decodeAddressesPayload (encodeAddresses addrs) = addrs" if "list_all plain_address addrs"
  proof (cases "addrs = []")
    case False
    have "Split (encodeAddresses addrs) (CHR '','') = addrs"
      unfolding encodeAddresses_def by (rule Split_Join [OF False]) (use that in \<open>auto simp: list_all_iff plain_address_def\<close>)
    moreover have "encodeAddresses addrs \<noteq> []"
    proof
      assume "encodeAddresses addrs = []"
      with calculation have "addrs = [[]]" by simp
      then show False using that by (simp add: plain_address_def)
    qed
    moreover have "map TrimSpace addrs = addrs" using that by (intro map_idI) (auto simp: list_all_iff plain_address_def)
    moreover have "filter (\<lambda>p. p \<noteq> []) addrs = addrs"
      using that by (intro filter_True) (auto simp: list_all_iff plain_address_def)
    ultimately show ?thesis by (simp add: decodeAddressesPayload_def)
  qed (simp add: decodeAddressesPayload_def encodeAddresses_def)
  with eq show ?thesis by blast
qed

theorem addresses_roundtrip_witness: "decodeAddressesPayload (encodeAddresses [''a:1'', ''b:2'']) = [''a:1'', ''b:2'']"
proof -
  have "list_all plain_address [''a:1'', ''b:2'']" by code_simp
  then show ?thesis using addresses_roundtrip by blast
qed

text \<open>
  A peer that uses a relay advertises an address that others can dial. The relay address of a
  peer is parsed into the relay and the identifier of the peer it was made of, whatever the relay
  address is, as long as it is not empty and has no slash.
\<close>

theorem relay_address_roundtrip:
  assumes "prims_ok c" and "CHR ''/'' \<notin> set ra" and "ra \<noteq> []" and "ra \<in> set (p_relays p)"
  shows "relay_url ra (Identity_ID c (p_identity p)) \<in> set (AdvertisedAddresses c p)
    \<and> dialAddress (relay_url ra (Identity_ID c (p_identity p))) = DialRelay ra (Identity_ID c (p_identity p))"
proof -
  let ?id = "Identity_ID c (p_identity p)"
  have id: "?id \<noteq> []" using PublicKeyToID_nonempty [OF assms(1)] by (simp add: Identity_ID_def)
  have "IndexByte (ra @ CHR ''/'' # ?id) (CHR ''/'') = Some (length ra)" by (rule IndexByte_append [OF assms(2)])
  moreover have "length ra \<noteq> length (ra @ CHR ''/'' # ?id) - 1" using id by simp
  ultimately have "parseRelayAddress (relay_url ra ?id) = Some (ra, ?id)"
    using assms(3) by (simp add: parseRelayAddress_def relay_url_def HasPrefix_def)
  then have "dialAddress (relay_url ra ?id) = DialRelay ra ?id" by (simp add: dialAddress_def relay_url_def HasPrefix_def)
  moreover have "relay_url ra ?id \<in> set (AdvertisedAddresses c p)" using assms(4) by (auto simp: AdvertisedAddresses_def Let_def)
  ultimately show ?thesis by blast
qed

theorem relay_address_roundtrip_witness:
  "dialAddress (relay_url ''r:1'' (Identity_ID toy_prims toy_identity)) = DialRelay ''r:1'' (Identity_ID toy_prims toy_identity)"
proof -
  have "''r:1'' \<in> set (p_relays (UseRelay (New toy_identity []) [''r:1'']))" by (simp add: UseRelay_def New_def)
  from relay_address_roundtrip [OF toy_prims_ok _ _ this] show ?thesis by (simp add: UseRelay_def New_def)
qed

lemma read_loop_one:
  assumes "prims_ok c" "identity_ok c i" "utf8 (m_Type m)" "utf8 (m_ReqID m)" "utf8 (m_Payload m)"
    "sendOn c i m = Some frame" "remotePub pc = Some (PublicKey i)"
  shows "readLoop c pc (frame @ rest) = sign_message c i m # readLoop c pc rest"
  using sendOn_delivered [OF assms(1-7), of rest] by (subst readLoop.simps) simp

text \<open>
  A connection delivers exactly what the other side sends. The bytes that \<open>sendOn\<close> writes for a
  sequence of messages are read back as these messages, signed and in order, on a connection whose
  handshake established the sender's key; nothing is lost, repeated or refused.
\<close>

lemma stream_delivers:
  assumes "prims_ok c" and "identity_ok c i" and "remotePub pc = Some (PublicKey i)"
    and "\<forall>m\<in>set ms. utf8 (m_Type m) \<and> utf8 (m_ReqID m) \<and> utf8 (m_Payload m) \<and> sendOn c i m \<noteq> None"
  shows "readLoop c pc (concat (map (\<lambda>m. the (sendOn c i m)) ms)) = map (sign_message c i) ms"
  using assms(4)
proof (induction ms)
  case Nil
  then show ?case by (subst readLoop.simps) (simp add: read_frame_def)
next
  case (Cons m ms)
  then obtain frame where "sendOn c i m = Some frame" by auto
  with Cons read_loop_one [OF assms(1,2) _ _ _ this assms(3)] show ?case by simp
qed

end
