(* ===== verification/Secure.thy ===== *)
theory Secure
  imports Identity "HOL-Library.Monad_Syntax"
begin

text \<open>
  \<^verbatim>\<open>core/secure/secure.go\<close>: the handshake that authenticates both ends of a connection, the keys it
  derives, and the encrypted frames that follow.

  HMAC is modelled over the hash of \<open>prims\<close>. X25519 and AES-256-GCM are parameters, the record
  \<open>channel_prims\<close>; \<open>channel_ok\<close> states what is documented of them: sizes, that the two sides of an
  exchange compute the same secret, and that \<open>Open\<close> returns exactly what \<open>Seal\<close> encrypted under the
  same key and nonce. A raw connection is the list of bytes that arrive on it; the bytes an
  operation writes are part of its result. Whether a write or setting a deadline fails is an
  argument, and a deadline that passes is the end of the arriving bytes.
\<close>

section \<open>Definitions\<close>

record channel_prims = prims +
  x_public :: "bytes \<Rightarrow> bytes"
  x_ecdh :: "bytes \<Rightarrow> bytes \<Rightarrow> bytes option"
  gcm_seal :: "bytes \<Rightarrow> bytes \<Rightarrow> bytes \<Rightarrow> bytes"
  gcm_open :: "bytes \<Rightarrow> bytes \<Rightarrow> bytes \<Rightarrow> bytes option"

definition base_prims :: "channel_prims \<Rightarrow> prims" where
  "base_prims c = \<lparr>sha256 = sha256 c, ed_public = ed_public c, ed_sign = ed_sign c, ed_verify = ed_verify c\<rparr>"

definition channel_ok :: "channel_prims \<Rightarrow> bool" where
  "channel_ok c \<longleftrightarrow> prims_ok (base_prims c)
     \<and> (\<forall>k d. length (ed_sign c k d) = 64)
     \<and> (\<forall>a. length a = 32 \<longrightarrow> length (x_public c a) = 32)
     \<and> (\<forall>a b. length a = 32 \<longrightarrow> length b = 32 \<longrightarrow> x_ecdh c a (x_public c b) = x_ecdh c b (x_public c a))
     \<and> (\<forall>k n p. length (gcm_seal c k n p) = length p + 16)
     \<and> (\<forall>k n ct p. gcm_open c k n ct = Some p \<longleftrightarrow> ct = gcm_seal c k n p)"

definition HandshakeMessageSize :: nat where
  "HandshakeMessageSize = 32 + 32 + 64"

definition MaxFrameSize :: nat where
  "MaxFrameSize = 2 ^ 20 + 64"

subsection \<open>HKDF\<close>

text \<open>HMAC-SHA256 of the standard library: a key longer than the block of 64 bytes is hashed first.\<close>

definition hmac :: "'z prims_scheme \<Rightarrow> bytes \<Rightarrow> bytes \<Rightarrow> bytes" where
  "hmac c key d =
     (let k = (if length key > 64 then sha256 c key else key);
          k = k @ replicate (64 - length k) 0
      in sha256 c (map (\<lambda>b. b XOR 0x5c) k @ sha256 c (map (\<lambda>b. b XOR 0x36) k @ d)))"

text \<open>
  The expansion loop. It would not end for a hash of length zero; \<open>None\<close> stands for that. The
  counter is a byte and wraps around.
\<close>

partial_function (option) hkdf_expand ::
  "'z prims_scheme \<Rightarrow> bytes \<Rightarrow> bytes \<Rightarrow> nat \<Rightarrow> byte \<Rightarrow> bytes \<Rightarrow> bytes \<Rightarrow> bytes option" where
  "hkdf_expand c prk info outLen i out prev =
     (if length out < outLen
      then let prev' = hmac c prk (prev @ info @ [i])
           in hkdf_expand c prk info outLen (i + 1) (out @ prev') prev'
      else Some out)"

definition hkdf :: "'z prims_scheme \<Rightarrow> bytes \<Rightarrow> bytes option \<Rightarrow> bytes \<Rightarrow> nat \<Rightarrow> bytes option" where
  "hkdf c ikm salt info outLen =
     (let salt' = (case salt of None \<Rightarrow> replicate 32 0 | Some s \<Rightarrow> s);
          prk = hmac c salt' ikm
      in map_option (take outLen) (hkdf_expand c prk info outLen 1 [] []))"

subsection \<open>The handshake\<close>

text \<open>\<open>Diverges\<close> is not an error of the source: it stands for a key derivation that does not end.\<close>

datatype secure_error =
    ErrDeadline | ErrGenerate | ErrSizes | ErrWrite | ErrShortHandshake | ErrIdentityMismatch
  | ErrResponderSignature | ErrInitiatorSignature | ErrRemoteEphemeral | ErrEcdh | ErrCipher
  | Diverges

definition writeHandshake :: "bool \<Rightarrow> bytes \<Rightarrow> bytes \<Rightarrow> bytes \<Rightarrow> secure_error + bytes" where
  "writeHandshake write_ok ltPub ephPub sig =
     (if length ltPub \<noteq> 32 \<or> length ephPub \<noteq> 32 \<or> length sig \<noteq> 64 then Inl ErrSizes
      else if \<not> write_ok then Inl ErrWrite
      else Inr (ltPub @ ephPub @ sig))"

text \<open>The result is the long-term key, the ephemeral key, the signature and the bytes that follow.\<close>

definition readHandshake :: "bytes \<Rightarrow> secure_error + bytes \<times> bytes \<times> bytes \<times> bytes" where
  "readHandshake s =
     (if length s < HandshakeMessageSize then Inl ErrShortHandshake
      else Inr (take 32 s, take 32 (drop 32 s), take 64 (drop 64 s), drop HandshakeMessageSize s))"

record Conn =
  sendKey :: bytes
  recvKey :: bytes
  sendCount :: "64 word"
  recvCount :: "64 word"
  c_remotePub :: bytes
  readBuf :: bytes

definition aes_key :: "bytes \<Rightarrow> bool" where
  "aes_key k \<longleftrightarrow> length k = 16 \<or> length k = 24 \<or> length k = 32"

definition finishHandshake :: "channel_prims \<Rightarrow> bytes \<Rightarrow> bytes \<Rightarrow> bytes \<Rightarrow> bool \<Rightarrow> secure_error + Conn" where
  "finishHandshake c ephPriv theirEph remotePub isInitiator =
     (if length theirEph \<noteq> 32 then Inl ErrRemoteEphemeral
      else case x_ecdh c ephPriv theirEph of
             None \<Rightarrow> Inl ErrEcdh
           | Some shared \<Rightarrow>
               let myEph = x_public c ephPriv;
                   transcript = (if isInitiator then myEph @ theirEph else theirEph @ myEph)
               in case hkdf c shared (Some transcript) (bytes_of_string ''altnet-aead-v1'') 64 of
                    None \<Rightarrow> Inl Diverges
                  | Some keys \<Rightarrow>
                      let keyI2R = take 32 keys;
                          keyR2I = take 32 (drop 32 keys);
                          send = (if isInitiator then keyI2R else keyR2I);
                          recv = (if isInitiator then keyR2I else keyI2R)
                      in if \<not> aes_key send \<or> \<not> aes_key recv then Inl ErrCipher
                         else Inr \<lparr>sendKey = send, recvKey = recv, sendCount = 0, recvCount = 0,
                                c_remotePub = remotePub, readBuf = []\<rparr>)"

text \<open>
  \<open>eph\<close> is the ephemeral private key the random source gives. The result is what was written and,
  on success, the connection and the bytes that arrived after the handshake of the other side.
\<close>

definition Handshake ::
  "channel_prims \<Rightarrow> bool \<Rightarrow> bytes option \<Rightarrow> bool \<Rightarrow> bytes \<Rightarrow> bool \<Rightarrow> bytes option \<Rightarrow> bytes
   \<Rightarrow> bytes \<times> (secure_error + Conn \<times> bytes)" where
  "Handshake c deadline_ok eph write_ok myKey isInitiator expectedRemote incoming =
     (if \<not> deadline_ok then ([], Inl ErrDeadline)
      else case eph of
        None \<Rightarrow> ([], Inl ErrGenerate)
      | Some ephPriv \<Rightarrow>
        let ephPub = x_public c ephPriv;
            myLT = key_Public myKey
        in if isInitiator
           then case writeHandshake write_ok myLT ephPub (ed_sign c myKey ephPub) of
                  Inl e \<Rightarrow> ([], Inl e)
                | Inr out \<Rightarrow>
                    (out, case readHandshake incoming of
                       Inl e \<Rightarrow> Inl e
                     | Inr (theirLT, theirEph, theirSig, rest) \<Rightarrow>
                         if expectedRemote \<noteq> None \<and> expectedRemote \<noteq> Some theirLT then Inl ErrIdentityMismatch
                         else if \<not> ed_verify c theirLT (theirEph @ ephPub) theirSig then Inl ErrResponderSignature
                         else map_sum (\<lambda>e. e) (\<lambda>conn. (conn, rest)) (finishHandshake c ephPriv theirEph theirLT True))
           else case readHandshake incoming of
                  Inl e \<Rightarrow> ([], Inl e)
                | Inr (theirLT, theirEph, theirSig, rest) \<Rightarrow>
                    if expectedRemote \<noteq> None \<and> expectedRemote \<noteq> Some theirLT then ([], Inl ErrIdentityMismatch)
                    else if \<not> ed_verify c theirLT theirEph theirSig then ([], Inl ErrInitiatorSignature)
                    else case writeHandshake write_ok myLT ephPub (ed_sign c myKey (ephPub @ theirEph)) of
                           Inl e \<Rightarrow> ([], Inl e)
                         | Inr out \<Rightarrow>
                             (out, map_sum (\<lambda>e. e) (\<lambda>conn. (conn, rest)) (finishHandshake c ephPriv theirEph theirLT False)))"

subsection \<open>Frames\<close>

definition be64 :: "64 word \<Rightarrow> bytes" where
  "be64 n = map (\<lambda>i. ucast (drop_bit (8 * i) n)) (rev [0..<8])"

definition nonceFor :: "64 word \<Rightarrow> bytes" where
  "nonceFor counter = replicate 4 0 @ be64 counter"

datatype io_error = ErrEOF | ErrFrameSize | ErrDecrypt | ErrFrameTooLarge | ErrRawWrite

text \<open>The connection and the remaining bytes change also when the frame is refused.\<close>

definition readNextFrame :: "channel_prims \<Rightarrow> Conn \<Rightarrow> bytes \<Rightarrow> Conn \<times> bytes \<times> io_error option" where
  "readNextFrame c conn s =
     (if length s < 4 then (conn, [], Some ErrEOF)
      else
        let size = be_nat (take 4 s);
            rest = drop 4 s
        in if size = 0 \<or> size > MaxFrameSize then (conn, rest, Some ErrFrameSize)
           else if length rest < size then (conn, [], Some ErrEOF)
           else
             let conn1 = conn\<lparr>recvCount := recvCount conn + 1\<rparr>
             in case gcm_open c (recvKey conn) (nonceFor (recvCount conn)) (take size rest) of
                  None \<Rightarrow> (conn1, drop size rest, Some ErrDecrypt)
                | Some pt \<Rightarrow> (conn1\<lparr>readBuf := readBuf conn1 @ pt\<rparr>, drop size rest, None))"

text \<open>
  \<open>Read\<close> into a buffer of \<open>n\<close> bytes. Reading from an empty \<^verbatim>\<open>bytes.Buffer\<close> is an end of file,
  unless nothing was asked for.
\<close>

definition Conn_Read :: "channel_prims \<Rightarrow> Conn \<Rightarrow> bytes \<Rightarrow> nat \<Rightarrow> Conn \<times> bytes \<times> (io_error + bytes)" where
  "Conn_Read c conn s n =
     (let (conn, s, err) = (if readBuf conn = [] then readNextFrame c conn s else (conn, s, None))
      in case err of
           Some e \<Rightarrow> (conn, s, Inl e)
         | None \<Rightarrow>
             if readBuf conn = [] then (conn, s, if n = 0 then Inr [] else Inl ErrEOF)
             else (conn\<lparr>readBuf := drop n (readBuf conn)\<rparr>, s, Inr (take n (readBuf conn))))"

definition Conn_Write :: "channel_prims \<Rightarrow> bool \<Rightarrow> Conn \<Rightarrow> bytes \<Rightarrow> Conn \<times> (io_error + bytes)" where
  "Conn_Write c write_ok conn p =
     (let ct = gcm_seal c (sendKey conn) (nonceFor (sendCount conn)) p;
          conn1 = conn\<lparr>sendCount := sendCount conn + 1\<rparr>
      in if length ct > MaxFrameSize then (conn1, Inl ErrFrameTooLarge)
         else if \<not> write_ok then (conn1, Inl ErrRawWrite)
         else (conn1, Inr (be32 (length ct) @ ct)))"

text \<open>
  \<^verbatim>\<open>io.ReadFull\<close> on the connection: \<open>Read\<close> until \<open>n\<close> bytes are there. Every call that returns gives at
  least one byte.
\<close>

lemma Conn_Read_progress:
  assumes "Conn_Read c conn s n = (conn', s', Inr bs)" and "0 < n"
  shows "bs \<noteq> []" and "length bs \<le> n"
  using assms by (auto simp: Conn_Read_def split: prod.splits option.splits if_splits)

function ReadFull :: "channel_prims \<Rightarrow> Conn \<Rightarrow> bytes \<Rightarrow> nat \<Rightarrow> Conn \<times> bytes \<times> (io_error + bytes)" where
  "ReadFull c conn s n =
     (if n = 0 then (conn, s, Inr [])
      else case Conn_Read c conn s n of
             (conn1, s1, Inl e) \<Rightarrow> (conn1, s1, Inl e)
           | (conn1, s1, Inr bs) \<Rightarrow>
               (case ReadFull c conn1 s1 (n - length bs) of
                  (conn2, s2, r) \<Rightarrow> (conn2, s2, map_sum (\<lambda>e. e) (\<lambda>outs. bs @ outs) r)))"
  by pat_completeness auto
termination
  by (relation "measure (\<lambda>(_, _, _, n). n)") (auto dest: Conn_Read_progress [OF sym])

declare ReadFull.simps [simp del]

section \<open>Key derivation\<close>

lemma base_prims_simps [simp]:
  "sha256 (base_prims c) = sha256 c" "ed_public (base_prims c) = ed_public c"
  "ed_sign (base_prims c) = ed_sign c" "ed_verify (base_prims c) = ed_verify c"
  by (simp_all add: base_prims_def)

lemma length_hmac: "(\<forall>d. length (sha256 c d) = 32) \<Longrightarrow> length (hmac c key d) = 32"
  by (simp add: hmac_def Let_def)

text \<open>The blocks of RFC 5869: every block is the HMAC of the previous one, the info and its number.\<close>

primrec hkdf_T :: "'z prims_scheme \<Rightarrow> bytes \<Rightarrow> bytes \<Rightarrow> nat \<Rightarrow> bytes" where
  "hkdf_T c prk info 0 = []"
| "hkdf_T c prk info (Suc i) = hmac c prk (hkdf_T c prk info i @ info @ [of_nat (Suc i)])"

definition hkdf_blocks :: "'z prims_scheme \<Rightarrow> bytes \<Rightarrow> bytes \<Rightarrow> nat \<Rightarrow> bytes" where
  "hkdf_blocks c prk info n = concat (map (hkdf_T c prk info) [1..<Suc n])"

lemma hkdf_blocks_Suc: "hkdf_blocks c prk info (Suc n) = hkdf_blocks c prk info n @ hkdf_T c prk info (Suc n)"
  by (simp add: hkdf_blocks_def)

lemma length_hkdf_blocks: "(\<forall>d. length (sha256 c d) = 32) \<Longrightarrow> length (hkdf_blocks c prk info n) = 32 * n"
  by (induction n) (simp_all add: hkdf_blocks_Suc length_hmac, simp add: hkdf_blocks_def)

lemma hkdf_expand_blocks:
  assumes "\<forall>d. length (sha256 c d) = 32" and "32 * k < outLen + 32"
  shows "hkdf_expand c prk info outLen (of_nat (Suc k)) (hkdf_blocks c prk info k) (hkdf_T c prk info k)
    = Some (hkdf_blocks c prk info ((outLen + 31) div 32))"
  using assms(2)
proof (induction "outLen - 32 * k" arbitrary: k rule: less_induct)
  case less
  show ?case
  proof (cases "32 * k < outLen")
    case True
    let ?T = "hkdf_T c prk info (Suc k)"
    have "hkdf_expand c prk info outLen (of_nat (Suc k)) (hkdf_blocks c prk info k) (hkdf_T c prk info k)
        = hkdf_expand c prk info outLen (of_nat (Suc (Suc k))) (hkdf_blocks c prk info (Suc k)) ?T"
      by (subst hkdf_expand.simps) (simp add: True length_hkdf_blocks assms(1) hkdf_blocks_Suc Let_def add.commute)
    also have "\<dots> = Some (hkdf_blocks c prk info ((outLen + 31) div 32))" by (rule less.hyps) (use True in auto)
    finally show ?thesis .
  next
    case False
    with less.prems have "(outLen + 31) div 32 = k" by linarith
    with False show ?thesis by (subst hkdf_expand.simps) (simp add: length_hkdf_blocks assms(1))
  qed
qed

lemma hkdf_spec:
  assumes "\<forall>d. length (sha256 c d) = 32"
  shows "hkdf c ikm (Some salt) info outLen
    = Some (take outLen (hkdf_blocks c (hmac c salt ikm) info ((outLen + 31) div 32)))"
  using hkdf_expand_blocks [OF assms, of 0 outLen "hmac c salt ikm" info]
  by (simp add: hkdf_def hkdf_blocks_def)

lemma hkdf_length:
  assumes "\<forall>d. length (sha256 c d) = 32"
  shows "\<exists>keys. hkdf c ikm (Some salt) info outLen = Some keys \<and> length keys = outLen"
proof -
  have "outLen \<le> 32 * ((outLen + 31) div 32)" by linarith
  then show ?thesis using hkdf_spec [OF assms, of ikm salt info outLen] length_hkdf_blocks [OF assms] by simp
qed

section \<open>The handshake\<close>

lemma channel_okD:
  assumes "channel_ok c"
  shows "prims_ok (base_prims c)" "\<forall>d. length (sha256 c d) = 32" "length (ed_sign c k d) = 64"
    "length a = 32 \<Longrightarrow> length (x_public c a) = 32"
    "length a = 32 \<Longrightarrow> length b = 32 \<Longrightarrow> x_ecdh c a (x_public c b) = x_ecdh c b (x_public c a)"
    "length (gcm_seal c k n p) = length p + 16"
    "gcm_open c k n ct = Some p \<longleftrightarrow> ct = gcm_seal c k n p"
  using assms unfolding channel_ok_def prims_ok_def by auto

text \<open>The two keys a session derives: first the one of the initiator, then the one of the responder.\<close>

definition session_keys :: "channel_prims \<Rightarrow> bytes \<Rightarrow> bytes \<Rightarrow> bytes \<Rightarrow> bytes" where
  "session_keys c shared ephI ephR =
     take 64 (hkdf_blocks c (hmac c (ephI @ ephR) shared) (bytes_of_string ''altnet-aead-v1'') 2)"

lemma length_session_keys: "\<forall>d. length (sha256 c d) = 32 \<Longrightarrow> length (session_keys c shared a b) = 64"
  by (simp add: session_keys_def length_hkdf_blocks)

lemma hkdf_session_keys:
  assumes "\<forall>d. length (sha256 c d) = 32"
  shows "hkdf c shared (Some (a @ b)) (bytes_of_string ''altnet-aead-v1'') 64 = Some (session_keys c shared a b)"
  unfolding session_keys_def using hkdf_spec [OF assms, of shared "a @ b" "bytes_of_string ''altnet-aead-v1''" 64] by simp

lemma finishHandshake_keys:
  assumes "channel_ok c" and "length theirEph = 32" and "x_ecdh c ephPriv theirEph = Some shared"
  shows "finishHandshake c ephPriv theirEph pub True = Inr
      \<lparr>sendKey = take 32 (session_keys c shared (x_public c ephPriv) theirEph),
       recvKey = drop 32 (session_keys c shared (x_public c ephPriv) theirEph),
       sendCount = 0, recvCount = 0, c_remotePub = pub, readBuf = []\<rparr>"
    and "finishHandshake c ephPriv theirEph pub False = Inr
      \<lparr>sendKey = drop 32 (session_keys c shared theirEph (x_public c ephPriv)),
       recvKey = take 32 (session_keys c shared theirEph (x_public c ephPriv)),
       sendCount = 0, recvCount = 0, c_remotePub = pub, readBuf = []\<rparr>"
  using assms length_session_keys [OF channel_okD(2) [OF assms(1)]]
  by (simp_all add: finishHandshake_def hkdf_session_keys [OF channel_okD(2) [OF assms(1)]] aes_key_def Let_def)

lemma finishHandshake_Inr:
  assumes "channel_ok c" and "finishHandshake c ephPriv theirEph pub ini = Inr conn"
  shows "c_remotePub conn = pub" "\<exists>shared. x_ecdh c ephPriv theirEph = Some shared" "length theirEph = 32"
  using assms by (auto simp: finishHandshake_def Let_def split: if_splits option.splits)

lemma readHandshake_message:
  "length lt = 32 \<Longrightarrow> length eph = 32 \<Longrightarrow> length sig = 64 \<Longrightarrow>
   readHandshake (lt @ eph @ sig @ rest) = Inr (lt, eph, sig, rest)"
  by (simp add: readHandshake_def HandshakeMessageSize_def)

lemma readHandshake_Inr:
  assumes "readHandshake s = Inr (lt, eph, sig, rest)"
  shows "s = lt @ eph @ sig @ rest" "length lt = 32" "length eph = 32" "length sig = 64"
proof -
  have l: "128 \<le> length s" and e: "lt = take 32 s" "eph = take 32 (drop 32 s)" "sig = take 64 (drop 64 s)" "rest = drop 128 s"
    using assms by (auto simp: readHandshake_def HandshakeMessageSize_def split: if_splits)
  have "s = take 32 s @ take 32 (drop 32 s) @ take 64 (drop 32 (drop 32 s)) @ drop 64 (drop 32 (drop 32 s))"
    by (simp only: append_take_drop_id)
  then show "s = lt @ eph @ sig @ rest" using e by simp
  show "length lt = 32" "length eph = 32" "length sig = 64" using e l by simp_all
qed

lemma identity_keys:
  assumes "channel_ok c" and "identity_ok (base_prims c) i"
  shows "key_Public (PrivateKey i) = PublicKey i" "length (PublicKey i) = 32"
    "ed_verify c (PublicKey i) d (ed_sign c (PrivateKey i) d)"
  using assms channel_okD(1) [OF assms(1)]
  by (auto simp: identity_ok_def prims_ok_def key_Public_def NewKeyFromSeed_def)

lemma map_sum_Inr_iff: "map_sum f g x = Inr y \<longleftrightarrow> (\<exists>z. x = Inr z \<and> y = g z)"
  by (cases x) auto

definition accepts :: "bytes option \<Rightarrow> bytes \<Rightarrow> bool" where
  "accepts expected pub \<longleftrightarrow> expected = None \<or> expected = Some pub"

text \<open>The two messages of an undisturbed handshake.\<close>

definition hello_I :: "channel_prims \<Rightarrow> Identity \<Rightarrow> bytes \<Rightarrow> bytes" where
  "hello_I c i a = PublicKey i @ x_public c a @ ed_sign c (PrivateKey i) (x_public c a)"

definition hello_R :: "channel_prims \<Rightarrow> Identity \<Rightarrow> bytes \<Rightarrow> bytes \<Rightarrow> bytes" where
  "hello_R c j b ephI = PublicKey j @ x_public c b @ ed_sign c (PrivateKey j) (x_public c b @ ephI)"

definition conn_I :: "channel_prims \<Rightarrow> bytes \<Rightarrow> bytes \<Rightarrow> bytes \<Rightarrow> bytes \<Rightarrow> Conn" where
  "conn_I c shared ephI ephR pub =
     \<lparr>sendKey = take 32 (session_keys c shared ephI ephR), recvKey = drop 32 (session_keys c shared ephI ephR),
      sendCount = 0, recvCount = 0, c_remotePub = pub, readBuf = []\<rparr>"

definition conn_R :: "channel_prims \<Rightarrow> bytes \<Rightarrow> bytes \<Rightarrow> bytes \<Rightarrow> bytes \<Rightarrow> Conn" where
  "conn_R c shared ephI ephR pub =
     \<lparr>sendKey = drop 32 (session_keys c shared ephI ephR), recvKey = take 32 (session_keys c shared ephI ephR),
      sendCount = 0, recvCount = 0, c_remotePub = pub, readBuf = []\<rparr>"

lemma Handshake_initiator:
  assumes "channel_ok c" and "identity_ok (base_prims c) i" and "identity_ok (base_prims c) j"
    and "length a = 32" and "length b = 32" and "x_ecdh c a (x_public c b) = Some shared" and "accepts expected (PublicKey j)"
  shows "Handshake c True (Some a) True (PrivateKey i) True expected (hello_R c j b (x_public c a) @ rest)
    = (hello_I c i a, Inr (conn_I c shared (x_public c a) (x_public c b) (PublicKey j), rest))"
  using assms identity_keys [OF assms(1,2)] identity_keys [OF assms(1,3)] channel_okD(3,4) [OF assms(1)]
  by (auto simp: Handshake_def writeHandshake_def hello_I_def hello_R_def readHandshake_message accepts_def
      finishHandshake_keys conn_I_def Let_def)

lemma Handshake_responder:
  assumes "channel_ok c" and "identity_ok (base_prims c) i" and "identity_ok (base_prims c) j"
    and "length a = 32" and "length b = 32" and "x_ecdh c b (x_public c a) = Some shared" and "accepts expected (PublicKey i)"
  shows "Handshake c True (Some b) True (PrivateKey j) False expected (hello_I c i a @ rest)
    = (hello_R c j b (x_public c a), Inr (conn_R c shared (x_public c a) (x_public c b) (PublicKey i), rest))"
  using assms identity_keys [OF assms(1,2)] identity_keys [OF assms(1,3)] channel_okD(3,4) [OF assms(1)]
  by (auto simp: Handshake_def writeHandshake_def hello_I_def hello_R_def readHandshake_message accepts_def
      finishHandshake_keys conn_R_def Let_def)

section \<open>The stream of frames\<close>

text \<open>The first frame of the arriving bytes, the ciphertexts of all frames, and what they decrypt to.\<close>

definition next_ct :: "bytes \<Rightarrow> (bytes \<times> bytes) option" where
  "next_ct s =
     (let size = be_nat (take 4 s)
      in if length s < 4 \<or> size = 0 \<or> size > MaxFrameSize \<or> length (drop 4 s) < size then None
         else Some (take size (drop 4 s), drop size (drop 4 s)))"

lemma next_ct_shorter: "next_ct s = Some (ct, rest) \<Longrightarrow> length ct + length rest + 4 = length s"
  by (auto simp: next_ct_def Let_def split: if_splits)

function cts :: "bytes \<Rightarrow> bytes list" where
  "cts s = (case next_ct s of None \<Rightarrow> [] | Some (ct, rest) \<Rightarrow> ct # cts rest)"
  by pat_completeness auto
termination
  by (relation "measure length") (auto dest: next_ct_shorter)

declare cts.simps [simp del]

text \<open>An empty frame is the end of the stream for whoever reads it.\<close>

function plaintexts :: "channel_prims \<Rightarrow> bytes \<Rightarrow> 64 word \<Rightarrow> bytes \<Rightarrow> bytes list" where
  "plaintexts c key n s =
     (case next_ct s of
        None \<Rightarrow> []
      | Some (ct, rest) \<Rightarrow>
          (case gcm_open c key (nonceFor n) ct of
             None \<Rightarrow> []
           | Some p \<Rightarrow> if p = [] then [] else p # plaintexts c key (n + 1) rest))"
  by pat_completeness auto
termination
  by (relation "measure (\<lambda>(_, _, _, s). length s)") (auto dest: next_ct_shorter)

declare plaintexts.simps [simp del]

definition available :: "channel_prims \<Rightarrow> Conn \<Rightarrow> bytes \<Rightarrow> bytes" where
  "available c conn s = readBuf conn @ concat (plaintexts c (recvKey conn) (recvCount conn) s)"

lemma readNextFrame_next:
  "next_ct s = Some (ct, rest) \<Longrightarrow> readNextFrame c conn s =
     (case gcm_open c (recvKey conn) (nonceFor (recvCount conn)) ct of
        None \<Rightarrow> (conn\<lparr>recvCount := recvCount conn + 1\<rparr>, rest, Some ErrDecrypt)
      | Some pt \<Rightarrow> (conn\<lparr>recvCount := recvCount conn + 1, readBuf := readBuf conn @ pt\<rparr>, rest, None))"
  "next_ct s = None \<Longrightarrow> \<exists>s' e. readNextFrame c conn s = (conn, s', Some e)"
  by (auto simp: next_ct_def readNextFrame_def Let_def split: if_splits option.splits)

text \<open>One \<open>Read\<close> that finds bytes takes them from the front of what is available.\<close>

lemma Conn_Read_available:
  assumes "available c conn s \<noteq> []" and "0 < n"
  obtains conn' s' bs where "Conn_Read c conn s n = (conn', s', Inr bs)" "bs \<noteq> []" "length bs \<le> n"
    "available c conn s = bs @ available c conn' s'" "recvKey conn' = recvKey conn"
proof (cases "readBuf conn = []")
  case False
  then show ?thesis using assms(2) that by (auto simp: Conn_Read_def available_def)
next
  case True
  with assms(1) have "plaintexts c (recvKey conn) (recvCount conn) s \<noteq> []" by (auto simp: available_def)
  then obtain ct rest p where p: "next_ct s = Some (ct, rest)" "gcm_open c (recvKey conn) (nonceFor (recvCount conn)) ct = Some p"
    "p \<noteq> []" by (subst (asm) plaintexts.simps) (auto split: option.splits if_splits)
  have "available c conn s = p @ concat (plaintexts c (recvKey conn) (recvCount conn + 1) rest)"
    using p True by (simp add: available_def plaintexts.simps [of c _ _ s])
  moreover have "Conn_Read c conn s n
      = (conn\<lparr>recvCount := recvCount conn + 1, readBuf := drop n p\<rparr>, rest, Inr (take n p))"
    using p True by (simp add: Conn_Read_def readNextFrame_next(1) [OF p(1)])
  ultimately show ?thesis using p(3) assms(2) that by (auto simp: available_def)
qed

lemma ReadFull_available:
  assumes "n \<le> length (available c conn s)"
  shows "\<exists>conn' s'. ReadFull c conn s n = (conn', s', Inr (take n (available c conn s)))
    \<and> available c conn' s' = drop n (available c conn s) \<and> recvKey conn' = recvKey conn"
  using assms
proof (induction n arbitrary: conn s rule: less_induct)
  case (less n)
  show ?case
  proof (cases "n = 0")
    case False
    then have "available c conn s \<noteq> []" using less.prems by auto
    from Conn_Read_available [OF this] False obtain conn1 s1 bs where r: "Conn_Read c conn s n = (conn1, s1, Inr bs)" "bs \<noteq> []"
      "length bs \<le> n" "available c conn s = bs @ available c conn1 s1" "recvKey conn1 = recvKey conn" by blast
    have "n - length bs < n" using r(2) False by (simp add: diff_less)
    moreover have "n - length bs \<le> length (available c conn1 s1)" using less.prems r(4) by simp
    ultimately obtain conn' s' where
      "ReadFull c conn1 s1 (n - length bs) = (conn', s', Inr (take (n - length bs) (available c conn1 s1)))"
      "available c conn' s' = drop (n - length bs) (available c conn1 s1)" "recvKey conn' = recvKey conn1"
      using less.IH [of "n - length bs" conn1 s1] by blast
    then show ?thesis using r False by (subst ReadFull.simps) simp
  qed (subst ReadFull.simps, simp)
qed

subsection \<open>What a sequence of writes puts on the wire\<close>

fun write_all :: "channel_prims \<Rightarrow> Conn \<Rightarrow> bytes list \<Rightarrow> Conn \<times> bytes" where
  "write_all c conn [] = (conn, [])"
| "write_all c conn (p # ps) =
     (case Conn_Write c True conn p of
        (conn1, r) \<Rightarrow> (case write_all c conn1 ps of (conn2, outs) \<Rightarrow> (conn2, (case r of Inl _ \<Rightarrow> [] | Inr out \<Rightarrow> out) @ outs)))"

definition fits :: "bytes \<Rightarrow> bool" where
  "fits p \<longleftrightarrow> p \<noteq> [] \<and> length p + 16 \<le> MaxFrameSize"

lemma next_ct_frame:
  assumes "ct \<noteq> []" and "length ct \<le> MaxFrameSize"
  shows "next_ct (be32 (length ct) @ ct @ rest) = Some (ct, rest)"
proof -
  have "be_nat (be32 (length ct)) = length ct" using assms(2) by (intro be_nat_be32) (simp add: MaxFrameSize_def)
  with assms show ?thesis by (simp add: next_ct_def)
qed

lemma write_all_Cons:
  assumes "channel_ok c" and "fits p"
  shows "write_all c conn (p # ps) = (case write_all c (conn\<lparr>sendCount := sendCount conn + 1\<rparr>) ps of
    (conn2, outs) \<Rightarrow> (conn2, be32 (length p + 16) @ gcm_seal c (sendKey conn) (nonceFor (sendCount conn)) p @ outs))"
  using assms by (simp add: Conn_Write_def fits_def channel_okD(6) Let_def split: prod.splits)

lemma write_all_plaintexts:
  assumes "channel_ok c" and "list_all fits ps"
  shows "plaintexts c (sendKey conn) (sendCount conn) (snd (write_all c conn ps) @ rest)
    = ps @ plaintexts c (sendKey conn) (sendCount conn + of_nat (length ps)) rest"
  using assms(2)
proof (induction ps arbitrary: conn)
  case (Cons p ps)
  let ?ct = "gcm_seal c (sendKey conn) (nonceFor (sendCount conn)) p" and ?conn = "conn\<lparr>sendCount := sendCount conn + 1\<rparr>"
  have l: "length ?ct = length p + 16" by (rule channel_okD(6) [OF assms(1)])
  have "snd (write_all c conn (p # ps)) @ rest = be32 (length ?ct) @ ?ct @ snd (write_all c ?conn ps) @ rest"
    using Cons.prems by (simp add: write_all_Cons [OF assms(1)] l split: prod.splits del: write_all.simps)
  moreover have "next_ct (be32 (length ?ct) @ ?ct @ snd (write_all c ?conn ps) @ rest) = Some (?ct, snd (write_all c ?conn ps) @ rest)"
    using Cons.prems l by (intro next_ct_frame) (auto simp: fits_def)
  moreover have "gcm_open c (sendKey conn) (nonceFor (sendCount conn)) ?ct = Some p" by (simp add: channel_okD(7) [OF assms(1)])
  ultimately show ?case using Cons.IH [of ?conn] Cons.prems
    by (subst plaintexts.simps) (simp add: fits_def add.assoc del: write_all.simps)
qed simp

lemma available_written:
  assumes "channel_ok c" and "list_all fits ps" and "recvKey conn = sendKey w" and "recvCount conn = sendCount w"
    and "readBuf conn = []"
  shows "available c conn (snd (write_all c w ps)) = concat ps"
proof -
  have "next_ct [] = None" by (simp add: next_ct_def)
  then have "plaintexts c (sendKey w) k [] = []" for k by (subst plaintexts.simps) simp
  then show "available c conn (snd (write_all c w ps)) = concat ps"
    using write_all_plaintexts [OF assms(1,2), of w "[]"] assms(3-5) by (simp add: available_def)
qed

subsection \<open>Nonces\<close>

lemma of_nat_eq_iff_64: "k < 2 ^ 64 \<Longrightarrow> k' < 2 ^ 64 \<Longrightarrow> of_nat k = (of_nat k' :: 64 word) \<longleftrightarrow> k = k'"
  by (simp add: word_of_nat_eq_iff take_bit_nat_eq_self)

lemma be64_inj: "be64 m = be64 n \<Longrightarrow> m = n"
proof (rule bit_word_eqI)
  fix k assume eq: "be64 m = be64 n" and k: "k < LENGTH(64)"
  have "be64 m ! (7 - k div 8) = be64 n ! (7 - k div 8)" using eq by simp
  moreover have nth: "rev [0..<8] ! (7 - k div 8) = k div 8"
  proof -
    have "k div 8 < 8" using k by simp
    then have "rev [0..<8] ! (7 - k div 8) = [0..<8] ! (8 - Suc (7 - k div 8))" by (subst rev_nth) simp_all
    with \<open>k div 8 < 8\<close> show ?thesis by (simp add: nth_upt del: upt_conv_Cons)
  qed
  have "be64 x ! (7 - k div 8) = ucast (drop_bit (8 * (rev [0..<8] ! (7 - k div 8))) x)" for x
    by (simp add: be64_def)
  then have "be64 x ! (7 - k div 8) = ucast (drop_bit (8 * (k div 8)) x)" for x unfolding nth .
  ultimately have "(ucast (drop_bit (8 * (k div 8)) m) :: byte) = ucast (drop_bit (8 * (k div 8)) n)" by simp
  then have "bit (ucast (drop_bit (8 * (k div 8)) m) :: byte) (k mod 8) = bit (ucast (drop_bit (8 * (k div 8)) n) :: byte) (k mod 8)"
    by simp
  then show "bit m k = bit n k" by (simp add: bit_ucast_iff bit_drop_bit_eq)
qed

lemma nonceFor_inj [simp]: "nonceFor m = nonceFor n \<longleftrightarrow> m = n"
  using be64_inj by (auto simp: nonceFor_def)

section \<open>Properties\<close>

text \<open>A concrete instance of the primitives, for the witnesses.\<close>

definition toy_seal :: "bytes \<Rightarrow> bytes \<Rightarrow> bytes \<Rightarrow> bytes" where
  "toy_seal k n p = p @ take 16 (n @ k @ replicate 16 0)"

definition toy_channel :: channel_prims where
  "toy_channel = \<lparr>sha256 = (\<lambda>d. take 32 (d @ replicate 32 0)), ed_public = (\<lambda>seed. seed),
     ed_sign = (\<lambda>priv d. take 32 (drop 32 priv @ replicate 32 0) @ take 32 (d @ replicate 32 0)),
     ed_verify = (\<lambda>pub d sig. sig = take 32 (pub @ replicate 32 0) @ take 32 (d @ replicate 32 0)),
     x_public = (\<lambda>a. a), x_ecdh = (\<lambda>a b. Some (map2 (XOR) a b)), gcm_seal = toy_seal,
     gcm_open = (\<lambda>k n ct. if length ct \<ge> 16 \<and> ct = toy_seal k n (take (length ct - 16) ct)
       then Some (take (length ct - 16) ct) else None)\<rparr>"

lemma toy_channel_ok [simp]: "channel_ok toy_channel"
proof -
  have "length (take 32 (d @ replicate 32 0)) = 32" for d :: bytes by (simp add: min_def)
  moreover have "map2 (XOR) a b = map2 (XOR) b a" for a b :: bytes
    by (subst zip_commute) (simp add: case_prod_beta comp_def xor.commute)
  moreover have l: "length (toy_seal k n p) = length p + 16" for k n p by (simp add: toy_seal_def)
  moreover have "take (length ct - 16) ct = p" if "ct = toy_seal k n p" for k n p ct
    using that l by (simp add: toy_seal_def)
  ultimately show ?thesis
    by (simp add: channel_ok_def prims_ok_def toy_channel_def base_prims_def) (auto simp: l)
qed

lemma toy_channel_identity [simp]: "identity_ok (base_prims toy_channel) toy_identity"
  unfolding identity_ok_def toy_identity_def
  by (rule exI [of _ "replicate 32 1"]) (simp add: toy_channel_def NewKeyFromSeed_def replicate_add [symmetric])

text \<open>
  C23: the handshake of two honest ends succeeds and agrees. Each end accepts exactly the message the
  other writes, learns the long-term key of the other, and derives the key the other uses for the
  opposite direction; what arrives after the handshake is left for the frames.
\<close>

theorem handshake_agrees:
  assumes "channel_ok c" and "identity_ok (base_prims c) i" and "identity_ok (base_prims c) j"
    and "length a = 32" and "length b = 32" and "x_ecdh c a (x_public c b) = Some shared"
    and "accepts expectI (PublicKey j)" and "accepts expectR (PublicKey i)"
  shows "\<exists>m1 m2 ci cr.
     Handshake c True (Some a) True (PrivateKey i) True expectI (m2 @ restI) = (m1, Inr (ci, restI))
   \<and> Handshake c True (Some b) True (PrivateKey j) False expectR (m1 @ restR) = (m2, Inr (cr, restR))
   \<and> c_remotePub ci = PublicKey j \<and> c_remotePub cr = PublicKey i
   \<and> sendKey ci = recvKey cr \<and> sendKey cr = recvKey ci \<and> sendCount ci = recvCount cr \<and> sendCount cr = recvCount ci
   \<and> length (sendKey ci) = 32 \<and> length (sendKey cr) = 32"
proof -
  let ?ci = "conn_I c shared (x_public c a) (x_public c b) (PublicKey j)"
    and ?cr = "conn_R c shared (x_public c a) (x_public c b) (PublicKey i)"
  have "x_ecdh c b (x_public c a) = Some shared" using assms(4-6) channel_okD(5) [OF assms(1)] by metis
  then have "Handshake c True (Some b) True (PrivateKey j) False expectR (hello_I c i a @ restR)
      = (hello_R c j b (x_public c a), Inr (?cr, restR))"
    using assms by (intro Handshake_responder)
  moreover have "Handshake c True (Some a) True (PrivateKey i) True expectI (hello_R c j b (x_public c a) @ restI)
      = (hello_I c i a, Inr (?ci, restI))"
    using assms by (intro Handshake_initiator)
  moreover have "length (session_keys c shared (x_public c a) (x_public c b)) = 64"
    by (rule length_session_keys [OF channel_okD(2) [OF assms(1)]])
  ultimately show ?thesis
    by (intro exI [of _ "hello_I c i a"] exI [of _ "hello_R c j b (x_public c a)"] exI [of _ ?ci] exI [of _ ?cr])
      (simp add: conn_I_def conn_R_def)
qed

theorem handshake_agrees_witness:
  "\<exists>m1 m2 ci cr.
     Handshake toy_channel True (Some (replicate 32 2)) True (PrivateKey toy_identity) True None (m2 @ []) = (m1, Inr (ci, []))
   \<and> Handshake toy_channel True (Some (replicate 32 3)) True (PrivateKey toy_identity) False None (m1 @ []) = (m2, Inr (cr, []))
   \<and> sendKey ci = recvKey cr"
proof -
  have "x_ecdh toy_channel (replicate 32 2) (x_public toy_channel (replicate 32 3))
      = Some (map2 (XOR) (replicate 32 2) (replicate 32 3))" by (simp add: toy_channel_def)
  from handshake_agrees [OF toy_channel_ok toy_channel_identity toy_channel_identity _ _ this, of None None "[]" "[]"]
  show ?thesis by (auto simp: accepts_def)
qed

lemma handshake_authenticity:
  assumes "channel_ok c" and "Handshake c dl (Some eph) w myKey ini expected incoming = (out, Inr (conn, rest))"
  shows "accepts expected (c_remotePub conn)
    \<and> (\<exists>theirEph sig. incoming = c_remotePub conn @ theirEph @ sig @ rest \<and> length (c_remotePub conn) = 32
         \<and> length theirEph = 32 \<and> length sig = 64
         \<and> ed_verify c (c_remotePub conn) (if ini then theirEph @ x_public c eph else theirEph) sig)"
proof -
  obtain lt theirEph sig where r: "readHandshake incoming = Inr (lt, theirEph, sig, rest)"
    "finishHandshake c eph theirEph lt ini = Inr conn" "accepts expected lt"
    "ed_verify c lt (if ini then theirEph @ x_public c eph else theirEph) sig"
  proof (cases "readHandshake incoming")
    case (Inr r)
    then show ?thesis using assms(2) that
      by (cases r) (auto simp: Handshake_def Let_def accepts_def map_sum_Inr_iff split: if_splits sum.splits)
  qed (use assms(2) in \<open>auto simp: Handshake_def Let_def split: if_splits sum.splits\<close>)
  with readHandshake_Inr [OF r(1)] finishHandshake_Inr(1) [OF assms(1) r(2)] show ?thesis by blast
qed

text \<open>
  C24: what a successful handshake proves. The initiator has a signature of the other side over both
  ephemeral keys, its own fresh one included: the other side took part in this very session. The
  responder only has a signature over the ephemeral key of the initiator, which does not mention the
  session: the same message is accepted again and again. A caller that asked for a key gets this key.
\<close>

theorem handshake_authentic:
  assumes "channel_ok c" and "Handshake c dl (Some eph) w myKey ini expected incoming = (out, Inr (conn, rest))"
  shows "accepts expected (c_remotePub conn)
    \<and> (\<exists>theirEph sig. incoming = c_remotePub conn @ theirEph @ sig @ rest \<and> length (c_remotePub conn) = 32
         \<and> length theirEph = 32 \<and> length sig = 64
         \<and> ed_verify c (c_remotePub conn) (if ini then theirEph @ x_public c eph else theirEph) sig)"
  by (rule handshake_authenticity [OF assms])

theorem handshake_authentic_witness:
  "\<exists>theirEph sig. hello_I toy_channel toy_identity (replicate 32 2) = PublicKey toy_identity @ theirEph @ sig @ []
     \<and> ed_verify toy_channel (PublicKey toy_identity) theirEph sig"
proof -
  have e: "x_ecdh toy_channel (replicate 32 3) (x_public toy_channel (replicate 32 2))
      = Some (map2 (XOR) (replicate 32 3) (replicate 32 2))" by (simp add: toy_channel_def)
  have "Handshake toy_channel True (Some (replicate 32 3)) True (PrivateKey toy_identity) False None
      (hello_I toy_channel toy_identity (replicate 32 2) @ [])
    = (hello_R toy_channel toy_identity (replicate 32 3) (x_public toy_channel (replicate 32 2)),
       Inr (conn_R toy_channel (map2 (XOR) (replicate 32 3) (replicate 32 2)) (x_public toy_channel (replicate 32 2))
         (x_public toy_channel (replicate 32 3)) (PublicKey toy_identity), []))"
    using e by (intro Handshake_responder) (simp_all add: accepts_def)
  from handshake_authentic [OF toy_channel_ok this] show ?thesis by (auto simp: conn_R_def)
qed

text \<open>
  The message of an initiator can be replayed. Whatever message a responder has accepted once,
  it accepts from anyone who sends it again, in any later session with another ephemeral key of the
  responder, and reports the same long-term key as verified. (The replayer cannot compute the
  session key, so that it cannot write a frame.)
\<close>

lemma handshake_replay:
  assumes "channel_ok c" and "identity_ok (base_prims c) j"
    and "Handshake c dl (Some eph) w (PrivateKey j) False expected (m1 @ rest) = (m2, Inr (conn, rest))"
    and "length eph' = 32" and "x_ecdh c eph' (take 32 (drop 32 m1)) \<noteq> None" and "length m1 = 128"
  shows "\<exists>m2' conn'. Handshake c True (Some eph') True (PrivateKey j) False expected (m1 @ rest') = (m2', Inr (conn', rest'))
    \<and> c_remotePub conn' = c_remotePub conn"
proof -
  note auth = handshake_authenticity [OF assms(1,3)]
  then obtain theirEph sig where m: "m1 = c_remotePub conn @ theirEph @ sig" "length (c_remotePub conn) = 32"
    "length theirEph = 32" "length sig = 64" "ed_verify c (c_remotePub conn) theirEph sig" by auto
  from assms(5) m obtain shared where "x_ecdh c eph' theirEph = Some shared" by auto
  then show ?thesis
    using auth m assms(4) identity_keys [OF assms(1,2)] channel_okD(3,4) [OF assms(1)] finishHandshake_keys(2) [OF assms(1)]
    by (auto simp: Handshake_def writeHandshake_def readHandshake_message accepts_def Let_def)
qed

text \<open>
  C31: the derived keys are those of RFC 5869. The expansion loop ends and its output is the prefix
  of the requested length of the concatenated HMAC blocks.
\<close>

theorem hkdf_rfc5869:
  assumes "\<forall>d. length (sha256 c d) = 32"
  shows "\<exists>okm. hkdf c ikm (Some salt) info outLen = Some okm \<and> length okm = outLen
    \<and> okm = take outLen (concat (map (hkdf_T c (hmac c salt ikm) info) [1..<Suc ((outLen + 31) div 32)]))"
  using hkdf_length [OF assms, of ikm salt info outLen] hkdf_spec [OF assms, of ikm salt info outLen]
  by (auto simp: hkdf_blocks_def)

theorem hkdf_rfc5869_witness: "\<exists>okm. hkdf toy_prims [1] (Some [2]) [3] 64 = Some okm \<and> length okm = 64"
  using hkdf_rfc5869 [of toy_prims "[1]" "[2]" "[3]" 64] toy_prims_ok by (auto simp: prims_ok_def)

text \<open>
  The encrypted stream is faithful. What one end writes, frame by frame, the other end reads,
  whatever portions it asks for: the first \<open>n\<close> bytes, and then the rest.
\<close>

theorem channel_stream:
  assumes "channel_ok c" and "list_all fits ps" and "recvKey conn = sendKey w" and "recvCount conn = sendCount w"
    and "readBuf conn = []" and "n + m = length (concat ps)"
  shows "\<exists>conn1 s1 conn2 s2. ReadFull c conn (snd (write_all c w ps)) n = (conn1, s1, Inr (take n (concat ps)))
    \<and> ReadFull c conn1 s1 m = (conn2, s2, Inr (drop n (concat ps)))"
proof -
  have av: "available c conn (snd (write_all c w ps)) = concat ps" by (rule available_written [OF assms(1-5)])
  obtain conn1 s1 where r: "ReadFull c conn (snd (write_all c w ps)) n = (conn1, s1, Inr (take n (concat ps)))"
    "available c conn1 s1 = drop n (concat ps)"
    using ReadFull_available [of n c conn "snd (write_all c w ps)"] assms(6) by (auto simp: av)
  have m: "m = length (drop n (concat ps))" unfolding length_drop assms(6) [symmetric] by simp
  then obtain conn2 s2 where "ReadFull c conn1 s1 m = (conn2, s2, Inr (drop n (concat ps)))"
    using ReadFull_available [of m c conn1 s1] unfolding r(2) by auto
  with r(1) show ?thesis by blast
qed

theorem channel_stream_witness:
  "\<exists>conn1 s1. ReadFull toy_channel (conn_R toy_channel [] [] [] []) (snd (write_all toy_channel (conn_I toy_channel [] [] [] []) [[1, 2], [3]])) 1
     = (conn1, s1, Inr [1])"
proof -
  have "list_all fits [[1, 2], [3]]" by (simp add: fits_def MaxFrameSize_def)
  from channel_stream [OF toy_channel_ok this, of "conn_R toy_channel [] [] [] []" "conn_I toy_channel [] [] [] []" 1 2]
  show ?thesis by (auto simp: conn_I_def conn_R_def)
qed



end
