(* ===== verification/Session.thy ===== *)
theory Session
  imports Peer_Net Secure Dht_Lookup
begin

text \<open>
  A connection from end to end: the loop of \<^verbatim>\<open>core/peer/peer.go\<close> that reads messages, on the
  encrypted stream of \<^verbatim>\<open>core/secure/secure.go\<close>. The peer layer calls \<^verbatim>\<open>io.ReadFull\<close> and \<open>Write\<close> on a
  secure connection; the definitions here compose the two models the same way.
\<close>

section \<open>Definitions\<close>

text \<open>\<open>sendOn\<close> writes the length and the message as two frames.\<close>

definition sendOn_frames :: "prims \<Rightarrow> Identity \<Rightarrow> Message \<Rightarrow> bytes list option" where
  "sendOn_frames c i msg =
     (let signed = Marshal (enc_Message (sign_message c i msg))
      in if length signed > MaxMessageSize then None
         else Some [be32 (length signed), signed])"

text \<open>One message from the connection; \<open>None\<close> ends the loop.\<close>

definition read_message :: "channel_prims \<Rightarrow> Conn \<Rightarrow> bytes \<Rightarrow> (Message \<times> Conn \<times> bytes) option" where
  "read_message c conn s =
     (case ReadFull c conn s 4 of
        (_, _, Inl _) \<Rightarrow> None
      | (conn1, s1, Inr lenBuf) \<Rightarrow>
          let size = be_nat lenBuf
          in if size = 0 \<or> size > MaxMessageSize then None
             else (case ReadFull c conn1 s1 size of
                     (_, _, Inl _) \<Rightarrow> None
                   | (conn2, s2, Inr buf) \<Rightarrow>
                       map_option (\<lambda>msg. (msg, conn2, s2)) (Unmarshal dec_Message (string_of_bytes buf) zero_Message)))"

section \<open>Reading the encrypted stream\<close>

lemma Conn_Read_Inr:
  assumes "Conn_Read c conn s n = (conn', s', Inr bs)" and "0 < n"
  shows "available c conn s = bs @ available c conn' s'"
proof (cases "readBuf conn = []")
  case False
  then show ?thesis using assms by (auto simp: Conn_Read_def available_def)
next
  case True
  obtain ct rest where r: "next_ct s = Some (ct, rest)"
    using assms True readNextFrame_next(2) [of s c conn] by (cases "next_ct s") (auto simp: Conn_Read_def)
  obtain p where p: "gcm_open c (recvKey conn) (nonceFor (recvCount conn)) ct = Some p" "p \<noteq> []"
    using assms True
    by (cases "gcm_open c (recvKey conn) (nonceFor (recvCount conn)) ct")
      (auto simp: Conn_Read_def readNextFrame_next(1) [OF r] split: if_splits)
  then have "plaintexts c (recvKey conn) (recvCount conn) s \<noteq> []" using r by (simp add: plaintexts.simps [of c _ _ s])
  then have "available c conn s \<noteq> []" using p r by (simp add: available_def plaintexts.simps [of c _ _ s])
  from Conn_Read_available [OF this assms(2)] assms(1) show ?thesis by (metis Inr_inject prod.inject)
qed

lemma ReadFull_Inr:
  assumes "ReadFull c conn s n = (conn', s', Inr bs)"
  shows "available c conn s = bs @ available c conn' s' \<and> length bs = n"
  using assms
proof (induction n arbitrary: conn s bs rule: less_induct)
  case (less n)
  show ?case
  proof (cases "n = 0")
    case True
    then show ?thesis using less.prems by (subst (asm) ReadFull.simps) simp
  next
    case False
    with less.prems obtain conn1 s1 bs1 bs2 where r: "Conn_Read c conn s n = (conn1, s1, Inr bs1)"
      "ReadFull c conn1 s1 (n - length bs1) = (conn', s', Inr bs2)" "bs = bs1 @ bs2"
      by (subst (asm) ReadFull.simps) (auto split: prod.splits sum.splits simp: map_sum_Inr_iff)
    note p = Conn_Read_progress [OF r(1)] and a = Conn_Read_Inr [OF r(1)]
    have "n - length bs1 < n" using p False by (simp add: diff_less)
    from less.IH [OF this r(2)] a p False r(3) show ?thesis by auto
  qed
qed

lemma ReadFull_iff:
  "(\<exists>conn' s' bs. ReadFull c conn s n = (conn', s', Inr bs)) \<longleftrightarrow> n \<le> length (available c conn s)"
  using ReadFull_available [of n c conn s] ReadFull_Inr [of c conn s n] by fastforce

lemma read_message_shorter:
  assumes "read_message c conn s = Some (msg, conn', s')"
  shows "length (available c conn' s') < length (available c conn s)"
  using assms by (auto simp: read_message_def Let_def split: prod.splits sum.splits if_splits dest!: ReadFull_Inr)

text \<open>The loop of \<open>readLoop\<close> on a secure connection: the messages it hands to \<open>handleMessage\<close>.\<close>

function secure_readLoop :: "channel_prims \<Rightarrow> peerConn \<Rightarrow> Conn \<Rightarrow> bytes \<Rightarrow> Message list" where
  "secure_readLoop c pc conn s =
     (case read_message c conn s of
        None \<Rightarrow> []
      | Some (msg, conn1, s1) \<Rightarrow>
          (case verifyMessage (base_prims c) pc msg of
             Inl _ \<Rightarrow> []
           | Inr pc1 \<Rightarrow> msg # secure_readLoop c pc1 conn1 s1))"
  by pat_completeness auto
termination
  by (relation "measure (\<lambda>(c, _, conn, s). length (available c conn s))") (auto dest: read_message_shorter)

declare secure_readLoop.simps [simp del]

lemma ReadFull_short:
  assumes "length (available c conn s) < n"
  obtains conn' s' e where "ReadFull c conn s n = (conn', s', Inl e)"
proof -
  obtain conn' s' r where r: "ReadFull c conn s n = (conn', s', r)" by (cases "ReadFull c conn s n")
  with assms ReadFull_iff [of c conn s n] that show ?thesis by (cases r) auto
qed

text \<open>Reading a message from the connection is reading it from the plaintext that is available.\<close>

lemma read_message_frame:
  "case read_message c conn s of
     None \<Rightarrow> read_frame (available c conn s) \<in> {FrameEOF, FrameBad}
   | Some (msg, conn', s') \<Rightarrow> read_frame (available c conn s) = FrameMsg msg (available c conn' s')"
proof (cases "length (available c conn s) < 4")
  case True
  from ReadFull_short [OF this] obtain conn' s' e where "ReadFull c conn s 4 = (conn', s', Inl e)" .
  then show ?thesis using True by (simp add: read_message_def read_frame_def)
next
  case False
  then obtain conn1 s1 where r: "ReadFull c conn s 4 = (conn1, s1, Inr (take 4 (available c conn s)))"
    "available c conn1 s1 = drop 4 (available c conn s)"
    using ReadFull_available [of 4 c conn s] by auto
  let ?size = "be_nat (take 4 (available c conn s))"
  show ?thesis
  proof (cases "?size = 0 \<or> ?size > MaxMessageSize")
    case True
    then show ?thesis using r False by (auto simp: read_message_def read_frame_def Let_def)
  next
    case size: False
    show ?thesis
    proof (cases "length (available c conn1 s1) < ?size")
      case True
      from ReadFull_short [OF this] obtain conn' s' e where "ReadFull c conn1 s1 ?size = (conn', s', Inl e)" .
      then show ?thesis using True r size False by (auto simp: read_message_def read_frame_def Let_def)
    next
      case body: False
      then obtain conn2 s2 where b: "ReadFull c conn1 s1 ?size = (conn2, s2, Inr (take ?size (available c conn1 s1)))"
        "available c conn2 s2 = drop ?size (available c conn1 s1)"
        using ReadFull_available [of ?size c conn1 s1] by auto
      show ?thesis
      proof (cases "Unmarshal dec_Message (string_of_bytes (take ?size (available c conn1 s1))) zero_Message")
        case None
        then show ?thesis using r size False body b by (simp add: read_message_def read_frame_def Let_def)
      next
        case (Some msg)
        then show ?thesis using r size False body b by (simp add: read_message_def read_frame_def Let_def)
      qed
    qed
  qed
qed

lemma secure_readLoop_plain: "secure_readLoop c pc conn s = readLoop (base_prims c) pc (available c conn s)"
proof (induction c pc conn s rule: secure_readLoop.induct)
  case (1 c pc conn s)
  show ?case
  proof (cases "read_message c conn s")
    case None
    then show ?thesis using read_message_frame [of c conn s]
      by (subst secure_readLoop.simps, subst readLoop.simps) auto
  next
    case (Some r)
    obtain msg conn1 s1 where r: "r = (msg, conn1, s1)" by (cases r)
    then show ?thesis using read_message_frame [of c conn s] Some 1
      by (subst secure_readLoop.simps, subst readLoop.simps) (simp split: sum.splits)
  qed
qed

section \<open>Writing\<close>

lemma sendOn_frames_sendOn:
  "sendOn_frames c i m = Some fs \<Longrightarrow> sendOn c i m = Some (concat fs)"
  "sendOn c i m \<noteq> None \<Longrightarrow> \<exists>fs. sendOn_frames c i m = Some fs"
  by (auto simp: sendOn_frames_def sendOn_def Let_def split: if_splits)

lemma sendOn_frames_fit: "sendOn_frames c i m = Some fs \<Longrightarrow> list_all fits fs"
proof -
  assume a: "sendOn_frames c i m = Some fs"
  have "print_json (enc_Message (sign_message c i m)) \<noteq> []" by (simp add: enc_Message_def)
  then have "Marshal (enc_Message (sign_message c i m)) \<noteq> []" by (simp add: Marshal_def bytes_of_string_def)
  with a show ?thesis
    by (auto simp: sendOn_frames_def Let_def fits_def MaxFrameSize_def MaxMessageSize_def be32_def split: if_splits)
qed

lemma frames_of_messages:
  assumes "\<forall>m\<in>set ms. sendOn c i m \<noteq> None"
  shows "list_all fits (concat (map (\<lambda>m. the (sendOn_frames c i m)) ms))"
    "concat (concat (map (\<lambda>m. the (sendOn_frames c i m)) ms)) = concat (map (\<lambda>m. the (sendOn c i m)) ms)"
  using assms
proof (induction ms)
  case (Cons m ms)
  { case 1 with Cons sendOn_frames_sendOn(2) [of c i m] show ?case by (auto dest: sendOn_frames_fit) }
  { case 2
    then obtain fs where "sendOn_frames c i m = Some fs" using sendOn_frames_sendOn(2) [of c i m] by auto
    with 2 Cons sendOn_frames_sendOn(1) [OF this] show ?case by simp }
qed simp_all

section \<open>Properties\<close>

text \<open>
  C1: messages arrive from end to end. Two honest peers shake hands, and one of them sends a sequence
  of messages, each as the two encrypted frames that \<open>sendOn\<close> writes. The loop of the other peer,
  which knows only the key the handshake authenticated, delivers exactly these messages, signed and
  in order; nothing is lost, repeated or refused.
\<close>

theorem session_delivers:
  assumes "channel_ok c" and "identity_ok (base_prims c) i" and "identity_ok (base_prims c) j"
    and "length a = 32" and "length b = 32" and "x_ecdh c a (x_public c b) = Some shared"
    and "\<forall>m\<in>set ms. utf8 (m_Type m) \<and> utf8 (m_ReqID m) \<and> utf8 (m_Payload m) \<and> sendOn (base_prims c) i m \<noteq> None"
  shows "\<exists>m1 m2 ci cr.
     Handshake c True (Some a) True (PrivateKey i) True None m2 = (m1, Inr (ci, []))
   \<and> Handshake c True (Some b) True (PrivateKey j) False None m1 = (m2, Inr (cr, []))
   \<and> secure_readLoop c \<lparr>remoteID = PublicKeyToID (base_prims c) (c_remotePub cr), remotePub = Some (c_remotePub cr), addresses = []\<rparr>
       cr (snd (write_all c ci (concat (map (\<lambda>m. the (sendOn_frames (base_prims c) i m)) ms))))
     = map (sign_message (base_prims c) i) ms"
proof -
  let ?ci = "conn_I c shared (x_public c a) (x_public c b) (PublicKey j)"
    and ?cr = "conn_R c shared (x_public c a) (x_public c b) (PublicKey i)"
    and ?fs = "concat (map (\<lambda>m. the (sendOn_frames (base_prims c) i m)) ms)"
  have "x_ecdh c b (x_public c a) = Some shared" using assms(4-6) channel_okD(5) [OF assms(1)] by metis
  then have h: "Handshake c True (Some b) True (PrivateKey j) False None (hello_I c i a @ [])
      = (hello_R c j b (x_public c a), Inr (?cr, []))"
    "Handshake c True (Some a) True (PrivateKey i) True None (hello_R c j b (x_public c a) @ []) = (hello_I c i a, Inr (?ci, []))"
    using assms Handshake_responder [of c i j a b shared None "[]"] Handshake_initiator [of c i j a b shared None "[]"]
    by (auto simp: accepts_def)
  have fs: "list_all fits ?fs" "concat ?fs = concat (map (\<lambda>m. the (sendOn (base_prims c) i m)) ms)"
    using assms(7) frames_of_messages by blast+
  have "available c ?cr (snd (write_all c ?ci ?fs)) = concat ?fs"
    by (rule available_written [OF assms(1) fs(1)]) (simp_all add: conn_I_def conn_R_def)
  then have "secure_readLoop c \<lparr>remoteID = PublicKeyToID (base_prims c) (c_remotePub ?cr), remotePub = Some (c_remotePub ?cr),
      addresses = []\<rparr> ?cr (snd (write_all c ?ci ?fs)) = map (sign_message (base_prims c) i) ms"
    unfolding secure_readLoop_plain fs(2)
    by (simp only:) (rule stream_delivers [OF channel_okD(1) [OF assms(1)] assms(2) _ assms(7)], simp add: conn_R_def)
  with h show ?thesis by (metis append_Nil2)
qed

theorem session_delivers_witness:
  "\<exists>m1 m2 ci cr.
     Handshake toy_channel True (Some (replicate 32 2)) True (PrivateKey toy_identity) True None m2 = (m1, Inr (ci, []))
   \<and> secure_readLoop toy_channel \<lparr>remoteID = PublicKeyToID (base_prims toy_channel) (c_remotePub cr), remotePub = Some (c_remotePub cr),
       addresses = []\<rparr> cr (snd (write_all toy_channel ci (concat (map (\<lambda>m. the (sendOn_frames (base_prims toy_channel) toy_identity m))
         [zero_Message\<lparr>m_Type := ''ping''\<rparr>]))))
     = map (sign_message (base_prims toy_channel) toy_identity) [zero_Message\<lparr>m_Type := ''ping''\<rparr>]"
proof -
  let ?m = "zero_Message\<lparr>m_Type := ''ping''\<rparr>" and ?c = "base_prims toy_channel"
  have "length (Marshal (enc_Message (sign_message ?c toy_identity ?m))) \<le> 500 + length (quote_body (m_Payload ?m))"
    using channel_okD(1,3) [OF toy_channel_ok]
    by (intro signed_length) (auto simp: toy_identity_def zero_Message_def plain_char_def)
  then have "sendOn ?c toy_identity ?m \<noteq> None" by (simp add: sendOn_def Let_def MaxMessageSize_def zero_Message_def)
  moreover have "utf8 (''ping'' :: string) \<and> utf8 ([] :: string)" by (simp add: utf8_ascii_Cons)
  ultimately have "\<forall>m\<in>set [?m]. utf8 (m_Type m) \<and> utf8 (m_ReqID m) \<and> utf8 (m_Payload m) \<and> sendOn ?c toy_identity m \<noteq> None"
    by (simp add: zero_Message_def)
  moreover have "x_ecdh toy_channel (replicate 32 2) (x_public toy_channel (replicate 32 3))
      = Some (map2 (XOR) (replicate 32 2) (replicate 32 3))" by (simp add: toy_channel_def)
  ultimately show ?thesis
    using session_delivers [OF toy_channel_ok toy_channel_identity toy_channel_identity, of "replicate 32 2" "replicate 32 3" _ "[?m]"]
    by auto
qed

text \<open>
  A recorded handshake message keeps a peer out. The first message of a handshake that the
  victim sent to anybody, at any time, is accepted by a responder from anybody else. The connection
  is entered as the one of the victim before any frame arrives, and when the victim itself connects,
  its connection is taken for a second one and closed.
\<close>

theorem replay_takes_slot:
  assumes "channel_ok c" and "identity_ok (base_prims c) victim" and "identity_ok (base_prims c) (p_identity p)"
    and "length a = 32" and "length b = 32" and "x_ecdh c b (x_public c a) \<noteq> None"
    and "fmlookup (p_byID p) (Identity_ID (base_prims c) victim) = None" and "\<not> atConnectionLimit p"
    and "c' = base_prims c" and "fresh' \<noteq> fresh"
  shows "\<exists>m2 conn p1.
     Handshake c True (Some b) True (PrivateKey (p_identity p)) False None (hello_I c victim a @ rest) = (m2, Inr (conn, rest))
   \<and> handleIncoming c' (\<lambda>p. p) p fresh addr (Some (c_remotePub conn)) True = (p1, ConnUp)
   \<and> fmlookup (p_byID p1) (Identity_ID c' victim) = Some fresh
   \<and> (\<not> atConnectionLimit p1 \<longrightarrow> snd (handleIncoming c' (\<lambda>p. p) p1 fresh' addr' (Some (PublicKey victim)) True) = ConnAliased)"
proof -
  obtain shared where "x_ecdh c b (x_public c a) = Some shared" using assms(6) by auto
  then have h: "Handshake c True (Some b) True (PrivateKey (p_identity p)) False None (hello_I c victim a @ rest)
      = (hello_R c (p_identity p) b (x_public c a), Inr (conn_R c shared (x_public c a) (x_public c b) (PublicKey victim), rest))"
    using assms by (intro Handshake_responder) (simp_all add: accepts_def)
  let ?id = "PublicKeyToID c' (PublicKey victim)"
  have ne: "?id \<noteq> []" unfolding assms(9) by (rule PublicKeyToID_nonempty [OF channel_okD(1) [OF assms(1)]])
  obtain p1 where p1: "handleIncoming c' (\<lambda>p. p) p fresh addr (Some (PublicKey victim)) True = (p1, ConnUp)"
    "fmlookup (p_byID p1) ?id = Some fresh"
    using assms(7,8) ne unfolding assms(9) Identity_ID_def
    by (auto simp: handleIncoming_def finish_conn_def registerConn_def Let_def)
  then have "snd (handleIncoming c' (\<lambda>p. p) p1 fresh' addr' (Some (PublicKey victim)) True) = ConnAliased"
    if "\<not> atConnectionLimit p1"
    using that ne assms(10) by (auto simp: handleIncoming_def finish_conn_def registerConn_def Let_def)
  with h p1 show ?thesis by (auto simp: conn_R_def Identity_ID_def)
qed

theorem replay_takes_slot_witness:
  "\<exists>m2 conn p1.
     Handshake toy_channel True (Some (replicate 32 3)) True (PrivateKey toy_identity) False None
       (hello_I toy_channel toy_identity (replicate 32 2) @ []) = (m2, Inr (conn, []))
   \<and> handleIncoming (base_prims toy_channel) (\<lambda>p. p) (New toy_identity []) 0 ''x'' (Some (c_remotePub conn)) True = (p1, ConnUp)"
proof -
  have "\<not> atConnectionLimit (New toy_identity [])"
    by (simp add: New_def atConnectionLimit_def DefaultMaxConnections_def fcard.rep_eq)
  moreover have "x_ecdh toy_channel (replicate 32 3) (x_public toy_channel (replicate 32 2)) \<noteq> None" by (simp add: toy_channel_def)
  ultimately show ?thesis
    using replay_takes_slot [OF toy_channel_ok toy_channel_identity, of "New toy_identity []" "replicate 32 2" "replicate 32 3" _ 1 0 "[]" "''x''" "''y''"]
    by (fastforce simp: New_def)
qed

text \<open>
  Whoever answers a dial is taken for the peer that was dialled. A relay address names the peer,
  but \<open>Connect\<close> hands no expected key to the handshake. A relay, or whoever registers with it under
  the identifier of another peer, completes the handshake with its own key, and from then on the
  messages to the address of the other peer go to it.
\<close>

theorem dial_accepts_anyone:
  assumes "channel_ok c" and "identity_ok (base_prims c) (p_identity p)" and "identity_ok (base_prims c) mallory"
    and "length a = 32" and "length b = 32" and "x_ecdh c a (x_public c b) \<noteq> None"
    and "c' = base_prims c" and "address = relay_url ra victimID" and "victimID \<noteq> Identity_ID c' mallory"
    and "CHR ''/'' \<notin> set ra" and "ra \<noteq> []" and "victimID \<noteq> []"
    and "\<not> atConnectionLimit p" and "fmlookup (p_byID p) (Identity_ID c' mallory) = None"
  shows "dialAddress address = DialRelay ra victimID
    \<and> (\<exists>m1 conn p1. Handshake c True (Some a) True (PrivateKey (p_identity p)) True None (hello_R c mallory b (x_public c a))
           = (m1, Inr (conn, []))
         \<and> Connect c' (\<lambda>p. p) p fresh address (Some (c_remotePub conn)) True = (p1, ConnUp)
         \<and> Send_conn p1 address = Some fresh \<and> remoteID (p_conns p1 fresh) = Identity_ID c' mallory)"
proof -
  obtain shared where sh: "x_ecdh c a (x_public c b) = Some shared" using assms(6) by auto
  have h: "Handshake c True (Some a) True (PrivateKey (p_identity p)) True None (hello_R c mallory b (x_public c a) @ [])
      = (hello_I c (p_identity p) a, Inr (conn_I c shared (x_public c a) (x_public c b) (PublicKey mallory), []))"
    by (rule Handshake_initiator [OF assms(1-5) sh]) (simp add: accepts_def)
  have ne: "PublicKeyToID c' (PublicKey mallory) \<noteq> []"
    unfolding assms(7) by (rule PublicKeyToID_nonempty [OF channel_okD(1) [OF assms(1)]])
  obtain p1 where p1: "Connect c' (\<lambda>p. p) p fresh address (Some (PublicKey mallory)) True = (p1, ConnUp)"
    "Send_conn p1 address = Some fresh" "remoteID (p_conns p1 fresh) = Identity_ID c' mallory"
    using assms(13,14) ne by (auto simp: Connect_def finish_conn_def registerConn_def Send_conn_def Identity_ID_def add_alias_def Let_def)
  have "IndexByte (ra @ CHR ''/'' # victimID) (CHR ''/'') = Some (length ra)" by (rule IndexByte_append [OF assms(10)])
  moreover have "length ra \<noteq> length (ra @ CHR ''/'' # victimID) - 1" using assms(12) by simp
  ultimately have "parseRelayAddress address = Some (ra, victimID)"
    using assms(11) by (simp add: assms(8) parseRelayAddress_def relay_url_def HasPrefix_def)
  then have "dialAddress address = DialRelay ra victimID" by (simp add: assms(8) dialAddress_def relay_url_def HasPrefix_def)
  with h p1 show ?thesis by (auto simp: conn_I_def)
qed

theorem dial_accepts_anyone_witness:
  "\<exists>(conn :: Conn) p1. Connect (base_prims toy_channel) (\<lambda>p. p) (New toy_identity []) 0 (relay_url ''r:1'' ''v'') (Some (c_remotePub conn)) True = (p1, ConnUp)
     \<and> Send_conn p1 (relay_url ''r:1'' ''v'') = Some 0"
proof -
  have lim: "\<not> atConnectionLimit (New toy_identity [])"
    by (simp add: New_def atConnectionLimit_def DefaultMaxConnections_def fcard.rep_eq)
  have e: "x_ecdh toy_channel (replicate 32 2) (x_public toy_channel (replicate 32 3)) \<noteq> None" by (simp add: toy_channel_def)
  have ne: "''v'' \<noteq> Identity_ID (base_prims toy_channel) toy_identity"
    using PublicKeyToID_length [OF channel_okD(1) [OF toy_channel_ok], of "PublicKey toy_identity"]
    by (auto simp: Identity_ID_def dest: arg_cong [of _ _ length])
  have i: "identity_ok (base_prims toy_channel) (p_identity (New toy_identity []))" by (simp add: New_def)
  have no: "fmlookup (p_byID (New toy_identity [])) (Identity_ID (base_prims toy_channel) toy_identity) = None" by (simp add: New_def)
  have "CHR ''/'' \<notin> set ''r:1''" by simp
  from dial_accepts_anyone [OF toy_channel_ok i toy_channel_identity _ _ e refl refl ne this _ _ lim no, of 0] show ?thesis by auto
qed

end
