(* ===== verification/Relay.thy ===== *)
theory Relay
  imports Go_Strings Transitions "HOL-Library.FSet" "HOL-Library.Finite_Map"
begin

text \<open>
  \<^verbatim>\<open>core/relay\<close>: the line protocol, the server that lets peers behind a NAT be dialled, and the
  client that registers with it.

  The server runs one goroutine per connection. A goroutine is split at the points where it releases
  the lock or waits, and the pieces of different goroutines interleave in any order: the events of
  \<open>relay_step\<close>. Connections are numbers; registrations and channels are numbers too, given in the
  order of their creation, and stand for the pointers of the source; channel 0 is the nil channel. What is written and closed is
  part of the state. A step that panics is \<open>None\<close>.
\<close>

section \<open>Definitions\<close>

subsection \<open>The line protocol\<close>

definition MaxLineSize :: nat where
  "MaxLineSize = 256"

definition CmdRegister :: string where
  "CmdRegister = ''REGISTER''"

definition CmdDial :: string where
  "CmdDial = ''DIAL''"

definition CmdTunnel :: string where
  "CmdTunnel = ''TUNNEL''"

definition RespOK :: string where
  "RespOK = ''OK''"

definition RespErr :: string where
  "RespErr = ''ERR''"

definition PushOpen :: string where
  "PushOpen = ''OPEN''"

abbreviation newline :: char where
  "newline \<equiv> CHR 0x0A"

definition trim_line :: "string \<Rightarrow> string" where
  "trim_line s = trim_right (\<lambda>c. c = CHR 0x0D \<or> c = newline) s"

text \<open>
  The line and what follows it in the arriving text. \<open>eof\<close> tells whether the text ends with the end
  of the connection, rather than with a deadline or another error.
\<close>

definition readLine :: "bool \<Rightarrow> string \<Rightarrow> (string \<times> string) option" where
  "readLine eof s =
     (case IndexByte s newline of
        None \<Rightarrow> if eof \<and> s \<noteq> [] then Some (trim_line s, []) else None
      | Some k \<Rightarrow>
          let line = take (k + 1) s
          in if length line > MaxLineSize then None else Some (trim_line line, drop (k + 1) s))"

definition writeLine :: "string \<Rightarrow> string option" where
  "writeLine line = (if length line > MaxLineSize then None else Some (line @ [newline]))"

subsection \<open>The server\<close>

record registration =
  r_peerID :: string
  r_conn :: nat
  r_out :: "string list"
  r_closed :: bool

record Server =
  registrations :: "(string, nat) fmap"
  regs :: "nat \<Rightarrow> registration"
  next_reg :: nat
  pending :: "(string, nat) fmap"
  chans :: "nat \<Rightarrow> nat list"
  next_chan :: nat
  closed :: "nat fset"
  sent :: "(nat \<times> string) list"
  stopped :: bool

definition no_reg :: registration where
  "no_reg = \<lparr>r_peerID = [], r_conn = 0, r_out = [], r_closed = True\<rparr>"

definition NewServer :: Server where
  "NewServer = \<lparr>registrations = fmempty, regs = (\<lambda>_. no_reg), next_reg = 0, pending = fmempty, chans = (\<lambda>_. []),
     next_chan = 1, closed = {||}, sent = [], stopped = False\<rparr>"

definition close_conn :: "Server \<Rightarrow> nat \<Rightarrow> Server" where
  "close_conn s conn = s\<lparr>closed := finsert conn (closed s)\<rparr>"

definition say :: "Server \<Rightarrow> nat \<Rightarrow> string \<Rightarrow> Server" where
  "say s conn line = (if writeLine line = None then s else s\<lparr>sent := (conn, line) # sent s\<rparr>)"

definition refuse :: "Server \<Rightarrow> nat \<Rightarrow> string \<Rightarrow> Server" where
  "refuse s conn msg = close_conn (say s conn (RespErr @ msg)) conn"

definition RegistrationCount :: "Server \<Rightarrow> nat" where
  "RegistrationCount s = fcard (fmdom (registrations s))"

definition Server_Stop :: "Server \<Rightarrow> Server" where
  "Server_Stop s =
     (if stopped s then s
      else s\<lparr>stopped := True, closed := closed s |\<union>| (\<lambda>r. r_conn (regs s r)) |`| fmran (registrations s)\<rparr>)"

datatype command = Register string | Dial string | Tunnel string | BadCommand string

text \<open>What \<open>handle\<close> does with the first line of a connection.\<close>

definition parse_command :: "string \<Rightarrow> command" where
  "parse_command line =
     (case Fields line of
        [] \<Rightarrow> BadCommand '' empty command''
      | cmd # args \<Rightarrow>
          if cmd = CmdRegister then (case args of [x] \<Rightarrow> Register x | _ \<Rightarrow> BadCommand '' usage: REGISTER <peer-id>'')
          else if cmd = CmdDial then (case args of [x] \<Rightarrow> Dial x | _ \<Rightarrow> BadCommand '' usage: DIAL <peer-id>'')
          else if cmd = CmdTunnel then (case args of [x] \<Rightarrow> Tunnel x | _ \<Rightarrow> BadCommand '' usage: TUNNEL <token>'')
          else BadCommand '' unknown command'')"

definition validHexID :: "string \<Rightarrow> bool" where
  "validHexID s \<longleftrightarrow> length s = 64 \<and> list_all (\<lambda>c. hex_val c \<noteq> None) s"

definition newToken :: "bytes option \<Rightarrow> string option" where
  "newToken rnd = map_option hex_encode rnd"

definition dropRegistration :: "Server \<Rightarrow> nat \<Rightarrow> Server" where
  "dropRegistration s r =
     (let s1 = (if fmlookup (registrations s) (r_peerID (regs s r)) = Some r
                then s\<lparr>registrations := fmdrop (r_peerID (regs s r)) (registrations s)\<rparr> else s)
      in close_conn s1 (r_conn (regs s r)))"

text \<open>\<open>handleRegister\<close> up to its reading loop, and after it.\<close>

definition handleRegister :: "Server \<Rightarrow> string \<Rightarrow> nat \<Rightarrow> bool \<Rightarrow> Server" where
  "handleRegister s peerID conn write_ok =
     (if \<not> validHexID peerID then refuse s conn '' bad peer-id''
      else
        let r = next_reg s;
            s1 = (case fmlookup (registrations s) peerID of
                    Some old \<Rightarrow> close_conn s (r_conn (regs s old))
                  | None \<Rightarrow> s);
            s2 = s1\<lparr>registrations := fmupd peerID r (registrations s1),
                     regs := (regs s1)(r := \<lparr>r_peerID = peerID, r_conn = conn, r_out = [], r_closed = False\<rparr>),
                     next_reg := r + 1\<rparr>
        in if \<not> write_ok then dropRegistration s2 r else say s2 conn RespOK)"

definition handleRegister_end :: "Server \<Rightarrow> nat \<Rightarrow> Server" where
  "handleRegister_end s r =
     (let s1 = dropRegistration s r in s1\<lparr>regs := (regs s1)(r := (regs s1 r)\<lparr>r_closed := True\<rparr>)\<rparr>)"

text \<open>One line of the queue of a registration is written by its writer goroutine.\<close>

definition register_writer :: "Server \<Rightarrow> nat \<Rightarrow> Server" where
  "register_writer s r =
     (case r_out (regs s r) of
        [] \<Rightarrow> s
      | line # lines \<Rightarrow> say (s\<lparr>regs := (regs s)(r := (regs s r)\<lparr>r_out := lines\<rparr>)\<rparr>) (r_conn (regs s r)) line)"

text \<open>
  \<open>handleDial\<close>: looking up the registration, entering the token, asking the registered peer for a
  tunnel, taking the tunnel or giving up, and the end of the pipe. The deferred deletion of the token
  is part of every piece after which the handler returns. Sending on the queue of a registration that
  has ended panics: its channel is closed.
\<close>

datatype dial_pc = DIdle | DFound | DOpen | DWait | DPiped nat | DDone

record dial =
  d_pc :: dial_pc
  d_peer :: string
  d_conn :: nat
  d_reg :: nat
  d_token :: string
  d_chan :: nat

definition no_dial :: dial where
  "no_dial = \<lparr>d_pc = DIdle, d_peer = [], d_conn = 0, d_reg = 0, d_token = [], d_chan = 0\<rparr>"

definition dial_lookup :: "Server \<Rightarrow> string \<Rightarrow> nat \<Rightarrow> Server \<times> dial" where
  "dial_lookup s peerID conn =
     (case fmlookup (registrations s) peerID of
        None \<Rightarrow> (refuse s conn '' peer not registered'', no_dial\<lparr>d_pc := DDone\<rparr>)
      | Some r \<Rightarrow> (s, no_dial\<lparr>d_pc := DFound, d_peer := peerID, d_conn := conn, d_reg := r\<rparr>))"

definition dial_token :: "Server \<Rightarrow> dial \<Rightarrow> string option \<Rightarrow> Server \<times> dial" where
  "dial_token s d token =
     (case token of
        None \<Rightarrow> (refuse s (d_conn d) '' internal'', d\<lparr>d_pc := DDone\<rparr>)
      | Some tok \<Rightarrow>
          (s\<lparr>pending := fmupd tok (next_chan s) (pending s), chans := (chans s)(next_chan s := []), next_chan := next_chan s + 1\<rparr>,
           d\<lparr>d_pc := DOpen, d_token := tok, d_chan := next_chan s\<rparr>))"

definition forget_token :: "Server \<Rightarrow> dial \<Rightarrow> Server" where
  "forget_token s d = s\<lparr>pending := fmdrop (d_token d) (pending s)\<rparr>"

definition dial_push :: "Server \<Rightarrow> dial \<Rightarrow> (Server \<times> dial) option" where
  "dial_push s d =
     (let r = regs s (d_reg d)
      in if r_closed r then None
         else if length (r_out r) < 16
         then Some (s\<lparr>regs := (regs s)(d_reg d := r\<lparr>r_out := r_out r @ [PushOpen @ '' '' @ d_token d]\<rparr>)\<rparr>, d\<lparr>d_pc := DWait\<rparr>)
         else Some (forget_token (refuse s (d_conn d) '' peer queue full'') d, d\<lparr>d_pc := DDone\<rparr>))"

definition dial_take :: "Server \<Rightarrow> dial \<Rightarrow> bool \<Rightarrow> bool \<Rightarrow> Server \<times> dial" where
  "dial_take s d ok_dialer ok_tunnel =
     (case chans s (d_chan d) of
        [] \<Rightarrow> (s, d)
      | tunnelConn # _ \<Rightarrow>
          let s1 = s\<lparr>chans := (chans s)(d_chan d := [])\<rparr>
          in if \<not> ok_dialer
             then (forget_token (close_conn (close_conn s1 (d_conn d)) tunnelConn) d, d\<lparr>d_pc := DDone\<rparr>)
             else
               let s2 = say s1 (d_conn d) RespOK
               in if \<not> ok_tunnel
                  then (forget_token (close_conn (close_conn s2 (d_conn d)) tunnelConn) d, d\<lparr>d_pc := DDone\<rparr>)
                  else (say s2 tunnelConn RespOK, d\<lparr>d_pc := DPiped tunnelConn\<rparr>))"

definition dial_timeout :: "Server \<Rightarrow> dial \<Rightarrow> Server \<times> dial" where
  "dial_timeout s d = (forget_token (refuse s (d_conn d) '' timeout'') d, d\<lparr>d_pc := DDone\<rparr>)"

definition dial_end :: "Server \<Rightarrow> dial \<Rightarrow> nat \<Rightarrow> Server \<times> dial" where
  "dial_end s d tunnelConn =
     (forget_token (close_conn (close_conn s (d_conn d)) tunnelConn) d, d\<lparr>d_pc := DDone\<rparr>)"

text \<open>\<open>handleTunnel\<close>: looking up the token, and handing the connection over.\<close>

datatype tunnel_pc = TIdle | TFound | TDone

record tunnel =
  t_pc :: tunnel_pc
  t_token :: string
  t_conn :: nat
  t_chan :: nat

definition no_tunnel :: tunnel where
  "no_tunnel = \<lparr>t_pc = TIdle, t_token = [], t_conn = 0, t_chan = 0\<rparr>"

definition tunnel_lookup :: "Server \<Rightarrow> string \<Rightarrow> nat \<Rightarrow> Server \<times> tunnel" where
  "tunnel_lookup s token conn =
     (case fmlookup (pending s) token of
        None \<Rightarrow> (refuse s conn '' bad token'', no_tunnel\<lparr>t_pc := TDone\<rparr>)
      | Some ch \<Rightarrow> (s, \<lparr>t_pc = TFound, t_token = token, t_conn = conn, t_chan = ch\<rparr>))"

definition tunnel_hand :: "Server \<Rightarrow> tunnel \<Rightarrow> Server \<times> tunnel" where
  "tunnel_hand s t =
     (if chans s (t_chan t) = [] then (s\<lparr>chans := (chans s)(t_chan t := [t_conn t])\<rparr>, t\<lparr>t_pc := TDone\<rparr>)
      else (refuse s (t_conn t) '' race'', t\<lparr>t_pc := TDone\<rparr>))"

subsection \<open>Interleaving\<close>

record relay =
  srv :: Server
  dials :: "nat \<Rightarrow> dial"
  tunnels :: "nat \<Rightarrow> tunnel"

definition relay_init :: relay where
  "relay_init = \<lparr>srv = NewServer, dials = (\<lambda>_. no_dial), tunnels = (\<lambda>_. no_tunnel)\<rparr>"

datatype relay_event =
    EvRegister string nat bool
  | EvRegisterEnd nat
  | EvWriter nat
  | EvDial nat string nat
  | EvToken nat "string option"
  | EvPush nat
  | EvTake nat bool bool
  | EvTimeout nat
  | EvDialEnd nat
  | EvTunnel nat string nat
  | EvHand nat
  | EvStop

definition set_dial :: "relay \<Rightarrow> nat \<Rightarrow> Server \<times> dial \<Rightarrow> relay" where
  "set_dial y i r = y\<lparr>srv := fst r, dials := (dials y)(i := snd r)\<rparr>"

definition set_tunnel :: "relay \<Rightarrow> nat \<Rightarrow> Server \<times> tunnel \<Rightarrow> relay" where
  "set_tunnel y i r = y\<lparr>srv := fst r, tunnels := (tunnels y)(i := snd r)\<rparr>"

text \<open>An event whose goroutine is not at the right place has no effect.\<close>

fun relay_step :: "relay \<Rightarrow> relay_event \<Rightarrow> relay option" where
  "relay_step y (EvRegister peerID conn ok) = Some (y\<lparr>srv := handleRegister (srv y) peerID conn ok\<rparr>)"
| "relay_step y (EvRegisterEnd r) =
     Some (if r < next_reg (srv y) \<and> \<not> r_closed (regs (srv y) r) then y\<lparr>srv := handleRegister_end (srv y) r\<rparr> else y)"
| "relay_step y (EvWriter r) = Some (y\<lparr>srv := register_writer (srv y) r\<rparr>)"
| "relay_step y (EvDial i peerID conn) =
     Some (if d_pc (dials y i) = DIdle then set_dial y i (dial_lookup (srv y) peerID conn) else y)"
| "relay_step y (EvToken i tok) =
     Some (if d_pc (dials y i) = DFound then set_dial y i (dial_token (srv y) (dials y i) tok) else y)"
| "relay_step y (EvPush i) =
     (if d_pc (dials y i) = DOpen then map_option (set_dial y i) (dial_push (srv y) (dials y i)) else Some y)"
| "relay_step y (EvTake i ok1 ok2) =
     Some (if d_pc (dials y i) = DWait then set_dial y i (dial_take (srv y) (dials y i) ok1 ok2) else y)"
| "relay_step y (EvTimeout i) =
     Some (if d_pc (dials y i) = DWait then set_dial y i (dial_timeout (srv y) (dials y i)) else y)"
| "relay_step y (EvDialEnd i) =
     Some (case d_pc (dials y i) of DPiped x \<Rightarrow> set_dial y i (dial_end (srv y) (dials y i) x) | _ \<Rightarrow> y)"
| "relay_step y (EvTunnel i tok conn) =
     Some (if t_pc (tunnels y i) = TIdle then set_tunnel y i (tunnel_lookup (srv y) tok conn) else y)"
| "relay_step y (EvHand i) =
     Some (if t_pc (tunnels y i) = TFound then set_tunnel y i (tunnel_hand (srv y) (tunnels y i)) else y)"
| "relay_step y EvStop = Some (y\<lparr>srv := Server_Stop (srv y)\<rparr>)"

definition relay_run :: "relay option \<Rightarrow> relay_event \<Rightarrow> relay option" where
  "relay_run y e = (case y of None \<Rightarrow> None | Some y' \<Rightarrow> relay_step y' e)"

subsection \<open>The client\<close>

text \<open>
  A connection with bytes that were read ahead of the caller: first these, then the connection. The
  lengths are those of the buffers the caller passes.
\<close>

record prefixConn =
  prefix :: string
  underlying :: string

definition prefix_Read :: "prefixConn \<Rightarrow> nat \<Rightarrow> string \<times> prefixConn" where
  "prefix_Read p n =
     (if prefix p \<noteq> [] then (take n (prefix p), p\<lparr>prefix := drop n (prefix p)\<rparr>)
      else (take n (underlying p), p\<lparr>underlying := drop n (underlying p)\<rparr>))"

datatype via_error = ErrRelayDial | ErrRelayDeadline | ErrRelayWrite | ErrRelayRead | ErrRelayRefused string

text \<open>
  \<open>incoming\<close> is what arrives from the relay, of which \<open>ahead\<close> bytes after the reply are already
  buffered when the reply has been read.
\<close>

definition await_ok :: "bool \<Rightarrow> string \<Rightarrow> nat \<Rightarrow> via_error + prefixConn" where
  "await_ok eof incoming ahead =
     (case readLine eof incoming of
        None \<Rightarrow> Inl ErrRelayRead
      | Some (resp, rest) \<Rightarrow>
          if \<not> HasPrefix resp RespOK then Inl (ErrRelayRefused resp)
          else Inr \<lparr>prefix = take ahead rest, underlying = drop ahead rest\<rparr>)"

definition DialVia :: "string \<Rightarrow> bool \<Rightarrow> bool \<Rightarrow> bool \<Rightarrow> bool \<Rightarrow> string \<Rightarrow> nat \<Rightarrow> via_error + prefixConn" where
  "DialVia peerID dial_ok deadline_ok write_ok eof incoming ahead =
     (if \<not> dial_ok then Inl ErrRelayDial
      else if \<not> deadline_ok then Inl ErrRelayDeadline
      else if \<not> write_ok \<or> writeLine (CmdDial @ '' '' @ peerID) = None then Inl ErrRelayWrite
      else await_ok eof incoming ahead)"

text \<open>A tunnel is dropped when the peer layer has 16 tunnels waiting, and when the client is stopped.\<close>

definition openTunnel ::
  "string \<Rightarrow> bool \<Rightarrow> bool \<Rightarrow> bool \<Rightarrow> bool \<Rightarrow> string \<Rightarrow> nat \<Rightarrow> bool \<Rightarrow> prefixConn list \<Rightarrow> prefixConn list" where
  "openTunnel token dial_ok deadline_ok write_ok eof incoming ahead stop tuns =
     (if \<not> dial_ok \<or> \<not> deadline_ok \<or> \<not> write_ok \<or> writeLine (CmdTunnel @ '' '' @ token) = None then tuns
      else case await_ok eof incoming ahead of
             Inl _ \<Rightarrow> tuns
           | Inr conn \<Rightarrow> if \<not> stop \<and> length tuns < 16 then tuns @ [conn] else tuns)"

text \<open>The token a pushed line asks a tunnel for.\<close>

definition open_token :: "string \<Rightarrow> string option" where
  "open_token line = (case Fields line of cmd # tok # _ \<Rightarrow> if cmd = PushOpen then Some tok else None | _ \<Rightarrow> None)"

lemma IndexByte_less: "IndexByte s c = Some k \<Longrightarrow> k < length s"
  by (induction s arbitrary: k) (auto split: if_splits)

lemma readLine_shorter: "readLine eof s = Some (line, rest) \<Longrightarrow> length rest < length s"
  by (auto simp: readLine_def Let_def split: option.splits if_splits dest: IndexByte_less)

text \<open>
  The loop that reads the pushed lines: the tokens it opens tunnels for, and how it ends. \<open>stop n\<close>
  tells whether the client has been stopped when the loop begins its round \<open>n\<close>.
\<close>

datatype run_end = RunStopped | RunError

function push_loop :: "(nat \<Rightarrow> bool) \<Rightarrow> bool \<Rightarrow> nat \<Rightarrow> string \<Rightarrow> string list \<times> run_end" where
  "push_loop stop eof n s =
     (if stop n then ([], RunStopped)
      else case readLine eof s of
             None \<Rightarrow> ([], RunError)
           | Some (line, rest) \<Rightarrow>
               (case push_loop stop eof (n + 1) rest of
                  (toks, r) \<Rightarrow> ((case open_token line of None \<Rightarrow> toks | Some tok \<Rightarrow> tok # toks), r)))"
  by pat_completeness auto
termination
  by (relation "measure (\<lambda>(_, _, _, s). length s)") (auto dest: readLine_shorter)

declare push_loop.simps [simp del]

definition runOnce ::
  "string \<Rightarrow> bool \<Rightarrow> bool \<Rightarrow> bool \<Rightarrow> bool \<Rightarrow> (nat \<Rightarrow> bool) \<Rightarrow> bool \<Rightarrow> string \<Rightarrow> string list \<times> run_end" where
  "runOnce peerID dial_ok was_stopped write_ok deadline_ok stop eof incoming =
     (if \<not> dial_ok then ([], RunError)
      else if was_stopped then ([], RunStopped)
      else if \<not> write_ok \<or> writeLine (CmdRegister @ '' '' @ peerID) = None then ([], RunError)
      else if \<not> deadline_ok then ([], RunError)
      else case readLine eof incoming of
             None \<Rightarrow> ([], RunError)
           | Some (resp, rest) \<Rightarrow> if \<not> HasPrefix resp RespOK then ([], RunError) else push_loop stop eof 0 rest)"

text \<open>The pause before the next attempt, in seconds, after a run that ended as given.\<close>

definition next_backoff :: "nat \<Rightarrow> run_end \<Rightarrow> nat" where
  "next_backoff backoff r =
     (case r of RunError \<Rightarrow> (if backoff * 2 > 60 then 60 else backoff * 2) | RunStopped \<Rightarrow> 1)"

fun run_pauses :: "nat \<Rightarrow> run_end list \<Rightarrow> nat list" where
  "run_pauses backoff [] = []"
| "run_pauses backoff (r # rs) =
     (if r = RunError then backoff # run_pauses (next_backoff backoff r) rs else run_pauses (next_backoff backoff r) rs)"

text \<open>\<open>pipe\<close> copies each read to the other side until a read or a write fails.\<close>

fun pipe_copy :: "(string \<times> bool \<times> bool) list \<Rightarrow> string" where
  "pipe_copy [] = []"
| "pipe_copy ((buf, read_ok, write_ok) # reads) =
     (if buf \<noteq> [] \<and> \<not> write_ok then [] else buf @ (if read_ok then pipe_copy reads else []))"

section \<open>The invariant of the server\<close>

definition open_line :: "string \<Rightarrow> string" where
  "open_line tok = PushOpen @ '' '' @ tok"

definition reg_inv :: "Server \<Rightarrow> bool" where
  "reg_inv s \<longleftrightarrow>
     (\<forall>p r. fmlookup (registrations s) p = Some r \<longrightarrow> r < next_reg s \<and> r_peerID (regs s r) = p \<and> \<not> r_closed (regs s r))
   \<and> (\<forall>r. length (r_out (regs s r)) \<le> 16) \<and> (\<forall>ch. length (chans s ch) \<le> 1) \<and> 0 < next_chan s"

definition dial_ok :: "Server \<Rightarrow> dial \<Rightarrow> bool" where
  "dial_ok s d \<longleftrightarrow>
     (d_pc d = DIdle \<or> d_pc d = DFound \<longrightarrow> d_chan d = 0) \<and> (d_pc d \<notin> {DIdle, DFound, DDone} \<longrightarrow> d_chan d \<noteq> 0)
   \<and> d_chan d < next_chan s
   \<and> (d_chan d \<noteq> 0 \<or> d_pc d = DFound \<longrightarrow> d_reg d < next_reg s \<and> r_peerID (regs s (d_reg d)) = d_peer d)"

definition dial_inv :: "relay \<Rightarrow> bool" where
  "dial_inv y \<longleftrightarrow> (\<forall>i. dial_ok (srv y) (dials y i))
   \<and> inj_on (\<lambda>i. d_chan (dials y i)) {i. d_chan (dials y i) \<noteq> 0}"

text \<open>A channel that was created for a token.\<close>

definition chan_for :: "relay \<Rightarrow> nat \<Rightarrow> string \<Rightarrow> bool" where
  "chan_for y ch tok \<longleftrightarrow> ch \<noteq> 0 \<and> (\<exists>i. d_chan (dials y i) = ch \<and> d_token (dials y i) = tok)"

definition link_inv :: "relay \<Rightarrow> bool" where
  "link_inv y \<longleftrightarrow>
     (\<forall>r l. l \<in> set (r_out (regs (srv y) r)) \<longrightarrow>
        (\<exists>i. d_chan (dials y i) \<noteq> 0 \<and> l = open_line (d_token (dials y i)) \<and> d_reg (dials y i) = r))
   \<and> (\<forall>tok ch. fmlookup (pending (srv y)) tok = Some ch \<longrightarrow> chan_for y ch tok)
   \<and> (\<forall>i. t_chan (tunnels y i) \<noteq> 0 \<longrightarrow> chan_for y (t_chan (tunnels y i)) (t_token (tunnels y i)))
   \<and> (\<forall>i. t_pc (tunnels y i) = TIdle \<longrightarrow> t_chan (tunnels y i) = 0)
   \<and> (\<forall>i. t_pc (tunnels y i) = TFound \<longrightarrow> t_chan (tunnels y i) \<noteq> 0)
   \<and> (\<forall>ch x. x \<in> set (chans (srv y) ch) \<longrightarrow> (\<exists>i. t_chan (tunnels y i) = ch \<and> ch \<noteq> 0 \<and> t_conn (tunnels y i) = x))
   \<and> (\<forall>i x. d_pc (dials y i) = DPiped x \<longrightarrow> (\<exists>j. t_chan (tunnels y j) = d_chan (dials y i) \<and> t_conn (tunnels y j) = x))"

definition relay_inv :: "relay \<Rightarrow> bool" where
  "relay_inv y \<longleftrightarrow> reg_inv (srv y) \<and> dial_inv y \<and> link_inv y"

text \<open>Closing, writing and refusing change nothing the invariant speaks of.\<close>

lemma say_simps [simp]:
  "registrations (say s x l) = registrations s" "regs (say s x l) = regs s" "next_reg (say s x l) = next_reg s"
  "pending (say s x l) = pending s" "chans (say s x l) = chans s" "next_chan (say s x l) = next_chan s"
  by (simp_all add: say_def)

lemma close_conn_simps [simp]:
  "registrations (close_conn s x) = registrations s" "regs (close_conn s x) = regs s" "next_reg (close_conn s x) = next_reg s"
  "pending (close_conn s x) = pending s" "chans (close_conn s x) = chans s" "next_chan (close_conn s x) = next_chan s"
  by (simp_all add: close_conn_def)

lemma refuse_simps [simp]:
  "registrations (refuse s x l) = registrations s" "regs (refuse s x l) = regs s" "next_reg (refuse s x l) = next_reg s"
  "pending (refuse s x l) = pending s" "chans (refuse s x l) = chans s" "next_chan (refuse s x l) = next_chan s"
  by (simp_all add: refuse_def)

lemma forget_token_simps [simp]:
  "registrations (forget_token s d) = registrations s" "regs (forget_token s d) = regs s" "next_reg (forget_token s d) = next_reg s"
  "pending (forget_token s d) = fmdrop (d_token d) (pending s)" "chans (forget_token s d) = chans s"
  "next_chan (forget_token s d) = next_chan s"
  by (simp_all add: forget_token_def)

lemma dropRegistration_simps [simp]:
  "regs (dropRegistration s r) = regs s" "next_reg (dropRegistration s r) = next_reg s"
  "pending (dropRegistration s r) = pending s" "chans (dropRegistration s r) = chans s"
  "next_chan (dropRegistration s r) = next_chan s"
  "fmlookup (registrations (dropRegistration s r)) p =
     (if p = r_peerID (regs s r) \<and> fmlookup (registrations s) p = Some r then None else fmlookup (registrations s) p)"
  by (auto simp: dropRegistration_def Let_def)

text \<open>The steps that touch only the server: what the invariant needs of them.\<close>

definition server_quiet :: "Server \<Rightarrow> Server \<Rightarrow> bool" where
  "server_quiet s s' \<longleftrightarrow> next_reg s \<le> next_reg s' \<and> next_chan s \<le> next_chan s'
   \<and> (\<forall>r<next_reg s. r_peerID (regs s' r) = r_peerID (regs s r)) \<and> (\<forall>r. set (r_out (regs s' r)) \<subseteq> set (r_out (regs s r)))
   \<and> (\<forall>tok. fmlookup (pending s') tok = None \<or> fmlookup (pending s') tok = fmlookup (pending s) tok)
   \<and> (\<forall>ch. set (chans s' ch) \<subseteq> set (chans s ch))"

lemma quiet_dial_ok: "dial_ok s d \<Longrightarrow> server_quiet s s' \<Longrightarrow> dial_ok s' d"
  unfolding dial_ok_def server_quiet_def by (metis order_less_le_trans)

lemma quiet_dial_inv:
  assumes "dial_inv y" and "server_quiet (srv y) s'"
  shows "dial_inv (y\<lparr>srv := s'\<rparr>)"
  using assms unfolding dial_inv_def by (simp add: quiet_dial_ok [OF _ assms(2)])

lemma quiet_link_inv:
  assumes "link_inv y" and "server_quiet (srv y) s'"
  shows "link_inv (y\<lparr>srv := s'\<rparr>)"
proof -
  have "\<And>tok ch. fmlookup (pending s') tok = Some ch \<Longrightarrow> fmlookup (pending (srv y)) tok = Some ch"
    using assms(2) unfolding server_quiet_def by (metis option.distinct(1))
  then show ?thesis using assms unfolding link_inv_def server_quiet_def chan_for_def
    by (simp add: subset_iff) metis
qed

lemma server_step_inv:
  assumes "relay_inv y" and "reg_inv s'" and "server_quiet (srv y) s'"
  shows "relay_inv (y\<lparr>srv := s'\<rparr>)"
  using assms quiet_dial_inv quiet_link_inv unfolding relay_inv_def by auto

lemma handleRegister_inv:
  assumes "reg_inv s"
  shows "reg_inv (handleRegister s p x ok)" and "server_quiet s (handleRegister s p x ok)"
  using assms
  by (auto simp: handleRegister_def Let_def reg_inv_def server_quiet_def intro: less_SucI split: option.splits if_splits)

lemma handleRegister_end_inv:
  assumes "reg_inv s"
  shows "reg_inv (handleRegister_end s r)" and "server_quiet s (handleRegister_end s r)"
  using assms by (auto simp: handleRegister_end_def Let_def reg_inv_def server_quiet_def split: if_splits)

lemma register_writer_inv:
  assumes "reg_inv s"
  shows "reg_inv (register_writer s r)" and "server_quiet s (register_writer s r)"
  using assms by (auto simp: register_writer_def reg_inv_def server_quiet_def split: list.splits)
    (metis Suc_leD length_Cons)+

lemma Server_Stop_inv:
  assumes "reg_inv s"
  shows "reg_inv (Server_Stop s)" and "server_quiet s (Server_Stop s)"
  using assms by (auto simp: Server_Stop_def reg_inv_def server_quiet_def)

subsection \<open>The steps of a dial\<close>

text \<open>
  What a step of dial \<open>d\<close> may do: what it adds to the server is its own, and the channel it has, or
  gets, is its own.
\<close>

definition dial_adds :: "Server \<Rightarrow> Server \<Rightarrow> dial \<Rightarrow> bool" where
  "dial_adds s s' d' \<longleftrightarrow> next_reg s \<le> next_reg s' \<and> next_chan s \<le> next_chan s'
   \<and> (\<forall>r<next_reg s. r_peerID (regs s' r) = r_peerID (regs s r))
   \<and> (\<forall>r l. l \<in> set (r_out (regs s' r)) \<longrightarrow> l \<in> set (r_out (regs s r))
        \<or> d_chan d' \<noteq> 0 \<and> l = open_line (d_token d') \<and> d_reg d' = r)
   \<and> (\<forall>tok ch. fmlookup (pending s') tok = Some ch \<longrightarrow> fmlookup (pending s) tok = Some ch
        \<or> ch \<noteq> 0 \<and> ch = d_chan d' \<and> tok = d_token d')
   \<and> (\<forall>ch. set (chans s' ch) \<subseteq> set (chans s ch))"

definition dial_keeps :: "Server \<Rightarrow> dial \<Rightarrow> dial \<Rightarrow> bool" where
  "dial_keeps s d d' \<longleftrightarrow>
     (d_chan d \<noteq> 0 \<longrightarrow> d_chan d' = d_chan d \<and> d_token d' = d_token d \<and> d_reg d' = d_reg d)
   \<and> (d_chan d = 0 \<longrightarrow> d_chan d' = 0 \<or> next_chan s \<le> d_chan d')"

lemma dial_addsD:
  assumes "dial_adds s s' d'"
  shows "l \<in> set (r_out (regs s' r)) \<Longrightarrow> l \<in> set (r_out (regs s r)) \<or> d_chan d' \<noteq> 0 \<and> l = open_line (d_token d') \<and> d_reg d' = r"
    and "fmlookup (pending s') tok = Some ch \<Longrightarrow> fmlookup (pending s) tok = Some ch \<or> ch \<noteq> 0 \<and> ch = d_chan d' \<and> tok = d_token d'"
    and "x \<in> set (chans s' ch) \<Longrightarrow> x \<in> set (chans s ch)"
  using assms unfolding dial_adds_def by blast+

lemma set_dial_simps [simp]:
  "srv (set_dial y i r) = fst r" "dials (set_dial y i r) = (dials y)(i := snd r)" "tunnels (set_dial y i r) = tunnels y"
  by (simp_all add: set_dial_def)

lemma dial_step_inv:
  assumes inv: "relay_inv y" and s': "reg_inv s'" "dial_adds (srv y) s' d'" and d': "dial_keeps (srv y) (dials y i) d'" "dial_ok s' d'"
    and pipe: "\<And>x. d_pc d' = DPiped x \<Longrightarrow> \<exists>j. t_chan (tunnels y j) = d_chan d' \<and> t_conn (tunnels y j) = x"
  shows "relay_inv (set_dial y i (s', d'))"
proof -
  let ?y = "set_dial y i (s', d')"
  have d: "\<And>j. dial_ok (srv y) (dials y j)" "inj_on (\<lambda>i. d_chan (dials y i)) {i. d_chan (dials y i) \<noteq> 0}" and l: "link_inv y"
    using inv by (auto simp: relay_inv_def dial_inv_def)
  have ok: "dial_ok s' (dials y j)" for j
    using d(1) [of j] s'(2) unfolding dial_ok_def dial_adds_def by (metis order_less_le_trans)
  have lt: "d_chan (dials y j) < next_chan (srv y)" for j using d(1) [of j] by (simp add: dial_ok_def)
  have "inj_on (\<lambda>j. d_chan (dials ?y j)) {j. d_chan (dials ?y j) \<noteq> 0}"
  proof (rule inj_onI)
    fix j k assume jk: "j \<in> {j. d_chan (dials ?y j) \<noteq> 0}" "k \<in> {j. d_chan (dials ?y j) \<noteq> 0}" "d_chan (dials ?y j) = d_chan (dials ?y k)"
    have old: "d_chan (dials y j) = d_chan (dials y k) \<Longrightarrow> d_chan (dials y j) \<noteq> 0 \<Longrightarrow> j = k" for j k
      using inj_onD [OF d(2), of j k] by simp
    show "j = k" using jk old [of j k] old [of i k] old [of j i] lt [of j] lt [of k] d'(1)
      by (auto simp: set_dial_def dial_keeps_def split: if_splits)
  qed
  then have "dial_inv ?y" using ok d'(2) by (auto simp: dial_inv_def set_dial_def)
  have own: "\<exists>k. d_chan (dials ?y k) = ch \<and> d_token (dials ?y k) = tok \<and> (\<forall>r. d_reg (dials y j) = r \<longrightarrow> d_reg (dials ?y k) = r)"
    if "d_chan (dials y j) = ch" "d_token (dials y j) = tok" "ch \<noteq> 0" for j ch tok
    using that d'(1) by (intro exI [of _ j]) (auto simp: set_dial_def dial_keeps_def)
  have chan: "chan_for y ch tok \<Longrightarrow> chan_for ?y ch tok" for ch tok using own unfolding chan_for_def by blast
  have mine: "d_chan d' \<noteq> 0 \<Longrightarrow> chan_for ?y (d_chan d') (d_token d')" by (auto simp: chan_for_def set_dial_def)
  have "link_inv ?y"
    unfolding link_inv_def
  proof (intro conjI allI impI, goal_cases)
    case (1 r line)
    then consider "line \<in> set (r_out (regs (srv y) r))" | "d_chan d' \<noteq> 0" "line = open_line (d_token d')" "d_reg d' = r"
      using dial_addsD(1) [OF s'(2), of line r] by auto
    then show ?case
    proof cases
      case 1
      then obtain j where "d_chan (dials y j) \<noteq> 0" "line = open_line (d_token (dials y j))" "d_reg (dials y j) = r"
        using l unfolding link_inv_def by blast
      with own [OF refl refl this(1)] show ?thesis by metis
    next
      case 2
      then show ?thesis by (intro exI [of _ i]) (simp add: set_dial_def)
    qed
  next
    case (2 tok ch)
    then consider "fmlookup (pending (srv y)) tok = Some ch" | "ch \<noteq> 0" "ch = d_chan d'" "tok = d_token d'"
      using dial_addsD(2) [OF s'(2), of tok ch] by auto
    then show ?case using chan l mine unfolding link_inv_def by cases auto
  next
    case (3 j)
    then show ?case using l chan unfolding link_inv_def by (simp add: set_dial_def)
  next
    case (6 ch x)
    then have "x \<in> set (chans (srv y) ch)" using dial_addsD(3) [OF s'(2)] by simp
    then show ?case using l unfolding link_inv_def by (simp add: set_dial_def)
  next
    case (7 j x)
    show ?case
    proof (cases "j = i")
      case True
      then show ?thesis using 7 pipe by (simp add: set_dial_def)
    next
      case False
      then show ?thesis using 7 l unfolding link_inv_def by (simp add: set_dial_def)
    qed
  qed (use l in \<open>auto simp: link_inv_def set_dial_def\<close>)
  with \<open>dial_inv ?y\<close> s'(1) show ?thesis by (simp add: relay_inv_def set_dial_def)
qed

lemma quiet_refl [simp]: "server_quiet s s"
  by (simp add: server_quiet_def)

lemma quiet_effects [simp]:
  "server_quiet s (refuse s x l)" "server_quiet s (forget_token (refuse s x l) d)"
  "server_quiet s (forget_token (close_conn (close_conn s x) x') d)"
  "reg_inv (refuse s x l) = reg_inv s" "reg_inv (forget_token s d) = reg_inv s" "reg_inv (close_conn s x) = reg_inv s"
  "reg_inv (say s x l) = reg_inv s"
  by (simp_all add: server_quiet_def reg_inv_def)

lemma relay_invD:
  "relay_inv y \<Longrightarrow> reg_inv (srv y)" "relay_inv y \<Longrightarrow> dial_ok (srv y) (dials y i)"
  by (simp_all add: relay_inv_def dial_inv_def)

lemma dial_lookup_inv:
  assumes "relay_inv y" and "d_pc (dials y i) = DIdle"
  shows "relay_inv (set_dial y i (dial_lookup (srv y) p x))"
proof (cases "dial_lookup (srv y) p x")
  case (Pair s' d')
  have "d_chan (dials y i) = 0" using relay_invD(2) [OF assms(1), of i] assms(2) by (simp add: dial_ok_def)
  then show ?thesis unfolding Pair using Pair relay_invD(1) [OF assms(1)]
    by (intro dial_step_inv [OF assms(1)])
      (auto simp: dial_lookup_def dial_adds_def dial_keeps_def dial_ok_def no_dial_def reg_inv_def split: option.splits)
qed

lemma dial_token_inv:
  assumes "relay_inv y" and "d_pc (dials y i) = DFound"
  shows "relay_inv (set_dial y i (dial_token (srv y) (dials y i) tok))"
proof (cases "dial_token (srv y) (dials y i) tok")
  case (Pair s' d')
  have "d_chan (dials y i) = 0" using relay_invD(2) [OF assms(1), of i] assms(2) by (simp add: dial_ok_def)
  then show ?thesis unfolding Pair using Pair assms(2) relay_invD(1) [OF assms(1)] relay_invD(2) [OF assms(1), of i]
    by (intro dial_step_inv [OF assms(1)])
      (auto simp: dial_token_def dial_adds_def dial_keeps_def dial_ok_def reg_inv_def split: option.splits if_splits)
qed

lemma dial_push_inv:
  assumes "relay_inv y" and "d_pc (dials y i) = DOpen" and "dial_push (srv y) (dials y i) = Some r"
  shows "relay_inv (set_dial y i r)"
proof (cases r)
  case (Pair s' d')
  show ?thesis unfolding Pair using Pair assms(2,3) relay_invD(1) [OF assms(1)] relay_invD(2) [OF assms(1), of i]
    by (intro dial_step_inv [OF assms(1)])
      (auto simp: dial_push_def Let_def dial_adds_def dial_keeps_def dial_ok_def reg_inv_def open_line_def split: if_splits)
qed

lemma dial_take_inv:
  assumes "relay_inv y" and "d_pc (dials y i) = DWait"
  shows "relay_inv (set_dial y i (dial_take (srv y) (dials y i) ok1 ok2))"
proof (cases "dial_take (srv y) (dials y i) ok1 ok2")
  case (Pair s' d')
  have "\<exists>j. t_chan (tunnels y j) = ch \<and> t_conn (tunnels y j) = x" if "chans (srv y) ch = x # xs" for ch x xs
    using that assms(1) unfolding relay_inv_def link_inv_def by (metis list.set_intros(1))
  then show ?thesis unfolding Pair using Pair assms(2) relay_invD(1) [OF assms(1)] relay_invD(2) [OF assms(1), of i]
    by (intro dial_step_inv [OF assms(1)])
      (auto simp: dial_take_def Let_def dial_adds_def dial_keeps_def dial_ok_def reg_inv_def split: list.splits if_splits)
qed

lemma dial_timeout_inv:
  assumes "relay_inv y" and "d_pc (dials y i) = DWait"
  shows "relay_inv (set_dial y i (dial_timeout (srv y) (dials y i)))"
  unfolding dial_timeout_def using assms(2) relay_invD(1) [OF assms(1)] relay_invD(2) [OF assms(1), of i]
  by (intro dial_step_inv [OF assms(1)])
    (auto simp: dial_adds_def dial_keeps_def dial_ok_def split: if_splits)

lemma dial_end_inv:
  assumes "relay_inv y" and "d_pc (dials y i) = DPiped x"
  shows "relay_inv (set_dial y i (dial_end (srv y) (dials y i) x))"
  unfolding dial_end_def using assms(2) relay_invD(1) [OF assms(1)] relay_invD(2) [OF assms(1), of i]
  by (intro dial_step_inv [OF assms(1)])
    (auto simp: dial_adds_def dial_keeps_def dial_ok_def split: if_splits)

lemma set_tunnel_simps [simp]:
  "srv (set_tunnel y i r) = fst r" "tunnels (set_tunnel y i r) = (tunnels y)(i := snd r)" "dials (set_tunnel y i r) = dials y"
  by (simp_all add: set_tunnel_def)

lemma link_invD:
  assumes "link_inv y"
  shows "l \<in> set (r_out (regs (srv y) r)) \<Longrightarrow> \<exists>i. d_chan (dials y i) \<noteq> 0 \<and> l = open_line (d_token (dials y i)) \<and> d_reg (dials y i) = r"
    and "fmlookup (pending (srv y)) tok = Some ch \<Longrightarrow> chan_for y ch tok"
    and "t_chan (tunnels y i) \<noteq> 0 \<Longrightarrow> chan_for y (t_chan (tunnels y i)) (t_token (tunnels y i))"
    and "t_pc (tunnels y i) = TIdle \<Longrightarrow> t_chan (tunnels y i) = 0" and "t_pc (tunnels y i) = TFound \<Longrightarrow> t_chan (tunnels y i) \<noteq> 0"
    and "x \<in> set (chans (srv y) ch) \<Longrightarrow> \<exists>i. t_chan (tunnels y i) = ch \<and> ch \<noteq> 0 \<and> t_conn (tunnels y i) = x"
    and "d_pc (dials y i) = DPiped x \<Longrightarrow> \<exists>j. t_chan (tunnels y j) = d_chan (dials y i) \<and> t_conn (tunnels y j) = x"
  using assms unfolding link_inv_def by blast+

text \<open>A tunnel that finds the channel of a token, or hands its connection over.\<close>

lemma tunnel_step_inv:
  assumes inv: "relay_inv y" and s': "reg_inv s'" "registrations s' = registrations (srv y)" "regs s' = regs (srv y)"
      "next_reg s' = next_reg (srv y)" "pending s' = pending (srv y)" "next_chan s' = next_chan (srv y)"
    and ch: "\<And>c x. x \<in> set (chans s' c) \<Longrightarrow> x \<in> set (chans (srv y) c) \<or> c \<noteq> 0 \<and> c = t_chan t' \<and> x = t_conn t'"
    and t': "t_chan (tunnels y i) \<noteq> 0 \<Longrightarrow> t_chan t' = t_chan (tunnels y i) \<and> t_conn t' = t_conn (tunnels y i)"
      "t_chan t' \<noteq> 0 \<Longrightarrow> chan_for y (t_chan t') (t_token t')" "t_pc t' \<noteq> TIdle" "t_pc t' = TFound \<Longrightarrow> t_chan t' \<noteq> 0"
  shows "relay_inv (set_tunnel y i (s', t'))"
proof -
  let ?y = "set_tunnel y i (s', t')"
  have l: "link_inv y" and d: "dial_inv y" using inv by (auto simp: relay_inv_def)
  have "dial_inv ?y" using d s' by (simp add: dial_inv_def dial_ok_def)
  have c: "chan_for ?y = chan_for y" by (simp add: chan_for_def fun_eq_iff)
  have own: "\<exists>k. t_chan (tunnels ?y k) = ch \<and> t_conn (tunnels ?y k) = x"
    if "t_chan (tunnels y j) = ch" "t_conn (tunnels y j) = x" "ch \<noteq> 0" for j ch x
    using that t'(1) by (intro exI [of _ j]) auto
  have "link_inv ?y"
    unfolding link_inv_def c
  proof (intro conjI allI impI, goal_cases)
    case (6 c x)
    then consider "x \<in> set (chans (srv y) c)" | "c \<noteq> 0" "c = t_chan t'" "x = t_conn t'" using ch [of x c] by auto
    then show ?case
    proof cases
      case 1
      then obtain j where "t_chan (tunnels y j) = c" "c \<noteq> 0" "t_conn (tunnels y j) = x" using l unfolding link_inv_def by blast
      with own show ?thesis by blast
    next
      case 2
      then show ?thesis by (intro exI [of _ i]) simp
    qed
  next
    case (7 j x)
    then obtain k where "t_chan (tunnels y k) = d_chan (dials y j)" "t_conn (tunnels y k) = x"
      using link_invD(7) [OF l, of j x] by auto
    moreover have "d_chan (dials y j) \<noteq> 0" using 7 relay_invD(2) [OF inv, of j] by (auto simp: dial_ok_def)
    ultimately show ?case using own by simp
  next
    case (2 tok c)
    then show ?case using link_invD(2) [OF l] s'(5) by simp
  next
    case (1 r line)
    then show ?case using link_invD(1) [OF l] s'(3) by simp
  next
    case (3 j)
    then show ?case using link_invD(3) [OF l, of j] t'(2) by (simp split: if_splits)
  next
    case (4 j)
    then show ?case using link_invD(4) [OF l, of j] t'(3) by (simp split: if_splits)
  next
    case (5 j)
    then show ?case using link_invD(5) [OF l, of j] t'(4) by (simp split: if_splits)
  qed
  with \<open>dial_inv ?y\<close> s'(1) show ?thesis by (simp add: relay_inv_def)
qed

lemma tunnel_lookup_inv:
  assumes "relay_inv y" and "t_pc (tunnels y i) = TIdle"
  shows "relay_inv (set_tunnel y i (tunnel_lookup (srv y) tok x))"
proof (cases "tunnel_lookup (srv y) tok x")
  case (Pair s' t')
  have l: "link_inv y" using assms(1) by (simp add: relay_inv_def)
  then have "t_chan (tunnels y i) = 0" using assms(2) unfolding link_inv_def by blast
  moreover have "chan_for y ch tok" if "fmlookup (pending (srv y)) tok = Some ch" for ch tok
    using that l unfolding link_inv_def by blast
  ultimately show ?thesis unfolding Pair using Pair relay_invD(1) [OF assms(1)]
    by (intro tunnel_step_inv [OF assms(1)]) (auto simp: tunnel_lookup_def no_tunnel_def chan_for_def split: option.splits)
qed

lemma tunnel_hand_inv:
  assumes "relay_inv y" and "t_pc (tunnels y i) = TFound"
  shows "relay_inv (set_tunnel y i (tunnel_hand (srv y) (tunnels y i)))"
proof (cases "tunnel_hand (srv y) (tunnels y i)")
  case (Pair s' t')
  have l: "link_inv y" using assms(1) by (simp add: relay_inv_def)
  then have "t_chan (tunnels y i) \<noteq> 0" "chan_for y (t_chan (tunnels y i)) (t_token (tunnels y i))"
    using assms(2) unfolding link_inv_def by blast+
  then show ?thesis unfolding Pair using Pair relay_invD(1) [OF assms(1)]
    by (intro tunnel_step_inv [OF assms(1)]) (auto simp: tunnel_hand_def reg_inv_def split: if_splits)
qed

lemma relay_step_inv:
  assumes "relay_inv y" and "relay_step y e = Some y'"
  shows "relay_inv y'"
proof (cases e)
  case (EvDialEnd i)
  then show ?thesis using assms dial_end_inv [OF assms(1), of i] by (auto split: dial_pc.splits)
next
  case (EvPush i)
  then show ?thesis using assms dial_push_inv [OF assms(1), of i] by (auto split: if_splits)
qed (use assms relay_invD(1) [OF assms(1)] in \<open>auto intro!: server_step_inv handleRegister_inv handleRegister_end_inv
    register_writer_inv Server_Stop_inv dial_lookup_inv dial_token_inv dial_take_inv dial_timeout_inv tunnel_lookup_inv tunnel_hand_inv
    split: if_splits\<close>)

lemma relay_init_inv: "relay_inv relay_init"
  by (simp add: relay_inv_def relay_init_def reg_inv_def dial_inv_def dial_ok_def link_inv_def NewServer_def no_dial_def no_tunnel_def
      no_reg_def)

definition relay_alive_inv :: "relay option \<Rightarrow> bool" where
  "relay_alive_inv y \<longleftrightarrow> (case y of None \<Rightarrow> True | Some y' \<Rightarrow> relay_inv y')"

interpretation relay_runs: handler_invariant relay_run relay_alive_inv
  by unfold_locales (auto simp: relay_run_def relay_alive_inv_def intro: relay_step_inv split: option.splits)

lemma relay_reachable: "foldl relay_run (Some relay_init) es = Some y \<Longrightarrow> relay_inv y"
  using relay_runs.fold_inv [of "Some relay_init" es] relay_init_inv by (simp add: relay_alive_inv_def)

section \<open>Properties\<close>

text \<open>
  C11: the relay connects a dialler only to who was asked. In every state that the interleaved
  goroutines can reach, a dial that is piped to a connection is piped to one that presented the token
  of this very dial; and a token is only ever queued for the control connection of a registration
  under the identifier that was dialled. Queues and channels stay within their capacities, and a
  registration that can be found has not ended.
\<close>

theorem relay_pairing:
  assumes "foldl relay_run (Some relay_init) es = Some y"
  shows "(\<forall>i x. d_pc (dials y i) = DPiped x \<longrightarrow>
         (\<exists>j. t_conn (tunnels y j) = x \<and> t_token (tunnels y j) = d_token (dials y i)))
    \<and> (\<forall>r line. line \<in> set (r_out (regs (srv y) r)) \<longrightarrow>
         (\<exists>i. line = open_line (d_token (dials y i)) \<and> r_peerID (regs (srv y) r) = d_peer (dials y i)))
    \<and> (\<forall>p r. fmlookup (registrations (srv y)) p = Some r \<longrightarrow> r_peerID (regs (srv y) r) = p \<and> \<not> r_closed (regs (srv y) r))
    \<and> (\<forall>r. length (r_out (regs (srv y) r)) \<le> 16) \<and> (\<forall>ch. length (chans (srv y) ch) \<le> 1)"
proof -
  have inv: "relay_inv y" by (rule relay_reachable [OF assms])
  then have l: "link_inv y" and d: "dial_inv y" and r: "reg_inv (srv y)" by (auto simp: relay_inv_def)
  have "\<exists>j. t_conn (tunnels y j) = x \<and> t_token (tunnels y j) = d_token (dials y i)" if piped: "d_pc (dials y i) = DPiped x" for i x
  proof -
    obtain j where j: "t_chan (tunnels y j) = d_chan (dials y i)" "t_conn (tunnels y j) = x" using link_invD(7) [OF l piped] by blast
    have ch: "d_chan (dials y i) \<noteq> 0" using piped relay_invD(2) [OF inv, of i] by (simp add: dial_ok_def)
    then have "chan_for y (d_chan (dials y i)) (t_token (tunnels y j))" using link_invD(3) [OF l, of j] j(1) by simp
    then obtain k where "d_chan (dials y k) = d_chan (dials y i)" "d_token (dials y k) = t_token (tunnels y j)"
      by (auto simp: chan_for_def)
    moreover from this(1) ch d have "k = i" unfolding dial_inv_def inj_on_def by auto
    ultimately show ?thesis using j(2) by auto
  qed
  moreover have "\<exists>i. line = open_line (d_token (dials y i)) \<and> r_peerID (regs (srv y) r) = d_peer (dials y i)"
    if "line \<in> set (r_out (regs (srv y) r))" for r line
    using link_invD(1) [OF l that] relay_invD(2) [OF inv] unfolding dial_ok_def by metis
  ultimately show ?thesis using r unfolding reg_inv_def by blast
qed

definition sample_id :: string where
  "sample_id = replicate 64 (CHR ''a'')"

lemma sample_id_valid [simp]: "validHexID sample_id"
  by (simp add: validHexID_def sample_id_def list_all_iff hex_val_def)

definition sample_relay :: "relay_event list" where
  "sample_relay = [EvRegister sample_id 1 True, EvDial 0 sample_id 2, EvToken 0 (Some ''t''), EvPush 0, EvTunnel 0 ''t'' 3, EvHand 0,
     EvTake 0 True True]"

lemmas relay_eval = relay_run_def relay_init_def NewServer_def handleRegister_def dial_lookup_def dial_token_def dial_push_def
  dial_take_def tunnel_lookup_def tunnel_hand_def no_dial_def no_tunnel_def Let_def

lemma sample_relay_runs:
  obtains y where "foldl relay_run (Some relay_init) sample_relay = Some y" "d_pc (dials y 0) = DPiped 3" "d_token (dials y 0) = ''t''"
  by (simp add: sample_relay_def relay_eval)

theorem relay_pairing_witness:
  "\<exists>y j. foldl relay_run (Some relay_init) sample_relay = Some y \<and> d_pc (dials y 0) = DPiped 3
     \<and> t_conn (tunnels y j) = 3 \<and> t_token (tunnels y j) = d_token (dials y 0)"
proof -
  obtain y where y: "foldl relay_run (Some relay_init) sample_relay = Some y" "d_pc (dials y 0) = DPiped 3" by (rule sample_relay_runs)
  with relay_pairing [OF y(1)] show ?thesis by blast
qed

text \<open>
  A peer that disconnects at the wrong moment stops the relay. The server panics exactly when a
  dial that has found a registration sends to its queue after the registration has ended, because the
  channel is closed then. This happens: a peer registers, is dialled, and disconnects before the dial
  has sent.
\<close>

theorem relay_panics:
  assumes "validHexID p"
  shows "(relay_step y e = None \<longleftrightarrow> (\<exists>i. e = EvPush i \<and> d_pc (dials y i) = DOpen \<and> r_closed (regs (srv y) (d_reg (dials y i)))))
    \<and> foldl relay_run (Some relay_init)
        [EvRegister p conn True, EvDial 0 p conn', EvToken 0 (Some tok), EvRegisterEnd 0, EvPush 0] = None"
proof -
  have "relay_step y e = None \<longleftrightarrow> (\<exists>i. e = EvPush i \<and> d_pc (dials y i) = DOpen \<and> r_closed (regs (srv y) (d_reg (dials y i))))"
    by (cases e) (auto simp: dial_push_def Let_def split: if_splits)
  then show ?thesis using assms by (simp add: relay_eval handleRegister_end_def)
qed

theorem relay_panics_witness:
  "foldl relay_run (Some relay_init)
     [EvRegister sample_id 1 True, EvDial 0 sample_id 2, EvToken 0 (Some ''t''), EvRegisterEnd 0, EvPush 0] = None"
  using relay_panics [OF sample_id_valid, of undefined undefined 1 2 "''t''"] by blast

subsection \<open>The lines\<close>

lemma trim_line_id: "line = [] \<or> last line \<noteq> CHR 0x0D \<and> last line \<noteq> newline \<Longrightarrow> trim_line line = line"
  by (cases line rule: rev_cases) (auto simp: trim_line_def trim_right_def)

lemma trim_line_newline: "newline \<notin> set line \<Longrightarrow> line = [] \<or> last line \<noteq> CHR 0x0D \<Longrightarrow> trim_line (line @ [newline]) = line"
  by (cases line rule: rev_cases) (auto simp: trim_line_def trim_right_def)

lemma IndexByte_first: "c \<notin> set xs \<Longrightarrow> IndexByte (xs @ c # ys) c = Some (length xs)"
  by (induction xs) auto

lemma IndexByte_absent: "IndexByte xs c = None \<longleftrightarrow> c \<notin> set xs"
  by (induction xs) auto

lemma readLine_writeLine:
  assumes "newline \<notin> set line" and "line = [] \<or> last line \<noteq> CHR 0x0D" and "length line < MaxLineSize"
  shows "\<exists>out. writeLine line = Some out \<and> readLine eof (out @ rest) = Some (line, rest)"
  using assms IndexByte_first [OF assms(1), of rest] trim_line_newline [OF assms(1,2)]
  by (auto simp: writeLine_def readLine_def Let_def)

text \<open>
  The lines of the protocol. A line below \<open>MaxLineSize\<close> without line breaks is read back as it
  was written, and what follows it is left. A line of exactly \<open>MaxLineSize\<close> bytes is written but
  refused by the reader, which counts the line feed; and a line of any length is accepted when the
  connection ends before a line feed.
\<close>

theorem readLine_spec:
  assumes "newline \<notin> set line" and "line = [] \<or> last line \<noteq> CHR 0x0D"
  shows "(length line < MaxLineSize \<longrightarrow> (\<exists>out. writeLine line = Some out \<and> readLine eof (out @ rest) = Some (line, rest)))
    \<and> (length line = MaxLineSize \<longrightarrow> (\<exists>out. writeLine line = Some out \<and> readLine eof (out @ rest) = None))
    \<and> (length line > MaxLineSize \<longrightarrow> writeLine line = None \<and> readLine True line = Some (line, []))"
proof -
  have "readLine True line = Some (line, [])" if long: "length line > MaxLineSize"
  proof -
    have "line \<noteq> []" using long by auto
    then have "last line \<noteq> newline" using assms(1) last_in_set by metis
    moreover have "IndexByte line newline = None" using assms(1) by (simp add: IndexByte_absent)
    ultimately show ?thesis using assms(2) \<open>line \<noteq> []\<close> trim_line_id [of line] by (simp add: readLine_def)
  qed
  then show ?thesis
    using trim_line_newline [OF assms] IndexByte_first [OF assms(1), of rest]
    by (auto simp: writeLine_def readLine_def MaxLineSize_def)
qed

theorem readLine_spec_witness: "readLine True (replicate 300 (CHR ''x'')) = Some (replicate 300 (CHR ''x''), [])"
  using readLine_spec [of "replicate 300 (CHR ''x'')" True "[]"] by (simp add: MaxLineSize_def)

subsection \<open>A tunnel from end to end\<close>

lemma Fields_two:
  assumes "a \<noteq> []" "list_all (\<lambda>c. \<not> is_space c) a" "b \<noteq> []" "list_all (\<lambda>c. \<not> is_space c) b"
  shows "Fields (a @ '' '' @ b) = [a, b]"
proof -
  have sp: "is_space (CHR '' '')" by (simp add: is_space_def)
  have one: "Fields b = [b]"
  proof (cases b)
    case (Cons c cs)
    then have tk: "takeWhile (\<lambda>x. \<not> is_space x) cs = cs" "dropWhile (\<lambda>x. \<not> is_space x) cs = []"
      using assms(4) by (auto simp: takeWhile_eq_all_conv dropWhile_eq_Nil_conv list_all_iff)
    have "Fields [] = []" by (subst Fields.simps) simp
    then show ?thesis using Cons assms(4) by (subst Fields.simps) (simp add: tk)
  qed (use assms in simp)
  have skip: "Fields (CHR '' '' # b) = Fields b" by (subst (1 2) Fields.simps) (simp add: sp)
  obtain c cs where a: "a = c # cs" "\<not> is_space c" "list_all (\<lambda>c. \<not> is_space c) cs" using assms(1,2) by (cases a) auto
  have "takeWhile (\<lambda>x. \<not> is_space x) (cs @ CHR '' '' # b) = cs" "dropWhile (\<lambda>x. \<not> is_space x) (cs @ CHR '' '' # b) = CHR '' '' # b"
    using a(3) sp by (auto simp: list_all_iff takeWhile_append dropWhile_append)
  then show ?thesis using a one skip by (subst Fields.simps) simp
qed

lemma token_line:
  assumes "tok \<noteq> []" "list_all (\<lambda>c. \<not> is_space c) tok" "length tok \<le> 200"
  shows "open_token (open_line tok) = Some tok" "parse_command (CmdTunnel @ '' '' @ tok) = Tunnel tok"
  using assms Fields_two [of PushOpen tok] Fields_two [of CmdTunnel tok]
  by (simp_all add: open_token_def open_line_def PushOpen_def parse_command_def CmdTunnel_def CmdRegister_def CmdDial_def is_space_def)

lemma dial_pushed:
  assumes "fmlookup (registrations (srv y)) p = Some r" and "\<not> r_closed (regs (srv y) r)" and "length (r_out (regs (srv y) r)) < 16"
    and "d_pc (dials y i) = DIdle"
  shows "\<exists>y1. foldl relay_run (Some y) [EvDial i p conn, EvToken i (Some tok), EvPush i] = Some y1
    \<and> d_pc (dials y1 i) = DWait \<and> d_conn (dials y1 i) = conn \<and> fmlookup (pending (srv y1)) tok = Some (d_chan (dials y1 i))
    \<and> chans (srv y1) (d_chan (dials y1 i)) = [] \<and> tunnels y1 = tunnels y \<and> open_line tok \<in> set (r_out (regs (srv y1) r))"
  using assms by (simp add: relay_run_def dial_lookup_def dial_token_def dial_push_def Let_def open_line_def)

lemma dial_answered:
  assumes "d_pc (dials y i) = DWait" and "d_conn (dials y i) = conn" and "t_pc (tunnels y j) = TIdle"
    and "fmlookup (pending (srv y)) tok = Some (d_chan (dials y i))" and "chans (srv y) (d_chan (dials y i)) = []"
  shows "\<exists>y2. foldl relay_run (Some y) [EvTunnel j tok tconn, EvHand j, EvTake i True True] = Some y2
    \<and> d_pc (dials y2 i) = DPiped tconn \<and> d_conn (dials y2 i) = conn
    \<and> (conn, RespOK) \<in> set (sent (srv y2)) \<and> (tconn, RespOK) \<in> set (sent (srv y2))"
proof -
  have "writeLine RespOK = Some (RespOK @ [newline])" by (simp add: writeLine_def MaxLineSize_def RespOK_def)
  then show ?thesis using assms
    by (simp add: relay_run_def tunnel_lookup_def tunnel_hand_def dial_take_def say_def Let_def)
qed



subsection \<open>The client\<close>

text \<open>What a dialler reads of its tunnel is what the relay sent after its reply, whatever was buffered.\<close>

lemma prefix_Read_stream:
  assumes "prefix_Read p n = (bs, p')"
  shows "prefix p @ underlying p = bs @ prefix p' @ underlying p'"
  using assms by (auto simp: prefix_Read_def split: if_splits)

lemma await_ok_stream:
  assumes "await_ok eof incoming ahead = Inr p" and "readLine eof incoming = Some (resp, rest)"
  shows "prefix p @ underlying p = rest" "HasPrefix resp RespOK"
  using assms by (auto simp: await_ok_def split: if_splits)

lemma push_loop_end: "(\<forall>n. \<not> stop n) \<Longrightarrow> snd (push_loop stop eof n s) = RunError"
  by (induction stop eof n s rule: push_loop.induct) (subst push_loop.simps, auto split: option.splits prod.splits)

lemma run_pauses_error:
  "b \<le> 60 \<Longrightarrow> run_pauses b (replicate n RunError) = map (\<lambda>k. min 60 (2 ^ k * b)) [0..<n]"
proof (induction n arbitrary: b)
  case (Suc n)
  have nb: "next_backoff b RunError = min 60 (2 * b)" by (simp add: next_backoff_def)
  have one: "(60::nat) \<le> 2 ^ k * 60" for k :: nat by simp
  have "min 60 (2 ^ k * min 60 (2 * b)) = min 60 (2 ^ Suc k * b)" for k :: nat
  proof (cases "2 * b \<le> 60")
    case False
    then have "60 \<le> 2 ^ k * (2 * b)" using one [of k] mult_le_mono2 [of 60 "2 * b" "2 ^ k"] by linarith
    then show ?thesis using False one [of k] by (simp add: min_def mult.assoc)
  qed (simp add: min_def mult.assoc mult.left_commute)
  with Suc.IH [of "min 60 (2 * b)"] Suc.prems show ?case
    by (simp add: nb upt_conv_Cons map_Suc_upt [symmetric] comp_def del: upt_Suc)
qed simp

text \<open>
  The client of a relay forgets that it was ever connected. A run that is not stopped always ends
  with an error, also when the registration had succeeded and lasted for days, and only a run without
  an error resets the pause. So the pauses before reconnecting are 1, 2, 4, 8, 16, 32 seconds for the
  first six disconnections in the life of the client and a minute for all later ones.
\<close>

theorem relay_backoff:
  assumes "\<forall>n. \<not> stop n"
  shows "snd (runOnce peerID reached False write_ok deadline_ok stop eof incoming) = RunError
    \<and> run_pauses 1 (replicate n RunError) = map (\<lambda>k. min 60 (2 ^ k)) [0..<n]"
proof
  show "snd (runOnce peerID reached False write_ok deadline_ok stop eof incoming) = RunError"
    using push_loop_end [OF assms] by (auto simp: runOnce_def split: option.splits)
  show "run_pauses 1 (replicate n RunError) = map (\<lambda>k. min 60 (2 ^ k)) [0..<n]"
    using run_pauses_error [of 1 n] by simp
qed

theorem relay_backoff_witness: "run_pauses 1 (replicate 8 RunError) = [1, 2, 4, 8, 16, 32, 60, 60]"
proof -
  have "run_pauses 1 (replicate 8 RunError) = map (\<lambda>k. min 60 (2 ^ k)) [0..<8]"
    using relay_backoff [of "\<lambda>_. False" "[]" True True True True "[]" 8] by blast
  also have "\<dots> = [1, 2, 4, 8, 16, 32, 60, 60]" by code_simp
  finally show ?thesis .
qed

end
