(* ===== verification/Rate_Limits.thy ===== *)
theory Rate_Limits
  imports Complex_Main Go_Prelude
begin

text \<open>
  The two token buckets of the program: \<^verbatim>\<open>apps/gateway/ratelimit.go\<close>, which limits the requests of
  an address to the gateway, and its copy in \<^verbatim>\<open>apps/dns/ratelimit.go\<close> for queries.

  Tokens are floating-point numbers in the source. The model has rational numbers and a rounding
  function \<open>rnd\<close>, a parameter, that is applied to the result of every floating-point operation; what
  the theorems need of it is \<open>float_ok\<close>, which rounding to the nearest double satisfies as long as
  nothing overflows: it is monotonic, keeps what is representable, and errs by at most a factor
  \<open>\<epsilon>\<close> and a summand \<open>\<eta>\<close>. The clock is an argument of every operation.
\<close>

section \<open>Definitions\<close>

type_synonym rounding = "rat \<Rightarrow> rat"

definition Second :: int where
  "Second = 1000000000"

definition Minute :: int where
  "Minute = 60 * Second"

text \<open>\<^verbatim>\<open>Time.Sub\<close> saturates.\<close>

definition time_Sub :: "time \<Rightarrow> time \<Rightarrow> int" where
  "time_Sub t u = max (- (2 ^ 63)) (min (2 ^ 63 - 1) (t - u))"

definition go_quot :: "int \<Rightarrow> int \<Rightarrow> int" where
  "go_quot a b = (if a < 0 then - (- a div b) else a div b)"

definition go_rem :: "int \<Rightarrow> int \<Rightarrow> int" where
  "go_rem a b = (if a < 0 then - (- a mod b) else a mod b)"

text \<open>\<^verbatim>\<open>Duration.Seconds\<close> of the standard library.\<close>

definition Seconds :: "rounding \<Rightarrow> int \<Rightarrow> rat" where
  "Seconds rnd d = rnd (rnd (of_int (go_quot d Second)) + rnd (rnd (of_int (go_rem d Second)) / 1000000000))"

subsection \<open>The gateway\<close>

record ipBucket =
  ib_tokens :: rat
  ib_lastSeen :: time

record ipRateLimiter =
  il_rate :: rat
  il_burst :: rat
  il_buckets :: "(string, ipBucket) fmap"
  il_lastSweep :: time

definition newIPRateLimiter :: "rounding \<Rightarrow> time \<Rightarrow> int \<Rightarrow> int \<Rightarrow> ipRateLimiter" where
  "newIPRateLimiter rnd now rate burst =
     \<lparr>il_rate = rnd (of_int rate), il_burst = rnd (of_int burst), il_buckets = fmempty, il_lastSweep = now\<rparr>"

definition ip_gc :: "time \<Rightarrow> ipRateLimiter \<Rightarrow> ipRateLimiter" where
  "ip_gc now l = l\<lparr>il_buckets := fmfilter
     (\<lambda>ip. case fmlookup (il_buckets l) ip of None \<Rightarrow> True | Some b \<Rightarrow> \<not> time_Sub now (ib_lastSeen b) > 5 * Minute) (il_buckets l)\<rparr>"

definition ip_allow :: "rounding \<Rightarrow> time \<Rightarrow> ipRateLimiter \<Rightarrow> string \<Rightarrow> ipRateLimiter \<times> bool" where
  "ip_allow rnd now l ip =
     (let l1 = (if time_Sub now (il_lastSweep l) > 30 * Second then (ip_gc now l)\<lparr>il_lastSweep := now\<rparr> else l);
          b = (case fmlookup (il_buckets l1) ip of Some b \<Rightarrow> b | None \<Rightarrow> \<lparr>ib_tokens = il_burst l1, ib_lastSeen = now\<rparr>);
          elapsed = Seconds rnd (time_Sub now (ib_lastSeen b));
          tokens = rnd (ib_tokens b + rnd (elapsed * il_rate l1));
          tokens = (if tokens > il_burst l1 then il_burst l1 else tokens);
          ok = (tokens \<ge> 1);
          tokens = (if ok then rnd (tokens - 1) else tokens)
      in (l1\<lparr>il_buckets := fmupd ip \<lparr>ib_tokens = tokens, ib_lastSeen = now\<rparr> (il_buckets l1)\<rparr>, ok))"

subsection \<open>The resolver\<close>

record udpBucket =
  ub_tokens :: rat
  ub_lastSeen :: time

record udpRateLimiter =
  ul_rate :: rat
  ul_burst :: rat
  ul_buckets :: "(string, udpBucket) fmap"
  ul_lastSweep :: time

definition newUDPRateLimiter :: "rounding \<Rightarrow> time \<Rightarrow> int \<Rightarrow> int \<Rightarrow> udpRateLimiter" where
  "newUDPRateLimiter rnd now qps burst =
     \<lparr>ul_rate = rnd (of_int qps), ul_burst = rnd (of_int burst), ul_buckets = fmempty, ul_lastSweep = now\<rparr>"

definition udp_allow :: "rounding \<Rightarrow> time \<Rightarrow> udpRateLimiter \<Rightarrow> string \<Rightarrow> udpRateLimiter \<times> bool" where
  "udp_allow rnd now l ip =
     (let l1 = (if time_Sub now (ul_lastSweep l) > 30 * Second
                then l\<lparr>ul_buckets := fmfilter
                         (\<lambda>k. case fmlookup (ul_buckets l) k of
                                None \<Rightarrow> True | Some b \<Rightarrow> \<not> time_Sub now (ub_lastSeen b) > 5 * Minute) (ul_buckets l),
                       ul_lastSweep := now\<rparr>
                else l);
          b = (case fmlookup (ul_buckets l1) ip of Some b \<Rightarrow> b | None \<Rightarrow> \<lparr>ub_tokens = ul_burst l1, ub_lastSeen = now\<rparr>);
          elapsed = Seconds rnd (time_Sub now (ub_lastSeen b));
          tokens = rnd (ub_tokens b + rnd (elapsed * ul_rate l1));
          tokens = (if tokens > ul_burst l1 then ul_burst l1 else tokens);
          ok = (tokens \<ge> 1);
          tokens = (if ok then rnd (tokens - 1) else tokens)
      in (l1\<lparr>ul_buckets := fmupd ip \<lparr>ub_tokens = tokens, ub_lastSeen = now\<rparr> (ul_buckets l1)\<rparr>, ok))"

text \<open>A sequence of calls, each with its address and its time: the answers.\<close>

fun ip_run :: "rounding \<Rightarrow> ipRateLimiter \<Rightarrow> (string \<times> time) list \<Rightarrow> ipRateLimiter \<times> bool list" where
  "ip_run rnd l [] = (l, [])"
| "ip_run rnd l ((ip, now) # cs) =
     (case ip_allow rnd now l ip of (l1, ok) \<Rightarrow> (case ip_run rnd l1 cs of (l2, oks) \<Rightarrow> (l2, ok # oks)))"

fun udp_run :: "rounding \<Rightarrow> udpRateLimiter \<Rightarrow> (string \<times> time) list \<Rightarrow> udpRateLimiter \<times> bool list" where
  "udp_run rnd l [] = (l, [])"
| "udp_run rnd l ((ip, now) # cs) =
     (case udp_allow rnd now l ip of (l1, ok) \<Rightarrow> (case udp_run rnd l1 cs of (l2, oks) \<Rightarrow> (l2, ok # oks)))"

section \<open>Rounding\<close>

definition float_ok :: "rounding \<Rightarrow> rat \<Rightarrow> rat \<Rightarrow> bool" where
  "float_ok rnd \<epsilon> \<eta> \<longleftrightarrow> mono rnd \<and> rnd 0 = 0 \<and> (\<forall>x. rnd (rnd x) = rnd x) \<and> 0 \<le> \<epsilon> \<and> 0 \<le> \<eta>
     \<and> (\<forall>x\<ge>0. rnd x \<le> (1 + \<epsilon>) * x + \<eta>)"

lemma float_okD:
  assumes "float_ok rnd \<epsilon> \<eta>"
  shows "0 \<le> \<epsilon>" "0 \<le> \<eta>" "0 \<le> x \<Longrightarrow> 0 \<le> rnd x" "0 \<le> x \<Longrightarrow> rnd x \<le> (1 + \<epsilon>) * x + \<eta>" "x \<le> rnd y \<Longrightarrow> rnd x \<le> rnd y"
proof -
  show "0 \<le> \<epsilon>" "0 \<le> \<eta>" "0 \<le> x \<Longrightarrow> rnd x \<le> (1 + \<epsilon>) * x + \<eta>" using assms by (auto simp: float_ok_def)
  show "0 \<le> x \<Longrightarrow> 0 \<le> rnd x" using assms monoD [of rnd 0 x] by (simp add: float_ok_def)
  show "x \<le> rnd y \<Longrightarrow> rnd x \<le> rnd y" using assms monoD [of rnd x "rnd y"] by (simp add: float_ok_def)
qed

lemma float_exact [simp]: "float_ok (\<lambda>x. x) 0 0"
  by (simp add: float_ok_def mono_def)

lemma Seconds_bound:
  assumes "float_ok rnd \<epsilon> \<eta>" and "0 \<le> d"
  shows "0 \<le> Seconds rnd d" "Seconds rnd d \<le> (1 + \<epsilon>) ^ 3 * (of_int d / 1000000000) + 4 * (1 + \<epsilon>) ^ 3 * \<eta>"
proof -
  note F = float_okD [OF assms(1)]
  define c s n :: rat where "c = 1 + \<epsilon>" and "s = of_int (d div Second)" and "n = of_int (d mod Second)"
  have c: "1 \<le> c" using F(1) by (simp add: c_def)
  have pos: "0 \<le> s" "0 \<le> n" using assms(2) by (simp_all add: s_def n_def Second_def pos_imp_zdiv_nonneg_iff)
  have "(of_int d :: rat) = of_int ((d div Second) * Second + d mod Second)" by (simp only: div_mult_mod_eq)
  also have "\<dots> = s * of_int Second + n" unfolding s_def n_def by (simp only: of_int_add of_int_mult)
  finally have d: "of_int d = s * 1000000000 + n" by (simp add: Second_def)
  let ?b = "rnd n / 1000000000"
  have eq: "Seconds rnd d = rnd (rnd s + rnd ?b)" using assms(2) by (simp add: Seconds_def go_quot_def go_rem_def s_def n_def)
  have b0: "0 \<le> rnd s" "0 \<le> rnd n" "0 \<le> rnd ?b" using F(3) pos by simp_all
  then show "0 \<le> Seconds rnd d" using F(3) eq by simp
  have "rnd s \<le> c * s + \<eta>" "rnd n \<le> c * n + \<eta>" "rnd ?b \<le> c * ?b + \<eta>" using F(4) [of s] F(4) [of n] F(4) [of ?b] pos b0
    by (simp_all add: c_def)
  moreover from this(2) c have "c * ?b \<le> c * ((c * n + \<eta>) / 1000000000)" by (intro mult_left_mono) (simp_all add: divide_right_mono)
  ultimately have "rnd s + rnd ?b \<le> c * s + c * c * (n / 1000000000) + (c / 1000000000 + 2) * \<eta>" by (simp add: field_simps)
  then have "c * (rnd s + rnd ?b) + \<eta> \<le> c * (c * s + c * c * (n / 1000000000) + (c / 1000000000 + 2) * \<eta>) + \<eta>"
    using c by (intro add_right_mono mult_left_mono) auto
  moreover have "Seconds rnd d \<le> c * (rnd s + rnd ?b) + \<eta>" using F(4) [of "rnd s + rnd ?b"] b0 eq by (simp add: c_def)
  moreover have "c * (c * s) \<le> c ^ 3 * s"
  proof -
    have "c * c * 1 \<le> c * c * c" using c by (intro mult_left_mono) auto
    then have "c * c * s \<le> c ^ 3 * s" using pos by (intro mult_right_mono) (simp_all add: power3_eq_cube)
    then show ?thesis by (simp add: mult.assoc)
  qed
  moreover have "c * ((c / 1000000000 + 2) * \<eta>) + \<eta> \<le> 4 * c ^ 3 * \<eta>"
  proof -
    have p: "1 \<le> c ^ 3" "c \<le> c ^ 3" "c * c \<le> c ^ 3"
      using c self_le_power [of c 3] power_increasing [of 2 3 c] by (simp_all add: power2_eq_square one_le_power)
    have "c * (c / 1000000000 + 2) + 1 = c * c / 1000000000 + 2 * c + 1" by (simp add: field_simps)
    also have "\<dots> \<le> c ^ 3 + 2 * c ^ 3 + c ^ 3"
      using p c by (intro add_mono) (auto simp: field_simps intro: order_trans [of "c * c" "c ^ 3"])
    finally have "(c * (c / 1000000000 + 2) + 1) * \<eta> \<le> (4 * c ^ 3) * \<eta>" using F(2) by (intro mult_right_mono) auto
    then show ?thesis by (simp add: field_simps)
  qed
  ultimately show "Seconds rnd d \<le> (1 + \<epsilon>) ^ 3 * (of_int d / 1000000000) + 4 * (1 + \<epsilon>) ^ 3 * \<eta>"
    by (simp add: d c_def [symmetric] field_simps power3_eq_cube)
qed

section \<open>How much an address may do\<close>

text \<open>
  One call. \<open>D\<close> is what rounding may add for each call, \<open>K\<close> the rate for a nanosecond with its
  rounding.
\<close>

definition call_error :: "rat \<Rightarrow> rat \<Rightarrow> rat \<Rightarrow> rat \<Rightarrow> rat" where
  "call_error \<epsilon> \<eta> rate burst = 2 * \<epsilon> * burst + \<eta> * (4 * (1 + \<epsilon>) ^ 5 * rate + (1 + \<epsilon>) + 2)"

definition ns_rate :: "rat \<Rightarrow> rat \<Rightarrow> rat" where
  "ns_rate \<epsilon> rate = (1 + \<epsilon>) ^ 5 * rate / 1000000000"

lemma ns_rate_nonneg: "0 \<le> \<epsilon> \<Longrightarrow> 0 \<le> rate \<Longrightarrow> 0 \<le> ns_rate \<epsilon> rate"
  by (simp add: ns_rate_def)

lemma refill_bound:
  assumes "float_ok rnd \<epsilon> \<eta>" and "0 \<le> d" and "0 \<le> rate" and "0 \<le> tokens" "tokens \<le> burst"
  shows "0 \<le> rnd (tokens + rnd (Seconds rnd d * rate))"
    "rnd (tokens + rnd (Seconds rnd d * rate)) \<le> tokens + ns_rate \<epsilon> rate * of_int d
       + (call_error \<epsilon> \<eta> rate burst - \<epsilon> * burst - \<eta>)"
proof -
  note F = float_okD [OF assms(1)] and S = Seconds_bound [OF assms(1,2)]
  define c where "c = 1 + \<epsilon>"
  have c: "1 \<le> c" using F(1) by (simp add: c_def)
  let ?S = "Seconds rnd d" and ?e = "of_int d / 1000000000 :: rat"
  let ?P = "rnd (?S * rate)"
  have P0: "0 \<le> ?P" using F(3) S(1) assms(3) by simp
  then show "0 \<le> rnd (tokens + ?P)" using F(3) assms(4) by simp
  have "?P \<le> c * (?S * rate) + \<eta>" using F(4) [of "?S * rate"] S(1) assms(3) by (simp add: c_def)
  also have "c * (?S * rate) \<le> c * ((c ^ 3 * ?e + 4 * c ^ 3 * \<eta>) * rate)"
    using S(2) c assms(3) by (intro mult_left_mono mult_right_mono) (auto simp: c_def)
  finally have "?P \<le> c ^ 4 * rate * ?e + 4 * c ^ 4 * rate * \<eta> + \<eta>" by (simp add: field_simps power_numeral_reduce)
  then have "c * ?P \<le> c * (c ^ 4 * rate * ?e + 4 * c ^ 4 * rate * \<eta> + \<eta>)" using c by (intro mult_left_mono) auto
  moreover have "rnd (tokens + ?P) \<le> c * (tokens + ?P) + \<eta>" using F(4) [of "tokens + ?P"] P0 assms(4) by (simp add: c_def)
  moreover have "c * tokens \<le> tokens + \<epsilon> * burst" using F(1) assms(5) by (simp add: c_def algebra_simps mult_left_mono)
  moreover have "c * (c ^ 4 * rate * ?e + 4 * c ^ 4 * rate * \<eta> + \<eta>) = c ^ 5 * rate * ?e + 4 * c ^ 5 * rate * \<eta> + c * \<eta>"
    by (simp add: field_simps power_numeral_reduce)
  moreover have "c * (tokens + ?P) = c * tokens + c * ?P" by (simp add: algebra_simps)
  ultimately have "rnd (tokens + ?P) \<le> tokens + c ^ 5 * rate * ?e + (\<epsilon> * burst + 4 * c ^ 5 * rate * \<eta> + c * \<eta> + \<eta>)"
    by linarith
  moreover have "call_error \<epsilon> \<eta> rate burst - \<epsilon> * burst - \<eta> = \<epsilon> * burst + 4 * c ^ 5 * rate * \<eta> + c * \<eta> + \<eta>"
    by (simp add: call_error_def c_def [symmetric] algebra_simps)
  moreover have "ns_rate \<epsilon> rate * of_int d = c ^ 5 * rate * ?e" by (simp add: ns_rate_def c_def)
  ultimately show "rnd (tokens + rnd (Seconds rnd d * rate)) \<le> tokens + ns_rate \<epsilon> rate * of_int d
       + (call_error \<epsilon> \<eta> rate burst - \<epsilon> * burst - \<eta>)" by linarith
qed

lemma take_bound:
  assumes "float_ok rnd \<epsilon> \<eta>" and "1 \<le> tokens" "tokens \<le> burst" and "burst = rnd x"
  shows "0 \<le> rnd (tokens - 1)" "rnd (tokens - 1) \<le> burst" "rnd (tokens - 1) + 1 \<le> tokens + \<epsilon> * burst + \<eta>"
proof -
  note F = float_okD [OF assms(1)]
  show "0 \<le> rnd (tokens - 1)" "rnd (tokens - 1) \<le> burst" using F(3) [of "tokens - 1"] F(5) [of "tokens - 1" x] assms(2-4) by simp_all
  have "rnd (tokens - 1) \<le> (1 + \<epsilon>) * (tokens - 1) + \<eta>" using F(4) assms(2) by simp
  moreover have "\<epsilon> * (tokens - 1) \<le> \<epsilon> * burst" using F(1) assms(3) by (intro mult_left_mono) auto
  ultimately show "rnd (tokens - 1) + 1 \<le> tokens + \<epsilon> * burst + \<eta>" by (simp add: algebra_simps)
qed

definition limiter_inv :: "rounding \<Rightarrow> time \<Rightarrow> ipRateLimiter \<Rightarrow> bool" where
  "limiter_inv rnd now l \<longleftrightarrow> 0 \<le> il_rate l \<and> (\<exists>x\<ge>0. il_burst l = rnd x)
     \<and> (\<forall>ip b. fmlookup (il_buckets l) ip = Some b \<longrightarrow> 0 \<le> ib_tokens b \<and> ib_tokens b \<le> il_burst l \<and> ib_lastSeen b \<le> now)"

lemma time_Sub_le: "u \<le> t \<Longrightarrow> 0 \<le> time_Sub t u \<and> time_Sub t u \<le> t - u"
  by (auto simp: time_Sub_def)

text \<open>A bucket that is dropped has earned what a new one is given.\<close>

lemma swept_credit:
  assumes "0 \<le> rate" and "0 \<le> \<epsilon>" and "5 * Minute < d"
  shows "300 * rate \<le> ns_rate \<epsilon> rate * of_int d"
proof -
  have "1 * rate \<le> (1 + \<epsilon>) ^ 5 * rate" using assms by (intro mult_right_mono) (auto intro: one_le_power)
  then have r: "rate / 1000000000 \<le> ns_rate \<epsilon> rate" by (simp add: ns_rate_def divide_right_mono)
  have "(300000000000 :: rat) = of_int (5 * Minute)" by (simp add: Minute_def Second_def)
  also have "\<dots> \<le> of_int d" using assms(3) by (simp only: of_int_le_iff)
  finally have d: "(300000000000 :: rat) \<le> of_int d" .
  have "300 * rate = rate / 1000000000 * 300000000000" by simp
  also have "\<dots> \<le> ns_rate \<epsilon> rate * of_int d" using r d assms(1,2) by (intro mult_mono) (auto simp: ns_rate_def)
  finally show ?thesis .
qed

lemma ip_allow_call:
  assumes F: "float_ok rnd \<epsilon> \<eta>" and inv: "limiter_inv rnd now0 l" and "now0 \<le> now"
    and a: "ip_allow rnd now l ip = (l', ok)"
  shows "limiter_inv rnd now l'" "il_rate l' = il_rate l" "il_burst l' = il_burst l"
    "\<exists>b. fmlookup (il_buckets l') ip = Some b \<and> ib_lastSeen b = now
       \<and> of_bool ok + ib_tokens b \<le> il_burst l + call_error \<epsilon> \<eta> (il_rate l) (il_burst l)
       \<and> (\<forall>b0. fmlookup (il_buckets l) ip = Some b0 \<longrightarrow> il_burst l \<le> 300 * il_rate l \<longrightarrow>
            of_bool ok + ib_tokens b \<le> ib_tokens b0 + ns_rate \<epsilon> (il_rate l) * of_int (now - ib_lastSeen b0)
              + call_error \<epsilon> \<eta> (il_rate l) (il_burst l))"
    "j \<noteq> ip \<Longrightarrow> fmlookup (il_buckets l') j = fmlookup (il_buckets l) j
       \<or> fmlookup (il_buckets l') j = None \<and> (\<exists>b0. fmlookup (il_buckets l) j = Some b0 \<and> 5 * Minute < now - ib_lastSeen b0)"
proof -
  define l1 where "l1 = (if time_Sub now (il_lastSweep l) > 30 * Second then (ip_gc now l)\<lparr>il_lastSweep := now\<rparr> else l)"
  define b1 where "b1 = (case fmlookup (il_buckets l1) ip of Some b \<Rightarrow> b | None \<Rightarrow> \<lparr>ib_tokens = il_burst l, ib_lastSeen = now\<rparr>)"
  define t1 where "t1 = rnd (ib_tokens b1 + rnd (Seconds rnd (time_Sub now (ib_lastSeen b1)) * il_rate l))"
  define t2 where "t2 = (if t1 > il_burst l then il_burst l else t1)"
  define t3 where "t3 = (if t2 \<ge> 1 then rnd (t2 - 1) else t2)"
  have l1: "il_rate l1 = il_rate l" "il_burst l1 = il_burst l" by (simp_all add: l1_def ip_gc_def)
  have a': "l' = l1\<lparr>il_buckets := fmupd ip \<lparr>ib_tokens = t3, ib_lastSeen = now\<rparr> (il_buckets l1)\<rparr>" "ok = (t2 \<ge> 1)"
    using a unfolding ip_allow_def Let_def l1_def [symmetric] l1
    unfolding b1_def [symmetric] unfolding t1_def [symmetric] unfolding t2_def [symmetric] unfolding t3_def [symmetric]
    by auto
  have swept: "fmlookup (il_buckets l1) j = fmlookup (il_buckets l) j
      \<or> fmlookup (il_buckets l1) j = None \<and> (\<exists>b0. fmlookup (il_buckets l) j = Some b0 \<and> 5 * Minute < time_Sub now (ib_lastSeen b0))" for j
    by (auto simp: l1_def ip_gc_def split: option.splits)
  have old: "0 \<le> ib_tokens b" "ib_tokens b \<le> il_burst l" "ib_lastSeen b \<le> now" if "fmlookup (il_buckets l) j = Some b" for j b
    using inv that \<open>now0 \<le> now\<close> by (fastforce simp: limiter_inv_def)+
  have gone: "5 * Minute < now - ib_lastSeen b" if "fmlookup (il_buckets l) j = Some b" "5 * Minute < time_Sub now (ib_lastSeen b)" for j b
    using time_Sub_le [OF old(3) [OF that(1)]] that(2) by simp
  show "j \<noteq> ip \<Longrightarrow> fmlookup (il_buckets l') j = fmlookup (il_buckets l) j
       \<or> fmlookup (il_buckets l') j = None \<and> (\<exists>b0. fmlookup (il_buckets l) j = Some b0 \<and> 5 * Minute < now - ib_lastSeen b0)"
    using swept [of j] gone by (auto simp: a')
  have rate: "0 \<le> il_rate l" using inv by (simp add: limiter_inv_def)
  obtain x where x: "0 \<le> x" "il_burst l = rnd x" using inv by (auto simp: limiter_inv_def)
  then have burst: "0 \<le> il_burst l" using float_okD(3) [OF F] by simp
  have b1: "0 \<le> ib_tokens b1" "ib_tokens b1 \<le> il_burst l" "ib_lastSeen b1 \<le> now"
    using swept [of ip] old [of ip] burst by (auto simp: b1_def l1 split: option.splits)
  note d = time_Sub_le [OF b1(3)]
  note R = refill_bound [OF F conjunct1 [OF d] rate b1(1,2), folded t1_def]
  have t2: "0 \<le> t2" "t2 \<le> il_burst l" "t2 \<le> t1" using R(1) burst by (auto simp: t2_def)
  have fl: "0 \<le> \<epsilon>" "0 \<le> \<eta>" using float_okD(1,2) [OF F] .
  have t3: "0 \<le> t3" "t3 \<le> il_burst l" "of_bool ok + t3 \<le> t2 + \<epsilon> * il_burst l + \<eta>"
    using take_bound [OF F _ t2(2) x(2)] t2 fl burst by (auto simp: t3_def a')
  have K: "0 \<le> ns_rate \<epsilon> (il_rate l)" using rate fl by (simp add: ns_rate_def)
  have spent: "of_bool ok + t3 \<le> ib_tokens b1 + ns_rate \<epsilon> (il_rate l) * of_int (now - ib_lastSeen b1) + call_error \<epsilon> \<eta> (il_rate l) (il_burst l)"
  proof -
    have "ns_rate \<epsilon> (il_rate l) * of_int (time_Sub now (ib_lastSeen b1)) \<le> ns_rate \<epsilon> (il_rate l) * of_int (now - ib_lastSeen b1)"
      using d K by (intro mult_left_mono) auto
    with R(2) t2(3) t3(3) show ?thesis by linarith
  qed
  have capped: "of_bool ok + t3 \<le> il_burst l + call_error \<epsilon> \<eta> (il_rate l) (il_burst l)"
  proof -
    have "\<epsilon> * il_burst l + \<eta> \<le> call_error \<epsilon> \<eta> (il_rate l) (il_burst l)"
      using fl burst rate by (simp add: call_error_def algebra_simps)
    with t2(2) t3(3) show ?thesis by linarith
  qed
  have kept: "of_bool ok + t3 \<le> ib_tokens b0 + ns_rate \<epsilon> (il_rate l) * of_int (now - ib_lastSeen b0) + call_error \<epsilon> \<eta> (il_rate l) (il_burst l)"
    if b0: "fmlookup (il_buckets l) ip = Some b0" and "il_burst l \<le> 300 * il_rate l" for b0
  proof (cases "fmlookup (il_buckets l1) ip")
    case None
    with swept [of ip] gone b0 have m: "5 * Minute < now - ib_lastSeen b0" by auto
    have "300 * il_rate l \<le> ns_rate \<epsilon> (il_rate l) * of_int (now - ib_lastSeen b0)" by (rule swept_credit [OF rate fl(1) m])
    then show ?thesis using that(2) capped old(1) [OF b0] by linarith
  next
    case (Some b)
    with swept [of ip] b0 have "b1 = b0" by (auto simp: b1_def)
    with spent show ?thesis by simp
  qed
  show "\<exists>b. fmlookup (il_buckets l') ip = Some b \<and> ib_lastSeen b = now
       \<and> of_bool ok + ib_tokens b \<le> il_burst l + call_error \<epsilon> \<eta> (il_rate l) (il_burst l)
       \<and> (\<forall>b0. fmlookup (il_buckets l) ip = Some b0 \<longrightarrow> il_burst l \<le> 300 * il_rate l \<longrightarrow>
            of_bool ok + ib_tokens b \<le> ib_tokens b0 + ns_rate \<epsilon> (il_rate l) * of_int (now - ib_lastSeen b0)
              + call_error \<epsilon> \<eta> (il_rate l) (il_burst l))"
    using capped kept by (simp add: a')
  show "il_rate l' = il_rate l" "il_burst l' = il_burst l" by (simp_all add: a' l1)
  have "0 \<le> ib_tokens b \<and> ib_tokens b \<le> il_burst l \<and> ib_lastSeen b \<le> now" if "fmlookup (il_buckets l') j = Some b" for j b
    using that swept [of j] old [of j] t3 by (auto simp: a' split: if_splits)
  then show "limiter_inv rnd now l'" using rate x by (auto simp: limiter_inv_def a' l1)
qed

definition admitted :: "string \<Rightarrow> (string \<times> time) list \<Rightarrow> bool list \<Rightarrow> nat" where
  "admitted ip cs oks = length (filter (\<lambda>(c, ok). fst c = ip \<and> ok) (zip cs oks))"

definition calls_of :: "string \<Rightarrow> (string \<times> time) list \<Rightarrow> nat" where
  "calls_of ip cs = length (filter (\<lambda>c. fst c = ip) cs)"

text \<open>Calls between two times, in order.\<close>

fun in_order :: "time \<Rightarrow> time \<Rightarrow> (string \<times> time) list \<Rightarrow> bool" where
  "in_order t T [] \<longleftrightarrow> t \<le> T"
| "in_order t T ((ip, now) # cs) \<longleftrightarrow> t \<le> now \<and> in_order now T cs"

lemma in_order_le: "in_order t T cs \<Longrightarrow> t \<le> T"
  by (induction t T cs rule: in_order.induct) auto

lemma admitted_Cons [simp]:
  "admitted ip ((j, now) # cs) (ok # oks) = of_bool (j = ip \<and> ok) + admitted ip cs oks"
  by (auto simp: admitted_def)

lemma calls_of_Cons [simp]: "calls_of ip ((j, now) # cs) = of_bool (j = ip) + calls_of ip cs"
  by (simp add: calls_of_def)

lemma admitted_credit:
  assumes F: "float_ok rnd \<epsilon> \<eta>"
  shows "limiter_inv rnd t l \<Longrightarrow> in_order t T cs \<Longrightarrow> il_burst l \<le> 300 * il_rate l \<Longrightarrow> ip_run rnd l cs = (l', oks) \<Longrightarrow>
    (\<forall>b. fmlookup (il_buckets l) ip = Some b \<longrightarrow>
       of_nat (admitted ip cs oks) \<le> ib_tokens b + ns_rate \<epsilon> (il_rate l) * of_int (T - ib_lastSeen b)
         + of_nat (calls_of ip cs) * call_error \<epsilon> \<eta> (il_rate l) (il_burst l))
    \<and> of_nat (admitted ip cs oks) \<le> il_burst l + ns_rate \<epsilon> (il_rate l) * of_int (T - t)
        + of_nat (calls_of ip cs) * call_error \<epsilon> \<eta> (il_rate l) (il_burst l)"
proof (induction cs arbitrary: t l l' oks)
  case Nil
  let ?K = "ns_rate \<epsilon> (il_rate l)"
  have "t \<le> T" using Nil(2) by simp
  moreover have "0 \<le> il_burst l" using Nil(1) float_okD(3) [OF F] by (auto simp: limiter_inv_def)
  moreover have "0 \<le> ?K" using Nil(1) float_okD(1) [OF F] by (intro ns_rate_nonneg) (auto simp: limiter_inv_def)
  ultimately have t: "t \<le> T" "0 \<le> il_burst l" "0 \<le> ?K" .
  have "0 \<le> ib_tokens b + ?K * of_int (T - ib_lastSeen b)" if "fmlookup (il_buckets l) ip = Some b" for b
  proof -
    have "ib_lastSeen b \<le> t" "0 \<le> ib_tokens b" using Nil(1) that by (auto simp: limiter_inv_def)
    with t have "0 \<le> ?K * of_int (T - ib_lastSeen b)" by (intro mult_nonneg_nonneg) auto
    with \<open>0 \<le> ib_tokens b\<close> show ?thesis by linarith
  qed
  moreover have "0 \<le> ?K * of_int (T - t)" using t by (intro mult_nonneg_nonneg) auto
  ultimately show ?case using Nil(4) t by (simp add: admitted_def calls_of_def)
next
  case (Cons c cs)
  obtain j now where c: "c = (j, now)" by fastforce
  let ?K = "ns_rate \<epsilon> (il_rate l)" and ?D = "call_error \<epsilon> \<eta> (il_rate l) (il_burst l)"
  let ?n = "of_nat (calls_of ip cs) * ?D"
  obtain l1 ok where a: "ip_allow rnd now l j = (l1, ok)" by fastforce
  obtain l2 oks1 where r: "ip_run rnd l1 cs = (l2, oks1)" by fastforce
  have oks: "oks = ok # oks1" using Cons.prems(4) c a r by simp
  have t: "t \<le> now" "in_order now T cs" using Cons.prems(2) c by auto
  note A = ip_allow_call [OF F Cons.prems(1) t(1) a]
  have IH: "\<forall>b. fmlookup (il_buckets l1) ip = Some b \<longrightarrow> of_nat (admitted ip cs oks1) \<le> ib_tokens b + ?K * of_int (T - ib_lastSeen b) + ?n"
    "of_nat (admitted ip cs oks1) \<le> il_burst l + ?K * of_int (T - now) + ?n"
    using Cons.IH [OF A(1) t(2) _ r] Cons.prems(3) unfolding A(2,3) by blast+
  have K: "0 \<le> ?K" using Cons.prems(1) float_okD(1) [OF F] by (intro ns_rate_nonneg) (auto simp: limiter_inv_def)
  have later: "?K * of_int (T - now) \<le> ?K * of_int (T - t)" using t(1) K by (intro mult_left_mono) auto
  have split: "?K * of_int (T - u) = ?K * of_int (now - u) + ?K * of_int (T - now)" for u by (simp add: algebra_simps)
  show ?case
  proof (cases "j = ip")
    case True
    from A(4) True obtain b1 where b1: "fmlookup (il_buckets l1) ip = Some b1" "ib_lastSeen b1 = now"
      "of_bool ok + ib_tokens b1 \<le> il_burst l + ?D"
      "\<forall>b0. fmlookup (il_buckets l) ip = Some b0 \<longrightarrow> of_bool ok + ib_tokens b1 \<le> ib_tokens b0 + ?K * of_int (now - ib_lastSeen b0) + ?D"
      using Cons.prems(3) by auto
    have count: "of_nat (admitted ip (c # cs) oks) = of_bool ok + (of_nat (admitted ip cs oks1) :: rat)"
      "of_nat (calls_of ip (c # cs)) * ?D = ?D + ?n" using True c oks by (simp_all add: algebra_simps)
    have I: "of_nat (admitted ip cs oks1) \<le> ib_tokens b1 + ?K * of_int (T - now) + ?n" using IH(1) b1(1,2) by auto
    show ?thesis unfolding count
    proof (intro conjI allI impI)
      fix b0 assume "fmlookup (il_buckets l) ip = Some b0"
      with b1(4) have "of_bool ok + ib_tokens b1 \<le> ib_tokens b0 + ?K * of_int (now - ib_lastSeen b0) + ?D" by blast
      with I split [of "ib_lastSeen b0"]
      show "of_bool ok + of_nat (admitted ip cs oks1) \<le> ib_tokens b0 + ?K * of_int (T - ib_lastSeen b0) + (?D + ?n)" by linarith
    qed (use I b1(3) later in linarith)
  next
    case False
    have count: "of_nat (admitted ip (c # cs) oks) = (of_nat (admitted ip cs oks1) :: rat)" "calls_of ip (c # cs) = calls_of ip cs"
      using False c oks by simp_all
    show ?thesis unfolding count
    proof (intro conjI allI impI)
      fix b assume b: "fmlookup (il_buckets l) ip = Some b"
      with A(5) [of ip] False consider "fmlookup (il_buckets l1) ip = Some b" | "5 * Minute < now - ib_lastSeen b" by auto
      then show "of_nat (admitted ip cs oks1) \<le> ib_tokens b + ?K * of_int (T - ib_lastSeen b) + ?n"
      proof cases
        case 2
        have "300 * il_rate l \<le> ?K * of_int (now - ib_lastSeen b)"
          using Cons.prems(1) float_okD(1) [OF F] 2 by (intro swept_credit) (auto simp: limiter_inv_def)
        moreover have "0 \<le> ib_tokens b" using Cons.prems(1) b by (auto simp: limiter_inv_def)
        ultimately show ?thesis using IH(2) split [of "ib_lastSeen b"] Cons.prems(3) by linarith
      qed (use IH(1) in blast)
    qed (use IH(2) later in linarith)
  qed
qed

lemma ip_run_inv:
  assumes "float_ok rnd \<epsilon> \<eta>"
  shows "limiter_inv rnd t l \<Longrightarrow> in_order t T cs \<Longrightarrow> ip_run rnd l cs = (l', oks) \<Longrightarrow>
    limiter_inv rnd T l' \<and> il_rate l' = il_rate l \<and> il_burst l' = il_burst l"
proof (induction cs arbitrary: t l l' oks)
  case Nil
  then show ?case by (fastforce simp: limiter_inv_def)
next
  case (Cons c cs)
  obtain j now where c: "c = (j, now)" by fastforce
  obtain l1 ok where a: "ip_allow rnd now l j = (l1, ok)" by fastforce
  obtain l2 oks1 where r: "ip_run rnd l1 cs = (l2, oks1)" by fastforce
  have t: "t \<le> now" "in_order now T cs" using Cons.prems(2) c by auto
  note A = ip_allow_call [OF assms Cons.prems(1) t(1) a]
  from Cons.IH [OF A(1) t(2) r] A(2,3) Cons.prems(3) c a r show ?case by auto
qed

lemma limiter_inv_new:
  assumes "float_ok rnd \<epsilon> \<eta>" and "0 \<le> rate" and "0 \<le> burst"
  shows "limiter_inv rnd now (newIPRateLimiter rnd now rate burst)"
  using assms float_okD(3) [OF assms(1)] by (auto simp: limiter_inv_def newIPRateLimiter_def intro: exI [of _ "of_int burst"])

text \<open>The copy in the resolver.\<close>

definition as_ip :: "udpRateLimiter \<Rightarrow> ipRateLimiter" where
  "as_ip l = \<lparr>il_rate = ul_rate l, il_burst = ul_burst l,
     il_buckets = fmmap (\<lambda>b. \<lparr>ib_tokens = ub_tokens b, ib_lastSeen = ub_lastSeen b\<rparr>) (ul_buckets l), il_lastSweep = ul_lastSweep l\<rparr>"

lemma fmmap_fmupd: "fmmap f (fmupd k v m) = fmupd k (f v) (fmmap f m)"
  by (rule fmap_ext) auto

lemma as_ip_simps [simp]:
  "il_rate (as_ip l) = ul_rate l" "il_burst (as_ip l) = ul_burst l" "il_lastSweep (as_ip l) = ul_lastSweep l"
  "fmlookup (il_buckets (as_ip l)) ip = map_option (\<lambda>b. \<lparr>ib_tokens = ub_tokens b, ib_lastSeen = ub_lastSeen b\<rparr>) (fmlookup (ul_buckets l) ip)"
  by (simp_all add: as_ip_def)

lemma as_ip_upd: "(as_ip l)\<lparr>il_buckets := fmupd ip \<lparr>ib_tokens = t, ib_lastSeen = now\<rparr> (il_buckets (as_ip l))\<rparr>
    = as_ip (l\<lparr>ul_buckets := fmupd ip \<lparr>ub_tokens = t, ub_lastSeen = now\<rparr> (ul_buckets l)\<rparr>)"
  by (simp add: as_ip_def fmmap_fmupd)

lemma udp_allow_ip: "ip_allow rnd now (as_ip l) ip = map_prod as_ip (\<lambda>ok. ok) (udp_allow rnd now l ip)"
proof -
  define u where "u = (if time_Sub now (ul_lastSweep l) > 30 * Second
      then l\<lparr>ul_buckets := fmfilter
               (\<lambda>k. case fmlookup (ul_buckets l) k of
                      None \<Rightarrow> True | Some b \<Rightarrow> \<not> time_Sub now (ub_lastSeen b) > 5 * Minute) (ul_buckets l),
             ul_lastSweep := now\<rparr>
      else l)"
  have "il_buckets (ip_gc now (as_ip l)) = fmmap (\<lambda>b. \<lparr>ib_tokens = ub_tokens b, ib_lastSeen = ub_lastSeen b\<rparr>)
      (fmfilter (\<lambda>k. case fmlookup (ul_buckets l) k of None \<Rightarrow> True | Some b \<Rightarrow> \<not> time_Sub now (ub_lastSeen b) > 5 * Minute) (ul_buckets l))"
    by (rule fmap_ext) (auto simp: ip_gc_def split: option.splits)
  then have gc: "(if time_Sub now (il_lastSweep (as_ip l)) > 30 * Second then (ip_gc now (as_ip l))\<lparr>il_lastSweep := now\<rparr> else as_ip l) = as_ip u"
    by (auto simp: u_def as_ip_def ip_gc_def)
  show ?thesis unfolding ip_allow_def udp_allow_def Let_def gc u_def [symmetric]
    by (cases "fmlookup (ul_buckets u) ip") (simp_all add: as_ip_upd)
qed

lemma udp_run_ip: "ip_run rnd (as_ip l) cs = map_prod as_ip (\<lambda>oks. oks) (udp_run rnd l cs)"
proof (induction cs arbitrary: l)
  case (Cons c cs)
  obtain ip now where "c = (ip, now)" by fastforce
  then show ?case using Cons.IH by (simp add: udp_allow_ip split: prod.split)
qed simp

section \<open>Properties\<close>


definition sample_calls :: "(string \<times> time) list" where
  "sample_calls = [(''a'', 0), (''a'', 0), (''b'', 0), (''a'', Second)]"


text \<open>
  The limiter of the resolver is the limiter of the gateway. The code has two copies, one with
  the sweep in a function of its own and one with it inline; on every sequence of calls they give the
  same answers and keep corresponding states.
\<close>

theorem limiters_agree:
  "ip_run rnd (newIPRateLimiter rnd now rate burst) cs = map_prod as_ip (\<lambda>oks. oks) (udp_run rnd (newUDPRateLimiter rnd now rate burst) cs)"
proof -
  have "newIPRateLimiter rnd now rate burst = as_ip (newUDPRateLimiter rnd now rate burst)"
    by (simp add: newIPRateLimiter_def newUDPRateLimiter_def as_ip_def)
  then show ?thesis by (simp add: udp_run_ip)
qed

end
