(* ===== verification/Dns.thy ===== *)
theory Dns
  imports Go_Strings Rate_Limits
begin

text \<open>
  \<^verbatim>\<open>apps/dns/dns.go\<close>: the resolver that answers for the captured top-level domains and forwards every
  other query. Headers are 16-bit words; a query and a reply are byte lists. What the upstream
  resolver answers is a parameter, and so is the clock of the rate limiter. A panic is \<open>None\<close>.
\<close>

section \<open>Definitions\<close>

unbundle bit_operations_syntax

definition DefaultUpstream :: string where
  "DefaultUpstream = ''1.1.1.1:53''"

definition DefaultPerSourceQPS :: int where
  "DefaultPerSourceQPS = 50"

definition DefaultPerSourceBurst :: int where
  "DefaultPerSourceBurst = 100"

record Resolver =
  captureTLDs :: "string list"
  captureIP :: bytes
  upstream :: string
  dns_limiter :: "udpRateLimiter option"

text \<open>\<^verbatim>\<open>IP.To4\<close>: four bytes, or nil.\<close>

definition To4 :: "bytes \<Rightarrow> bytes" where
  "To4 ip =
     (if length ip = 4 then ip
      else if length ip = 16 \<and> take 10 ip = replicate 10 0 \<and> ip ! 10 = 0xff \<and> ip ! 11 = 0xff then drop 12 ip
      else [])"

definition NewWithRate :: "rounding \<Rightarrow> time \<Rightarrow> string list \<Rightarrow> bytes \<Rightarrow> string \<Rightarrow> int \<Rightarrow> int \<Rightarrow> Resolver" where
  "NewWithRate rnd now tlds ip up qps burst =
     \<lparr>captureTLDs = map (\<lambda>t. ToLower (TrimPrefix t ''.'')) tlds, captureIP = To4 ip,
      upstream = (if up = [] then DefaultUpstream else up),
      dns_limiter = (if qps > 0 then Some (newUDPRateLimiter rnd now qps burst) else None)\<rparr>"

definition NewResolver :: "rounding \<Rightarrow> time \<Rightarrow> string list \<Rightarrow> bytes \<Rightarrow> string \<Rightarrow> Resolver" where
  "NewResolver rnd now tlds ip up = NewWithRate rnd now tlds ip up DefaultPerSourceQPS DefaultPerSourceBurst"

definition matchesCapture :: "Resolver \<Rightarrow> string \<Rightarrow> bool" where
  "matchesCapture r name =
     (let lower = ToLower (TrimSuffix name ''.'')
      in list_ex (\<lambda>tld. lower = tld \<or> HasSuffix lower (CHR ''.'' # tld)) (captureTLDs r))"

subsection \<open>The wire format\<close>

datatype dns_error =
    ShortHeader | NoQuestion | NameTruncated | NameCompressed | LabelTooLong | LabelTruncated | NameTooLong | TruncatedQuestion

definition Uint16 :: "bytes \<Rightarrow> nat \<Rightarrow> 16 word" where
  "Uint16 p i = of_nat (be_nat (take 2 (drop i p)))"

definition PutUint16 :: "bytes \<Rightarrow> nat \<Rightarrow> 16 word \<Rightarrow> bytes" where
  "PutUint16 p i v = p[i := ucast (drop_bit 8 v), i + 1 := ucast v]"

function readName_loop :: "bytes \<Rightarrow> nat \<Rightarrow> nat \<Rightarrow> string list \<Rightarrow> dns_error + string list \<times> nat" where
  "readName_loop p start off labels =
     (if off \<ge> length p then Inl NameTruncated
      else
        let l = unat (p ! off)
        in if l = 0 then Inr (labels, off + 1)
           else if p ! off AND 0xC0 \<noteq> 0 then Inl NameCompressed
           else if l > 63 then Inl LabelTooLong
           else if off + 1 + l > length p then Inl LabelTruncated
           else if off + 1 + l - start > 255 then Inl NameTooLong
           else readName_loop p start (off + 1 + l) (labels @ [string_of_bytes (take l (drop (off + 1) p))]))"
  by pat_completeness auto
termination
  by (relation "measure (\<lambda>(p, _, off, _). length p - off)") auto

declare readName_loop.simps [simp del]

definition readName :: "bytes \<Rightarrow> nat \<Rightarrow> dns_error + string \<times> nat" where
  "readName p off =
     (case readName_loop p off off [] of
        Inl e \<Rightarrow> Inl e
      | Inr (labels, end) \<Rightarrow> Inr (Join labels ''.'', end - off))"

record parsedQuery =
  pq_id :: "16 word"
  pq_flags :: "16 word"
  pq_qdcount :: "16 word"
  pq_name :: string
  pq_qtype :: "16 word"
  pq_class :: "16 word"

definition parseQuery :: "bytes \<Rightarrow> dns_error + parsedQuery" where
  "parseQuery p =
     (if length p < 12 then Inl ShortHeader
      else if Uint16 p 4 < 1 then Inl NoQuestion
      else case readName p 12 of
        Inl e \<Rightarrow> Inl e
      | Inr (name, n) \<Rightarrow>
          let off = 12 + n
          in if off + 4 > length p then Inl TruncatedQuestion
             else Inr \<lparr>pq_id = Uint16 p 0, pq_flags = Uint16 p 2, pq_qdcount = Uint16 p 4, pq_name = name,
                       pq_qtype = Uint16 p off, pq_class = Uint16 p (off + 2)\<rparr>)"

definition reply_header :: "bytes \<Rightarrow> parsedQuery \<Rightarrow> 16 word \<Rightarrow> bytes" where
  "reply_header question q ancount =
     (let flags = (2 ^ 15 OR 2 ^ 10 OR 2 ^ 7) OR (if pq_flags q AND 2 ^ 8 \<noteq> 0 then 2 ^ 8 else 0);
          out = PutUint16 (PutUint16 (PutUint16 question 0 (pq_id q)) 2 flags) 4 1
      in PutUint16 (PutUint16 (PutUint16 out 6 ancount) 8 0) 10 0)"

definition buildCapturedReply :: "Resolver \<Rightarrow> bytes \<Rightarrow> parsedQuery \<Rightarrow> (dns_error + bytes) option" where
  "buildCapturedReply r req q =
     (case readName req 12 of
        Inl e \<Rightarrow> Some (Inl e)
      | Inr (_, nameLen) \<Rightarrow>
          let qEnd = 12 + nameLen + 4
          in if length req < qEnd then None
             else if pq_qtype q = 1 then
               (if length (captureIP r) < 4 then None
                else Some (Inr (reply_header (take qEnd req) q 1
                       @ [0xC0, 0x0C, 0, 1, 0, 1, 0, 0, 0, 0x3C, 0, 4] @ take 4 (captureIP r))))
             else Some (Inr (reply_header (take qEnd req) q 0)))"

text \<open>\<open>forward\<close>: what the upstream resolver sends back, cut to the buffer.\<close>

definition forward :: "(string \<Rightarrow> bytes \<Rightarrow> bytes option) \<Rightarrow> string \<Rightarrow> bytes \<Rightarrow> bytes option" where
  "forward net addr req = map_option (take 1500) (net addr req)"

definition dns_admit :: "rounding \<Rightarrow> time \<Rightarrow> Resolver \<Rightarrow> string \<Rightarrow> Resolver \<times> bool" where
  "dns_admit rnd now r src =
     (case dns_limiter r of
        None \<Rightarrow> (r, True)
      | Some l \<Rightarrow> (case udp_allow rnd now l src of (l1, ok) \<Rightarrow> (r\<lparr>dns_limiter := Some l1\<rparr>, ok)))"

text \<open>One query: the limiter after it and what is sent back, if anything.\<close>

definition dns_handle ::
  "rounding \<Rightarrow> time \<Rightarrow> (string \<Rightarrow> bytes \<Rightarrow> bytes option) \<Rightarrow> Resolver \<Rightarrow> bytes \<Rightarrow> string \<Rightarrow> (Resolver \<times> bytes option) option" where
  "dns_handle rnd now net r req src =
     (case dns_admit rnd now r src of
        (r1, False) \<Rightarrow> Some (r1, None)
      | (r1, True) \<Rightarrow>
          (case parseQuery req of
             Inl _ \<Rightarrow> Some (r1, None)
           | Inr q \<Rightarrow>
               if matchesCapture r1 (pq_name q) then
                 (case buildCapturedReply r1 req q of
                    None \<Rightarrow> None
                  | Some (Inr reply) \<Rightarrow> Some (r1, Some reply)
                  | Some (Inl _) \<Rightarrow> Some (r1, forward net (upstream r1) req))
               else Some (r1, forward net (upstream r1) req)))"

text \<open>\<open>serve\<close> hands each datagram, cut to its buffer, to \<open>handle\<close>.\<close>

fun dns_serve ::
  "rounding \<Rightarrow> (string \<Rightarrow> bytes \<Rightarrow> bytes option) \<Rightarrow> Resolver \<Rightarrow> (time \<times> bytes \<times> string) list \<Rightarrow> (bytes option list) option" where
  "dns_serve rnd net r [] = Some []"
| "dns_serve rnd net r ((now, datagram, src) # ds) =
     (case dns_handle rnd now net r (take 1500 datagram) src of
        None \<Rightarrow> None
      | Some (r1, out) \<Rightarrow> map_option (\<lambda>outs. out # outs) (dns_serve rnd net r1 ds))"

section \<open>Names on the wire\<close>

definition encode_name :: "bytes list \<Rightarrow> bytes" where
  "encode_name ls = concat (map (\<lambda>l. of_nat (length l) # l) ls) @ [0]"

definition labels_ok :: "bytes list \<Rightarrow> bool" where
  "labels_ok ls \<longleftrightarrow> (\<forall>l\<in>set ls. 1 \<le> length l \<and> length l \<le> 63) \<and> sum_list (map (\<lambda>l. length l + 1) ls) \<le> 255"

lemma length_encode_name: "length (encode_name ls) = sum_list (map (\<lambda>l. length l + 1) ls) + 1"
  by (simp add: encode_name_def length_concat comp_def)

text \<open>The two highest bits of a byte are clear exactly below 64: the check for long labels never fires.\<close>

lemma label_bits: "b AND 0xC0 = 0 \<longleftrightarrow> unat b < 64" for b :: byte
proof -
  have and_eq: "b AND 0xC0 = push_bit 6 (drop_bit 6 b)"
  proof (rule bit_word_eqI)
    fix n assume "n < LENGTH(8)"
    then have "n \<in> {0, 1, 2, 3, 4, 5, 6, 7}" by auto
    then show "bit (b AND 0xC0) n = bit (push_bit 6 (drop_bit 6 b)) n" by (auto simp: bit_simps)
  qed
  have "drop_bit 6 (push_bit 6 (drop_bit 6 b)) = drop_bit 6 b"     by (rule bit_word_eqI) (auto simp: bit_simps dest: bit_imp_le_length)
  then have "b AND 0xC0 = 0 \<longleftrightarrow> drop_bit 6 b = 0" unfolding and_eq by (metis drop_bit_of_0 push_bit_of_0)
  also have "\<dots> \<longleftrightarrow> unat (drop_bit 6 b) = 0" by (simp add: unat_eq_0)
  also have "\<dots> \<longleftrightarrow> unat b < 64" by (simp add: drop_bit_eq_div unat_div_distrib div_eq_0_iff)
  finally show ?thesis .
qed

lemma readName_loop_encode:
  assumes "\<forall>l\<in>set ls. 1 \<le> length l \<and> length l \<le> 63"
    and "length mid + sum_list (map (\<lambda>l. length l + 1) ls) \<le> 255"
  shows "readName_loop (pre @ mid @ encode_name ls @ rest) (length pre) (length pre + length mid) acc
    = Inr (acc @ map string_of_bytes ls, length pre + length mid + length (encode_name ls))"
  using assms
proof (induction ls arbitrary: mid acc)
  case Nil
  then show ?case by (subst readName_loop.simps) (simp add: encode_name_def nth_append)
next
  case (Cons l ls)
  let ?p = "pre @ mid @ encode_name (l # ls) @ rest"
  have l: "1 \<le> length l" "length l \<le> 63" using Cons.prems(1) by auto
  have p: "?p = pre @ (mid @ of_nat (length l) # l) @ encode_name ls @ rest" by (simp add: encode_name_def)
  have hd: "?p ! (length pre + length mid) = of_nat (length l)" by (simp add: encode_name_def nth_append)
  have un: "unat (of_nat (length l) :: byte) = length l" using l by (simp add: unat_of_nat)
  have body: "take (length l) (drop (length pre + length mid + 1) ?p) = l" by (simp add: encode_name_def)
  have bits: "(of_nat (length l) :: byte) AND 0xC0 = 0" using l un by (simp add: label_bits)
  have "readName_loop ?p (length pre) (length pre + length mid) acc
      = readName_loop ?p (length pre) (length pre + length mid + 1 + length l) (acc @ [string_of_bytes l])"
    by (subst readName_loop.simps) (use l Cons.prems(2) hd un body bits in \<open>simp add: Let_def\<close>, use l in \<open>auto simp: encode_name_def\<close>)
  also have "\<dots> = Inr ((acc @ [string_of_bytes l]) @ map string_of_bytes ls, length pre + length (mid @ of_nat (length l) # l) + length (encode_name ls))"
    using Cons.IH [of "mid @ of_nat (length l) # l" "acc @ [string_of_bytes l]"] Cons.prems unfolding p by (simp add: add.assoc)
  finally show ?case by (simp add: length_encode_name)
qed

lemma readName_encode:
  "labels_ok ls \<Longrightarrow> readName (pre @ encode_name ls @ rest) (length pre) = Inr (Join (map string_of_bytes ls) ''.'', length (encode_name ls))"
  using readName_loop_encode [of ls "[]" pre rest "[]"] by (simp add: readName_def labels_ok_def)

lemma readName_loop_bound:
  "readName_loop p start off labels = Inr (ls, e) \<Longrightarrow> off < e \<and> e \<le> length p"
proof (induction p start off labels rule: readName_loop.induct)
  case (1 p start off labels)
  let ?l = "unat (p ! off)"
  let ?step = "off < length p \<and> ?l \<noteq> 0 \<and> \<not> p ! off AND 0xC0 \<noteq> 0 \<and> \<not> ?l > 63 \<and> \<not> off + 1 + ?l > length p \<and> \<not> off + 1 + ?l - start > 255"
  from "1.prems" have "off < length p \<and> e = off + 1
      \<or> ?step \<and> readName_loop p start (off + 1 + ?l) (labels @ [string_of_bytes (take ?l (drop (off + 1) p))]) = Inr (ls, e)"
    by (subst (asm) readName_loop.simps) (auto simp: Let_def split: if_splits)
  then show ?case
  proof
    assume s: "?step \<and> readName_loop p start (off + 1 + ?l) (labels @ [string_of_bytes (take ?l (drop (off + 1) p))]) = Inr (ls, e)"
    then have "off + 1 + ?l < e \<and> e \<le> length p" by (intro "1.IH" [OF _ refl]) auto
    then show ?thesis by simp
  qed auto
qed

lemma readName_bound: "readName p off = Inr (name, n) \<Longrightarrow> 0 < n \<and> off + n \<le> length p"
  by (auto simp: readName_def split: sum.splits dest!: readName_loop_bound)

section \<open>Replies\<close>

lemma length_PutUint16 [simp]: "length (PutUint16 p i v) = length p"
  by (simp add: PutUint16_def)

lemma length_reply_header [simp]: "length (reply_header p q n) = length p"
  by (simp add: reply_header_def Let_def)

lemma parseQuery_Inr:
  assumes "parseQuery p = Inr q"
  shows "12 \<le> length p" "readName p 12 = Inr (pq_name q, n) \<Longrightarrow> 12 + n + 4 \<le> length p" "\<exists>n. readName p 12 = Inr (pq_name q, n)"
  using assms by (auto simp: parseQuery_def Let_def split: if_splits sum.splits)

lemma buildCapturedReply_cases:
  assumes "parseQuery req = Inr q" and "buildCapturedReply r req q = x"
  shows "x = None \<and> pq_qtype q = 1 \<and> length (captureIP r) < 4
    \<or> (\<exists>reply. x = Some (Inr reply) \<and> length reply \<le> length req + 16)"
proof -
  obtain n where n: "readName req 12 = Inr (pq_name q, n)" using parseQuery_Inr(3) [OF assms(1)] by blast
  with parseQuery_Inr(2) [OF assms(1) n] assms(2) show ?thesis
    by (cases "pq_qtype q = 1"; cases "length (captureIP r) < 4") (auto simp: buildCapturedReply_def Let_def)
qed

text \<open>The twelve bytes of a header.\<close>

definition u16 :: "16 word \<Rightarrow> bytes" where
  "u16 v = [ucast (drop_bit 8 v), ucast v]"

definition dns_header :: "16 word \<Rightarrow> 16 word \<Rightarrow> 16 word \<Rightarrow> 16 word \<Rightarrow> 16 word \<Rightarrow> 16 word \<Rightarrow> bytes" where
  "dns_header i flags qd an ns ar = u16 i @ u16 flags @ u16 qd @ u16 an @ u16 ns @ u16 ar"

definition dns_question :: "bytes list \<Rightarrow> 16 word \<Rightarrow> 16 word \<Rightarrow> bytes" where
  "dns_question ls qtype cls = encode_name ls @ u16 qtype @ u16 cls"

lemma length_u16 [simp]: "length (u16 v) = 2"
  by (simp add: u16_def)

lemma unat_low_byte: "unat (ucast v :: byte) = unat v mod 256" for v :: "16 word"
  by (simp add: unsigned_ucast_eq take_bit_eq_mod)

lemma Uint16_u16: "Uint16 (pre @ u16 v @ rest) (length pre) = v"
proof -
  have "unat v < 65536" using unsigned_less [of v, where 'a = nat] by simp
  then have "unat v div 256 < 256" by (simp add: less_mult_imp_div_less)
  then have "unat (ucast (drop_bit 8 v) :: byte) = unat v div 256"
    by (simp add: unat_low_byte drop_bit_eq_div unat_div_distrib)
  then show ?thesis by (simp add: Uint16_def u16_def unat_low_byte)
qed

lemma PutUint16_u16: "PutUint16 (pre @ u16 w @ rest) (length pre) v = pre @ u16 v @ rest"
  by (simp add: PutUint16_def u16_def list_update_append)

lemma header_fields:
  "Uint16 (dns_header i flags qd an ns ar @ p) 0 = i" "Uint16 (dns_header i flags qd an ns ar @ p) 2 = flags"
  "Uint16 (dns_header i flags qd an ns ar @ p) 4 = qd" "length (dns_header i flags qd an ns ar) = 12"
  using Uint16_u16 [of "[]" i] Uint16_u16 [of "u16 i" flags] Uint16_u16 [of "u16 i @ u16 flags" qd]
  by (simp_all add: dns_header_def)

lemma reply_header_eq:
  "reply_header (dns_header i flags qd an ns ar @ p) q n =
     dns_header (pq_id q) ((2 ^ 15 OR 2 ^ 10 OR 2 ^ 7) OR (if pq_flags q AND 2 ^ 8 \<noteq> 0 then 2 ^ 8 else 0)) 1 n 0 0 @ p"
  using PutUint16_u16 [of "[]"] PutUint16_u16 [of "u16 a" for a] PutUint16_u16 [of "u16 a @ u16 b" for a b]
    PutUint16_u16 [of "u16 a @ u16 b @ u16 c" for a b c] PutUint16_u16 [of "u16 a @ u16 b @ u16 c @ u16 d" for a b c d]
    PutUint16_u16 [of "u16 a @ u16 b @ u16 c @ u16 d @ u16 e" for a b c d e]
  by (simp add: reply_header_def dns_header_def Let_def)

lemma parse_question:
  assumes "labels_ok ls" and "qd \<noteq> 0"
  shows "readName (dns_header i flags qd an ns ar @ dns_question ls qtype cls @ rest) 12 = Inr (Join (map string_of_bytes ls) ''.'', length (encode_name ls))"
    "parseQuery (dns_header i flags qd an ns ar @ dns_question ls qtype cls @ rest)
     = Inr \<lparr>pq_id = i, pq_flags = flags, pq_qdcount = qd, pq_name = Join (map string_of_bytes ls) ''.'', pq_qtype = qtype, pq_class = cls\<rparr>"
proof -
  let ?h = "dns_header i flags qd an ns ar"
  let ?p = "?h @ dns_question ls qtype cls @ rest"
  have h: "length ?h = 12" by (rule header_fields(4))
  show n: "readName ?p 12 = Inr (Join (map string_of_bytes ls) ''.'', length (encode_name ls))"
    using readName_encode [OF assms(1), of ?h "u16 qtype @ u16 cls @ rest"] h by (simp add: dns_question_def)
  have "Uint16 ?p (12 + length (encode_name ls)) = qtype" "Uint16 ?p (12 + length (encode_name ls) + 2) = cls"
    using Uint16_u16 [of "?h @ encode_name ls" qtype "u16 cls @ rest"] Uint16_u16 [of "?h @ encode_name ls @ u16 qtype" "cls" rest] h
    by (simp_all add: dns_question_def)
  moreover have "\<not> qd < 1" using assms(2) by (simp add: word_less_nat_alt unat_gt_0)
  ultimately show "parseQuery ?p = Inr \<lparr>pq_id = i, pq_flags = flags, pq_qdcount = qd, pq_name = Join (map string_of_bytes ls) ''.'',
      pq_qtype = qtype, pq_class = cls\<rparr>"
    using h by (simp add: parseQuery_def n header_fields Let_def) (simp add: dns_question_def)
qed

section \<open>Which names are captured\<close>

lemma Join_snoc: "ws \<noteq> [] \<Longrightarrow> Join (ws @ [w]) sep = Join ws sep @ sep @ w"
  by (induction ws sep rule: Join.induct) auto

lemma HasSuffix_iff: "HasSuffix s p \<longleftrightarrow> (\<exists>a. s = a @ p)"
  by (auto simp: HasSuffix_def) (metis append_take_drop_id)

lemma lower_char_dot: "lower_char c = CHR ''.'' \<longleftrightarrow> c = CHR ''.''"
proof -
  have "char_of (n + 32) \<noteq> CHR ''.''" if "65 \<le> n" "n \<le> 90" for n :: nat
  proof
    assume "char_of (n + 32) = CHR ''.''"
    then have "of_char (char_of (n + 32) :: char) = (of_char CHR ''.'' :: nat)" by simp
    then show False using that by simp
  qed
  then show ?thesis by (auto simp: lower_char_def Let_def)
qed

lemma ToLower_dot: "CHR ''.'' \<in> set (ToLower s) \<longleftrightarrow> CHR ''.'' \<in> set s"
  by (auto simp: ToLower_def image_iff eq_commute [of "CHR ''.''"] lower_char_dot)

lemma flag_bit: "f AND 2 ^ 8 = (if bit f 8 then 2 ^ 8 else 0)" for f :: "16 word"
proof (rule bit_word_eqI)
  fix n assume n: "n < LENGTH(16)"
  have "bit (2 ^ 8 :: 16 word) n \<longleftrightarrow> n = 8" using n by (simp only: bit_exp_iff) auto
  then show "bit (f AND 2 ^ 8) n = bit (if bit f 8 then 2 ^ 8 else 0 :: 16 word) n" by (auto simp: bit_and_iff simp del: power_numeral)
qed

lemma capture_suffix:
  assumes "CHR ''.'' \<notin> set l" and "CHR ''.'' \<notin> set t"
  shows "HasSuffix (a @ CHR ''.'' # l) (CHR ''.'' # t) \<longleftrightarrow> l = t"
proof
  assume "HasSuffix (a @ CHR ''.'' # l) (CHR ''.'' # t)"
  then obtain b where b: "a @ CHR ''.'' # l = b @ CHR ''.'' # t" by (auto simp: HasSuffix_iff)
  then have "rev l @ CHR ''.'' # rev a = rev t @ CHR ''.'' # rev b" by (metis append_Cons append_assoc rev.simps(2) rev_append append_Nil)
  then have "takeWhile (\<lambda>c. c \<noteq> CHR ''.'') (rev l @ CHR ''.'' # rev a) = takeWhile (\<lambda>c. c \<noteq> CHR ''.'') (rev t @ CHR ''.'' # rev b)" by simp
  moreover have "takeWhile (\<lambda>c. c \<noteq> CHR ''.'') (rev x @ CHR ''.'' # y) = rev x" if "CHR ''.'' \<notin> set x" for x y
    using that by (subst takeWhile_append2) auto
  ultimately show "l = t" using assms by simp
qed (auto simp: HasSuffix_iff)

section \<open>Properties\<close>


text \<open>
  Which names are captured. For a name of non-empty labels without dots and domains without dots,
  the resolver answers itself exactly when the last label is, but for case, one of its domains.
\<close>

theorem capture_last_label:
  assumes "ls \<noteq> []" and "\<forall>l\<in>set ls. l \<noteq> [] \<and> CHR ''.'' \<notin> set l" and "\<forall>t\<in>set (captureTLDs r). CHR ''.'' \<notin> set t"
  shows "matchesCapture r (Join ls ''.'') \<longleftrightarrow> ToLower (last ls) \<in> set (captureTLDs r)"
proof -
  obtain ms l where ls: "ls = ms @ [l]" using assms(1) by (metis rev_exhaust)
  have l: "l \<noteq> []" "CHR ''.'' \<notin> set l" using assms(2) ls by auto
  then have lo: "CHR ''.'' \<notin> set (ToLower l)" by (simp add: ToLower_dot)
  define name where "name = Join ls ''.''"
  have "\<exists>a. name = a @ l \<and> (ms = [] \<longrightarrow> a = []) \<and> (ms \<noteq> [] \<longrightarrow> (\<exists>b. a = b @ ''.''))"
    by (cases "ms = []") (auto simp: name_def ls Join_snoc)
  then obtain a where a: "name = a @ l" "ms = [] \<longrightarrow> a = []" "ms \<noteq> [] \<longrightarrow> (\<exists>b. a = b @ ''.'')" by blast
  have "\<not> HasSuffix name ''.''"
    using l a(1) by (auto simp: HasSuffix_iff) (metis append_butlast_last_id last_appendR last_in_set last_snoc)
  then have trim: "TrimSuffix name ''.'' = name" by (simp add: TrimSuffix_def)
  have "(ToLower name = t \<or> HasSuffix (ToLower name) (CHR ''.'' # t)) \<longleftrightarrow> ToLower l = t" if t: "CHR ''.'' \<notin> set t" for t
  proof (cases "ms = []")
    case True
    have "\<not> HasSuffix (ToLower l) (CHR ''.'' # t)" using lo by (auto simp: HasSuffix_iff)
    with True a show ?thesis by simp
  next
    case False
    with a obtain b where b: "name = b @ CHR ''.'' # l" by auto
    have low: "ToLower name = ToLower b @ CHR ''.'' # ToLower l" by (simp add: b ToLower_append) (simp add: ToLower_def lower_char_dot)
    then have "ToLower name \<noteq> t" using t by auto
    with low capture_suffix [OF lo t] show ?thesis by simp
  qed
  then have "matchesCapture r name \<longleftrightarrow> (\<exists>t\<in>set (captureTLDs r). ToLower l = t)"
    using assms(3) by (auto simp: matchesCapture_def trim Let_def list_ex_iff)
  then show ?thesis by (simp add: name_def ls)
qed


text \<open>
  With an IPv6 address the resolver ends at the first query. \<open>New\<close> accepts any address, and
  keeps nil for one that is not IPv4; the first admitted query for an address in a captured domain
  then panics.
\<close>

theorem dns_ipv6_panics:
  assumes "length ip = 16" and "take 10 ip \<noteq> replicate 10 0" and "labels_ok ls" and "qd \<noteq> 0"
    and "r = NewWithRate rnd now tlds ip up qps burst" and "dns_admit rnd now' r src = (r1, True)"
    and "matchesCapture r (Join (map string_of_bytes ls) ''.'')"
  shows "dns_handle rnd now' net r (dns_header i flags qd an ns ar @ dns_question ls 1 cls @ rest) src = None"
proof -
  have "captureIP r1 = captureIP r" "captureTLDs r1 = captureTLDs r"
    using assms(6) by (auto simp: dns_admit_def split: option.splits prod.splits)
  then have "captureIP r1 = []" "matchesCapture r1 (Join (map string_of_bytes ls) ''.'')"
    using assms(1,2,5,7) by (simp_all add: NewWithRate_def To4_def matchesCapture_def)
  with assms(6) parse_question [OF assms(3,4), of i flags an ns ar 1 cls rest] show ?thesis
    by (simp add: dns_handle_def buildCapturedReply_def Let_def)
qed

definition sample_resolver :: "bytes \<Rightarrow> Resolver" where
  "sample_resolver ip = NewWithRate (\<lambda>x. x) 0 [''.ALT''] ip [] 0 0"

lemma sample_resolver_simps:
  "captureTLDs (sample_resolver ip) = [''alt'']" "dns_admit rnd now (sample_resolver ip) src = (sample_resolver ip, True)"
proof -
  have "ToLower (TrimPrefix ''.ALT'' ''.'') = ''alt''" by code_simp
  then show "captureTLDs (sample_resolver ip) = [''alt'']" "dns_admit rnd now (sample_resolver ip) src = (sample_resolver ip, True)"
    by (simp_all add: sample_resolver_def NewWithRate_def dns_admit_def)
qed

definition sample_labels :: "bytes list" where
  "sample_labels = [[120], [97, 76, 84]]"

lemma sample_query_name: "Join (map string_of_bytes sample_labels) ''.'' = ''x.aLT''" "labels_ok sample_labels"
  by code_simp+

lemma sample_captured: "matchesCapture (sample_resolver ip) ''x.aLT''"
  unfolding matchesCapture_def sample_resolver_simps by code_simp


theorem capture_last_label_witness: "matchesCapture (sample_resolver [127, 0, 0, 1]) (Join [''x'', ''aLT''] ''.'')"
proof -
  have "ToLower (last [''x'', ''aLT'']) = ''alt''" by code_simp
  with capture_last_label [of "[''x'', ''aLT'']" "sample_resolver [127, 0, 0, 1]"] show ?thesis by (simp add: sample_resolver_simps)
qed


theorem dns_ipv6_panics_witness:
  "dns_handle (\<lambda>x. x) 0 (\<lambda>_ _. None) (sample_resolver (replicate 16 1)) (dns_header 7 0 1 0 0 0 @ dns_question sample_labels 1 1) ''s'' = None"
proof -
  from dns_ipv6_panics [where ip = "replicate 16 1" and ls = sample_labels and qd = 1 and r = "sample_resolver (replicate 16 1)" and rest = "[]"
      and cls = 1 and i = 7 and flags = 0 and an = 0 and ns = 0 and ar = 0 and src = "''s''" and net = "\<lambda>_ _. None",
      OF _ _ sample_query_name(2) _ sample_resolver_def sample_resolver_simps(2)]
  show ?thesis by (simp add: sample_query_name sample_captured numeral_eq_Suc)
qed

end
