(* ===== verification/Names.thy ===== *)
theory Names
  imports Maintenance
begin

text \<open>
  \<^verbatim>\<open>core/name/name.go\<close>: signed name records on top of the DHT. The list of trusted registrars, a
  package variable of the source, is an argument; \<open>None\<close> is its nil value.
\<close>

section \<open>Definitions\<close>

subsection \<open>Trusted registrars\<close>

type_synonym registrars = "string fset option"

definition SetTrustedRegistrars :: "string list \<Rightarrow> registrars" where
  "SetTrustedRegistrars keys =
     (let m = foldl (\<lambda>m k. let k = ToLower (TrimSpace k) in if k \<noteq> [] then finsert k m else m) {||} keys
      in if fcard m = 0 then None else Some m)"

definition TrustedRegistrarCount :: "registrars \<Rightarrow> nat" where
  "TrustedRegistrarCount tr = (case tr of None \<Rightarrow> 0 | Some m \<Rightarrow> fcard m)"

definition registrarAllowed :: "registrars \<Rightarrow> string \<Rightarrow> bool" where
  "registrarAllowed tr pk =
     (case tr of
        None \<Rightarrow> True
      | Some m \<Rightarrow> if fcard m = 0 then True else ToLower (TrimSpace pk) |\<in>| m)"

subsection \<open>Names\<close>

definition MaxNameLen :: nat where
  "MaxNameLen = 253"

definition DefaultNameTTL :: int where
  "DefaultNameTTL = 7 * 24 * 3600"

definition MaxClockSkew :: int where
  "MaxClockSkew = 5 * 60"

definition CanonicalName :: "string \<Rightarrow> string" where
  "CanonicalName name = TrimSuffix (ToLower (TrimSpace name)) ''.''"

definition RecordKey :: "prims \<Rightarrow> string \<Rightarrow> NodeID" where
  "RecordKey c name = id_copy (sha256 c (bytes_of_string (CanonicalName name)))"

datatype name_error =
    NameEmpty | NameTooLong | NameDot | LabelEmpty | LabelTooLong | LabelHyphen | LabelChar

definition label_char :: "char \<Rightarrow> bool" where
  "label_char r \<longleftrightarrow> r = CHR ''-'' \<or> (97 \<le> (of_char r :: nat) \<and> (of_char r :: nat) \<le> 122)
     \<or> (48 \<le> (of_char r :: nat) \<and> (of_char r :: nat) \<le> 57)"

definition label_error :: "string \<Rightarrow> name_error option" where
  "label_error label =
     (if label = [] then Some LabelEmpty
      else if length label > 63 then Some LabelTooLong
      else if hd label = CHR ''-'' \<or> last label = CHR ''-'' then Some LabelHyphen
      else if \<not> list_all label_char label then Some LabelChar
      else None)"

fun labels_error :: "string list \<Rightarrow> name_error option" where
  "labels_error [] = None"
| "labels_error (l # ls) = (case label_error l of Some e \<Rightarrow> Some e | None \<Rightarrow> labels_error ls)"

definition validName :: "string \<Rightarrow> name_error option" where
  "validName name =
     (let c = CanonicalName name
      in if c = [] then Some NameEmpty
         else if length c > MaxNameLen then Some NameTooLong
         else if hd c = CHR ''.'' \<or> last c = CHR ''.'' then Some NameDot
         else labels_error (Split c (CHR ''.'')))"

subsection \<open>Records\<close>

record NameRecord =
  nr_Name :: string
  nr_PublicKey :: string
  nr_Root :: string
  nr_Version :: int
  nr_Timestamp :: int
  nr_TTL :: int
  nr_Sig :: string

definition zero_NameRecord :: NameRecord where
  "zero_NameRecord = \<lparr>nr_Name = [], nr_PublicKey = [], nr_Root = [], nr_Version = 0, nr_Timestamp = 0, nr_TTL = 0, nr_Sig = []\<rparr>"

definition enc_NameRecord :: "NameRecord \<Rightarrow> json" where
  "enc_NameRecord r = JObj ([(''name'', JStr (nr_Name r)), (''pk'', JStr (nr_PublicKey r)), (''root'', JStr (nr_Root r)),
     (''version'', int_json (nr_Version r)), (''ts'', int_json (nr_Timestamp r))]
     @ omit (nr_TTL r = 0) ''ttl'' (int_json (nr_TTL r))
     @ omit (nr_Sig r = []) ''sig'' (JStr (nr_Sig r)))"

definition dec_NameRecord :: "NameRecord field_dec" where
  "dec_NameRecord = dec_struct
     [(''name'', field dec_string nr_Name nr_Name_update),
      (''pk'', field dec_string nr_PublicKey nr_PublicKey_update),
      (''root'', field dec_string nr_Root nr_Root_update),
      (''version'', field dec_int64 nr_Version nr_Version_update),
      (''ts'', field dec_int64 nr_Timestamp nr_Timestamp_update),
      (''ttl'', field dec_int64 nr_TTL nr_TTL_update),
      (''sig'', field dec_string nr_Sig nr_Sig_update)]"

definition Expired :: "NameRecord \<Rightarrow> int \<Rightarrow> bool" where
  "Expired r now =
     (if nr_Timestamp r > now + MaxClockSkew then True
      else if nr_TTL r \<le> 0 then False
      else now > wrap64 (nr_Timestamp r + nr_TTL r))"

definition record_Sign :: "prims \<Rightarrow> NameRecord \<Rightarrow> Identity \<Rightarrow> NameRecord" where
  "record_Sign c r i =
     (let r1 = r\<lparr>nr_PublicKey := PublicKeyToHex (PublicKey i), nr_Sig := []\<rparr>
      in r1\<lparr>nr_Sig := Sign c i (Marshal (enc_NameRecord r1))\<rparr>)"

definition record_Verify :: "prims \<Rightarrow> NameRecord \<Rightarrow> bool" where
  "record_Verify c r =
     (case PublicKeyFromHex (nr_PublicKey r) of
        None \<Rightarrow> False
      | Some pub \<Rightarrow> Verify c pub (Marshal (enc_NameRecord (r\<lparr>nr_Sig := []\<rparr>))) (nr_Sig r))"

definition RootKey :: "NameRecord \<Rightarrow> id_error + NodeID" where
  "RootKey r = IDFromHex (nr_Root r)"

subsection \<open>Publishing and resolving\<close>

datatype publish_error = PubName name_error | PubTooLarge | PubStore local_error

definition PublishWithTTL ::
  "publish_env \<Rightarrow> DHT \<Rightarrow> Identity \<Rightarrow> string \<Rightarrow> NodeID \<Rightarrow> int \<Rightarrow> int \<Rightarrow> publish_error + DHT \<times> NameRecord" where
  "PublishWithTTL pe d i name root version ttl =
     (case validName name of
        Some e \<Rightarrow> Inl (PubName e)
      | None \<Rightarrow>
          let c = h_prims (pe_h pe);
              rec = record_Sign c (zero_NameRecord\<lparr>nr_Name := CanonicalName name, nr_Root := Hex root, nr_Version := version,
                      nr_Timestamp := Unix (h_now (pe_h pe)), nr_TTL := ttl\<rparr>) i;
              blob = Marshal (enc_NameRecord rec)
          in if length blob > MaxValueSize then Inl PubTooLarge
             else case Store (pe_h pe) (pe_lookup pe) (pe_store pe) d (RecordKey c name) blob of
                    Inl e \<Rightarrow> Inl (PubStore e)
                  | Inr (d1, _) \<Rightarrow> Inr (d1, rec))"

definition Publish ::
  "publish_env \<Rightarrow> DHT \<Rightarrow> Identity \<Rightarrow> string \<Rightarrow> NodeID \<Rightarrow> int \<Rightarrow> publish_error + DHT \<times> NameRecord" where
  "Publish pe d i name root version = PublishWithTTL pe d i name root version DefaultNameTTL"

datatype candidate_error = CandParse | CandName | CandSignature | CandRegistrar | CandExpired

fun pick_loop ::
  "prims \<Rightarrow> registrars \<Rightarrow> int \<Rightarrow> string \<Rightarrow> bytes list \<Rightarrow> NameRecord option \<Rightarrow> candidate_error option
   \<Rightarrow> NameRecord option \<times> candidate_error option" where
  "pick_loop c tr now canonical [] best lastErr = (best, lastErr)"
| "pick_loop c tr now canonical (blob # blobs) best lastErr =
     (case Unmarshal dec_NameRecord (string_of_bytes blob) zero_NameRecord of
        None \<Rightarrow> pick_loop c tr now canonical blobs best (Some CandParse)
      | Some rec \<Rightarrow>
          if nr_Name rec \<noteq> canonical then pick_loop c tr now canonical blobs best (Some CandName)
          else if \<not> record_Verify c rec then pick_loop c tr now canonical blobs best (Some CandSignature)
          else if \<not> registrarAllowed tr (nr_PublicKey rec) then pick_loop c tr now canonical blobs best (Some CandRegistrar)
          else if Expired rec now then pick_loop c tr now canonical blobs best (Some CandExpired)
          else pick_loop c tr now canonical blobs
                 (case best of
                    None \<Rightarrow> Some rec
                  | Some b \<Rightarrow> if nr_Version rec > nr_Version b then Some rec else best) lastErr)"

definition pickBestRecord ::
  "prims \<Rightarrow> registrars \<Rightarrow> int \<Rightarrow> string \<Rightarrow> bytes list \<Rightarrow> NameRecord option \<times> candidate_error option" where
  "pickBestRecord c tr now canonical candidates = pick_loop c tr now canonical candidates None None"

datatype resolve_error = ResName name_error | ResGet get_error | ResNoValid "candidate_error option"

definition Resolve ::
  "registrars \<Rightarrow> henv \<Rightarrow> (nat \<Rightarrow> round_env) \<Rightarrow> (bytes list \<Rightarrow> bytes list) \<Rightarrow> DHT \<Rightarrow> string \<Rightarrow> DHT \<times> (resolve_error + NameRecord)" where
  "Resolve tr h env order d name =
     (case validName name of
        Some e \<Rightarrow> (d, Inl (ResName e))
      | None \<Rightarrow>
          let canonical = CanonicalName name
          in case GetAllUnverified h env order d (RecordKey (h_prims h) canonical) of
               (d1, Inl e) \<Rightarrow> (d1, Inl (ResGet e))
             | (d1, Inr candidates) \<Rightarrow>
                 (case pickBestRecord (h_prims h) tr (Unix (h_now h)) canonical candidates of
                    (None, lastErr) \<Rightarrow> (d1, Inl (ResNoValid lastErr))
                  | (Some best, _) \<Rightarrow> (d1, Inr best)))"

section \<open>Lemmas\<close>

text \<open>A candidate that counts.\<close>

definition acceptable :: "prims \<Rightarrow> registrars \<Rightarrow> int \<Rightarrow> string \<Rightarrow> bytes \<Rightarrow> NameRecord \<Rightarrow> bool" where
  "acceptable c tr now canonical blob rec \<longleftrightarrow>
     Unmarshal dec_NameRecord (string_of_bytes blob) zero_NameRecord = Some rec \<and> nr_Name rec = canonical
     \<and> record_Verify c rec \<and> registrarAllowed tr (nr_PublicKey rec) \<and> \<not> Expired rec now"

definition accepted :: "prims \<Rightarrow> registrars \<Rightarrow> int \<Rightarrow> string \<Rightarrow> bytes list \<Rightarrow> NameRecord set" where
  "accepted c tr now canonical blobs = {r. \<exists>b\<in>set blobs. acceptable c tr now canonical b r}"

definition newest :: "NameRecord set \<Rightarrow> NameRecord option \<Rightarrow> bool" where
  "newest R res \<longleftrightarrow> (case res of None \<Rightarrow> R = {} | Some r \<Rightarrow> r \<in> R \<and> (\<forall>r'\<in>R. nr_Version r' \<le> nr_Version r))"

lemma newest_insert:
  assumes "newest (set_option (case best of None \<Rightarrow> Some r | Some b \<Rightarrow> if nr_Version r > nr_Version b then Some r else best) \<union> R) res"
  shows "newest (set_option best \<union> insert r R) res"
proof (cases best)
  case None
  then show ?thesis using assms by simp
next
  case (Some b)
  then show ?thesis using assms by (cases res) (auto simp: newest_def split: if_splits)
qed

lemma pick_loop_newest: "newest (set_option best \<union> accepted c tr now canonical blobs) (fst (pick_loop c tr now canonical blobs best err))"
proof (induction blobs arbitrary: best err)
  case Nil
  then show ?case by (cases best) (simp_all add: newest_def accepted_def)
next
  case (Cons b blobs)
  show ?case
  proof (cases "\<exists>r. acceptable c tr now canonical b r")
    case True
    then obtain r where r: "acceptable c tr now canonical b r" by blast
    let ?best = "case best of None \<Rightarrow> Some r | Some b \<Rightarrow> if nr_Version r > nr_Version b then Some r else best"
    have "accepted c tr now canonical (b # blobs) = insert r (accepted c tr now canonical blobs)"
      using r by (auto simp: accepted_def acceptable_def)
    moreover have "pick_loop c tr now canonical (b # blobs) best err = pick_loop c tr now canonical blobs ?best err"
      using r by (simp add: acceptable_def)
    ultimately show ?thesis using newest_insert [OF Cons.IH [of ?best err]] by simp
  next
    case False
    then have "accepted c tr now canonical (b # blobs) = accepted c tr now canonical blobs" by (auto simp: accepted_def)
    moreover have "\<exists>err2. pick_loop c tr now canonical (b # blobs) best err = pick_loop c tr now canonical blobs best err2"
      using False by (auto simp: acceptable_def split: option.split)
    ultimately show ?thesis using Cons.IH by auto
  qed
qed

lemma pickBestRecord_newest:
  "newest (accepted c tr now canonical blobs) (fst (pickBestRecord c tr now canonical blobs))"
  using pick_loop_newest [of None] by (simp add: pickBestRecord_def)

subsection \<open>Valid names\<close>

lemma Split_covers: "x \<in> set s \<Longrightarrow> x = c \<or> (\<exists>w\<in>set (Split s c). x \<in> set w)"
proof (induction s c rule: Split.induct)
  case (2 y ys c)
  then show ?case by (cases "Split ys c") (auto split: list.splits)
qed simp

lemma labels_error_None: "labels_error ls = None \<longleftrightarrow> (\<forall>l\<in>set ls. label_error l = None)"
  by (induction ls) (auto split: option.splits)

lemma validName_chars:
  assumes "validName name = None" "x \<in> set (CanonicalName name)"
  shows "x = CHR ''.'' \<or> label_char x"
proof -
  have "\<forall>l\<in>set (Split (CanonicalName name) (CHR ''.'')). label_error l = None"
    using assms(1) by (auto simp: validName_def Let_def labels_error_None split: if_splits)
  then show ?thesis using Split_covers [OF assms(2), of "CHR ''.''"]
    by (auto simp: label_error_def list_all_iff split: if_splits)
qed

lemma label_char_plain: "x = CHR ''.'' \<or> label_char x \<Longrightarrow> \<not> is_space x \<and> lower_char x = x \<and> (of_char x :: nat) < 128"
  by (auto simp: label_char_def is_space_def lower_char_def Let_def)

lemma CanonicalName_valid:
  assumes "validName name = None"
  shows "CanonicalName (CanonicalName name) = CanonicalName name"
proof -
  let ?c = "CanonicalName name"
  have plain: "\<not> is_space x \<and> lower_char x = x \<and> (of_char x :: nat) < 128" if "x \<in> set ?c" for x
    using label_char_plain [OF validName_chars [OF assms that]] .
  have ne: "?c \<noteq> []" "last ?c \<noteq> CHR ''.''" using assms by (auto simp: validName_def Let_def split: if_splits)
  then have "TrimSpace ?c = ?c" using plain by (intro TrimSpace_id) (simp add: plain)
  moreover have "ToLower ?c = ?c" unfolding ToLower_def by (rule map_idI) (use plain in blast)
  moreover have "\<not> HasSuffix ?c ''.''"
  proof
    assume "HasSuffix ?c ''.''"
    then have "drop (length ?c - 1) ?c = ''.''" by (simp add: HasSuffix_def)
    then show False using ne by (metis last_drop last.simps length_greater_0_conv One_nat_def diff_less zero_less_one)
  qed
  ultimately show ?thesis unfolding CanonicalName_def [of ?c] by (simp add: TrimSuffix_def)
qed

lemma ascii_CanonicalName: "validName name = None \<Longrightarrow> ascii (CanonicalName name)"
  using label_char_plain [OF validName_chars] by (auto simp: ascii_def list_all_iff)

subsection \<open>Records on the wire\<close>

definition record_ok :: "NameRecord \<Rightarrow> bool" where
  "record_ok r \<longleftrightarrow> utf8 (nr_Name r) \<and> utf8 (nr_PublicKey r) \<and> utf8 (nr_Root r) \<and> int64 (nr_Version r)
     \<and> int64 (nr_Timestamp r) \<and> int64 (nr_TTL r) \<and> utf8 (nr_Sig r)"

lemma dec_enc_NameRecord:
  assumes "record_ok r"
  shows "Unmarshal dec_NameRecord (string_of_bytes (Marshal (enc_NameRecord r))) zero_NameRecord = Some r"
proof -
  have key: "to_valid k = k" if "k \<in> {''name'', ''pk'', ''root'', ''version'', ''ts'', ''ttl'', ''sig''}" for k
    using that by (auto intro!: to_valid_ascii simp: ascii_def)
  have "wire_ok (enc_NameRecord r)"
    using assms by (simp add: wire_ok_def enc_NameRecord_def key record_ok_def omit_def maxNestingDepth_def)
  then have "Unmarshal dec_NameRecord (print_json (enc_NameRecord r)) zero_NameRecord = dec_NameRecord (enc_NameRecord r) zero_NameRecord"
    by (rule Unmarshal_wire)
  also have "\<dots> = Some r" using assms
    by (simp add: dec_NameRecord_def dec_struct_def enc_NameRecord_def omit_def find_field_def field_def dec_string_def
        zero_NameRecord_def record_ok_def)
  finally show ?thesis by (simp add: Marshal_def)
qed

lemma record_Sign_Verify:
  assumes "prims_ok c" "identity_ok c i"
  shows "record_Verify c (record_Sign c r i)"
  using Sign_Verify [OF assms] PublicKeyFromHex_ToHex [OF PublicKey_length [OF assms]]
  by (simp add: record_Verify_def record_Sign_def Let_def)

lemma record_Sign_simps [simp]:
  "nr_Name (record_Sign c r i) = nr_Name r" "nr_Version (record_Sign c r i) = nr_Version r"
  "nr_Timestamp (record_Sign c r i) = nr_Timestamp r" "nr_TTL (record_Sign c r i) = nr_TTL r"
  "nr_Root (record_Sign c r i) = nr_Root r" "nr_PublicKey (record_Sign c r i) = PublicKeyToHex (PublicKey i)"
  by (simp_all add: record_Sign_def Let_def)

lemma record_Sign_ok: "record_ok r \<Longrightarrow> record_ok (record_Sign c r i)"
  by (simp add: record_ok_def record_Sign_def Let_def PublicKeyToHex_def Sign_def)

interpretation all_keeps: walk_invariant "visit_all key" env "\<lambda>_ acc. v \<in> set acc" "\<lambda>_. True" for key env v
  by unfold_locales (auto simp: visit_all_def list_all_iff split: prod.splits found.splits)

lemma GetAllUnverified_local:
  assumes "store_find (d_store d) key = Some v" "\<And>xs. set (order xs) = set xs"
  shows "\<exists>d' vs. GetAllUnverified h env order d key = (d', Inr vs) \<and> v \<in> set vs"
proof -
  let ?d1 = "d\<lparr>d_store := fst (store_Get (h_now h) (d_store d) key)\<rparr>"
  have g: "store_Get (h_now h) (d_store d) key = (fst (store_Get (h_now h) (d_store d) key), Some v)"
    using assms(1) by (simp add: prod_eq_iff store_find_def)
  obtain d2 all s2 q where w: "walk (visit_all key) (\<lambda>_. False) env key 0 [] (Closest (d_rt ?d1) key K) ?d1 [v] = (d2, all, s2, q)"
    by (metis prod_cases4)
  have "v \<in> set all" using all_keeps.walk_start(1) [OF w] by simp
  then have "GetAllUnverified h env order d key = (d2, Inr (order all))"
    unfolding GetAllUnverified_def by (subst g) (use w in \<open>auto simp: Let_def\<close>)
  then show ?thesis using \<open>v \<in> set all\<close> assms(2) by auto
qed

lemma Publish_Resolve_local:
  assumes "prims_ok (h_prims (pe_h pe))" and "identity_ok (h_prims (pe_h pe)) i"
    and "calm (pe_lookup pe)" and "calm (\<lambda>_. pe_store pe)" and "\<not> IsBlocked d (RecordKey (h_prims (pe_h pe)) name)"
    and "int64 version" and "int64 ttl" and "int64 (Unix (h_now (pe_h pe)))"
    and "PublishWithTTL pe d i name root version ttl = Inr (d1, rec)"
    and "h_prims h = h_prims (pe_h pe)" and "registrarAllowed tr (PublicKeyToHex (PublicKey i))"
    and "\<not> Expired rec (Unix (h_now h))" and "\<forall>xs. set (order xs) = set xs"
  shows "\<exists>d2 best. Resolve tr h env order d1 name = (d2, Inr best)
    \<and> version \<le> nr_Version best \<and> nr_Name best = CanonicalName name \<and> record_Verify (h_prims h) best
    \<and> registrarAllowed tr (nr_PublicKey best) \<and> \<not> Expired best (Unix (h_now h))"
proof -
  let ?c = "h_prims (pe_h pe)" and ?canon = "CanonicalName name"
  let ?r0 = "zero_NameRecord\<lparr>nr_Name := ?canon, nr_Root := Hex root, nr_Version := version,
    nr_Timestamp := Unix (h_now (pe_h pe)), nr_TTL := ttl\<rparr>"
  let ?blob = "Marshal (enc_NameRecord rec)"
  have valid: "validName name = None" and rec: "rec = record_Sign ?c ?r0 i"
    using assms(9) by (auto simp: PublishWithTTL_def Let_def split: option.splits if_splits sum.splits)
  obtain n where st: "Store (pe_h pe) (pe_lookup pe) (pe_store pe) d (RecordKey ?c name) ?blob = Inr (d1, n)"
    using assms(9) valid by (auto simp: PublishWithTTL_def Let_def rec split: if_splits sum.splits)
  have key: "RecordKey (h_prims h) ?canon = RecordKey ?c name"
    using CanonicalName_valid [OF valid] assms(10) by (simp add: RecordKey_def)
  have "store_find (d_store d1) (RecordKey (h_prims h) ?canon) = Some ?blob"
    using Store_calm [OF assms(3,4) st assms(5)] by (simp add: key store_Put_find)
  from GetAllUnverified_local [OF this, of order h env] assms(13) obtain d2 vs where
    g: "GetAllUnverified h env order d1 (RecordKey (h_prims h) ?canon) = (d2, Inr vs)" "?blob \<in> set vs" by auto
  have "record_ok ?r0"
    using assms(6-8) ascii_CanonicalName [OF valid] by (simp add: record_ok_def zero_NameRecord_def)
  from dec_enc_NameRecord [OF record_Sign_ok [OF this, of ?c i]]
  have "acceptable (h_prims h) tr (Unix (h_now h)) ?canon ?blob rec"
    using record_Sign_Verify [OF assms(1,2), of ?r0] assms(10-12) by (simp add: acceptable_def rec zero_NameRecord_def)
  then have mem: "rec \<in> accepted (h_prims h) tr (Unix (h_now h)) ?canon vs" using g(2) by (auto simp: accepted_def)
  obtain best e where p: "pickBestRecord (h_prims h) tr (Unix (h_now h)) ?canon vs = (Some best, e)"
    and best: "best \<in> accepted (h_prims h) tr (Unix (h_now h)) ?canon vs" "nr_Version rec \<le> nr_Version best"
    using pickBestRecord_newest [of "h_prims h" tr "Unix (h_now h)" ?canon vs] mem
    by (cases "pickBestRecord (h_prims h) tr (Unix (h_now h)) ?canon vs") (auto simp: newest_def split: option.splits)
  have "Resolve tr h env order d1 name = (d2, Inr best)" by (simp add: Resolve_def valid Let_def g(1) p)
  then show ?thesis using best by (auto simp: accepted_def acceptable_def rec zero_NameRecord_def)
qed

section \<open>Properties\<close>



lemma enc_NameRecord_length:
  "length (Marshal (enc_NameRecord r)) \<le> 80 + length (quote_body (nr_Name r)) + length (quote_body (nr_PublicKey r))
     + length (quote_body (nr_Root r)) + length (dec_int (nr_Version r)) + length (dec_int (nr_Timestamp r))
     + length (dec_int (nr_TTL r)) + length (quote_body (nr_Sig r))"
proof -
  have "quote_body k = k" if "k \<in> {''name'', ''pk'', ''root'', ''version'', ''ts'', ''ttl'', ''sig''}" for k
    using that by (auto simp: plain_char_def)
  then show ?thesis by (simp add: Marshal_def enc_NameRecord_def omit_def length_quote int_json_def)
qed


text \<open>
  When a record expires. If the end of its life is a 64-bit number, a record is refused exactly
  when it is dated more than \<open>MaxClockSkew\<close> ahead or, with a positive TTL, when the TTL has passed.
  If the sum overflows, the record counts as expired at every time after 1970: a huge TTL does not
  make a record immortal.
\<close>

theorem Expired_spec:
  assumes "int64 (nr_Timestamp r)" and "int64 (nr_TTL r)"
  shows "(int64 (nr_Timestamp r + nr_TTL r) \<longrightarrow>
      Expired r now = (now + MaxClockSkew < nr_Timestamp r \<or> (0 < nr_TTL r \<and> nr_Timestamp r + nr_TTL r < now)))
    \<and> (2 ^ 63 \<le> nr_Timestamp r + nr_TTL r \<and> 0 < nr_TTL r \<and> 0 \<le> now \<longrightarrow> Expired r now)"
proof -
  have "wrap64 x = x" if "int64 x" for x
    using that by (simp add: wrap64_def int64_def mod_pos_pos_trivial)
  moreover have "wrap64 x = x - 2 ^ 64" if "2 ^ 63 \<le> x" "x < 2 ^ 64" for x
  proof -
    have "(x + 2 ^ 63) mod 2 ^ 64 = (x + 2 ^ 63 - 2 ^ 64) mod 2 ^ 64" by (rule minus_mod_self2 [symmetric])
    also have "\<dots> = x - 2 ^ 63" using that by (simp add: mod_pos_pos_trivial)
    finally show ?thesis by (simp add: wrap64_def)
  qed
  ultimately show ?thesis using assms by (auto simp: Expired_def int64_def)
qed

theorem Expired_spec_witness:
  "Expired (zero_NameRecord\<lparr>nr_Timestamp := 100, nr_TTL := 10\<rparr>) 111
   \<and> \<not> Expired (zero_NameRecord\<lparr>nr_Timestamp := 100, nr_TTL := 10\<rparr>) 110"
  using Expired_spec [of "zero_NameRecord\<lparr>nr_Timestamp := 100, nr_TTL := 10\<rparr>" 111]
    Expired_spec [of "zero_NameRecord\<lparr>nr_Timestamp := 100, nr_TTL := 10\<rparr>" 110]
  by (simp add: int64_def zero_NameRecord_def MaxClockSkew_def)

text \<open>
  A valid name has one key. For a name that \<open>validName\<close> admits, canonicalising twice is the same
  as once, so that publishing under the name as given and resolving under its canonical form use the
  same DHT key, and the canonical form is valid too. For other names this fails: two trailing dots
  are removed one by one.
\<close>

theorem name_key:
  assumes "validName name = None"
  shows "RecordKey c (CanonicalName name) = RecordKey c name \<and> validName (CanonicalName name) = None
    \<and> CanonicalName (CanonicalName ''x..'') \<noteq> CanonicalName ''x..''"
proof -
  have "CanonicalName (CanonicalName ''x..'') \<noteq> CanonicalName ''x..''" by code_simp
  then show ?thesis using CanonicalName_valid [OF assms] assms by (simp add: RecordKey_def validName_def)
qed

theorem name_key_witness: "RecordKey toy_prims (CanonicalName '' Ab.alt. '') = RecordKey toy_prims '' Ab.alt. ''"
proof -
  have "validName '' Ab.alt. '' = None" by code_simp
  from name_key [OF this] show ?thesis by blast
qed

end
