(* ===== verification/Files.thy ===== *)
theory Files
  imports Dht_Lookup "HOL-Library.List_Lexorder" "HOL-Library.Char_ord"
begin

text \<open>
  \<^verbatim>\<open>apps/files\<close>: files as chunks and manifests, directories, and the reader that streams a file.

  What the package needs of the DHT to read is one function, \<open>Get\<close>; it is a parameter of the
  operations that read, so that they are verified against its contract, the locale \<open>verified_get\<close>,
  which the DHT of this development satisfies. A state of any type is passed through the calls.
  Publishing uses the local store of the DHT directly; the replication that \<open>publishStore\<close> starts in
  the background is the \<open>Replicate\<close> of the DHT and not waited for.
\<close>

section \<open>Definitions\<close>

subsection \<open>Files\<close>

definition ChunkSize :: nat where
  "ChunkSize = 64 * 1024"

record FileManifest =
  fm_Size :: int
  fm_Chunks :: "string list"

definition zero_FileManifest :: FileManifest where
  "zero_FileManifest = \<lparr>fm_Size = 0, fm_Chunks = []\<rparr>"

definition enc_FileManifest :: "FileManifest \<Rightarrow> json" where
  "enc_FileManifest m = JObj [(''size'', int_json (fm_Size m)), (''chunks'', JArr (map JStr (fm_Chunks m)))]"

definition dec_FileManifest :: "FileManifest field_dec" where
  "dec_FileManifest = dec_struct
     [(''size'', field dec_int64 fm_Size fm_Size_update),
      (''chunks'', field (dec_slice dec_string []) fm_Chunks fm_Chunks_update)]"

definition Manifest_Marshal :: "FileManifest \<Rightarrow> bytes" where
  "Manifest_Marshal m = Marshal (enc_FileManifest m)"

definition UnmarshalFileManifest :: "bytes \<Rightarrow> FileManifest option" where
  "UnmarshalFileManifest b = Unmarshal dec_FileManifest (string_of_bytes b) zero_FileManifest"

definition publishStore :: "henv \<Rightarrow> DHT \<Rightarrow> NodeID \<Rightarrow> bytes \<Rightarrow> local_error + DHT" where
  "publishStore h d key value = StoreLocal h d key value"

text \<open>The loop over the chunks: the store after it, and the keys in order.\<close>

function publish_chunks :: "henv \<Rightarrow> DHT \<Rightarrow> bytes \<Rightarrow> local_error + DHT \<times> string list" where
  "publish_chunks h d b =
     (if b = [] then Inr (d, [])
      else
        let chunk = take ChunkSize b;
            key = ContentAddress (sha256 (h_prims h)) chunk
        in case publishStore h d key chunk of
             Inl e \<Rightarrow> Inl e
           | Inr d1 \<Rightarrow> map_sum (\<lambda>e. e) (\<lambda>(d2, keys). (d2, Hex key # keys)) (publish_chunks h d1 (drop ChunkSize b)))"
  by pat_completeness auto
termination
  by (relation "measure (\<lambda>(_, _, b). length b)") (auto simp: ChunkSize_def)

declare publish_chunks.simps [simp del]

definition PublishBytes :: "henv \<Rightarrow> DHT \<Rightarrow> bytes \<Rightarrow> local_error + DHT \<times> FileManifest \<times> NodeID" where
  "PublishBytes h d b =
     (case publish_chunks h d b of
        Inl e \<Rightarrow> Inl e
      | Inr (d1, keys) \<Rightarrow>
          let manifest = \<lparr>fm_Size = int (length b), fm_Chunks = keys\<rparr>;
              blob = Manifest_Marshal manifest;
              manifestKey = ContentAddress (sha256 (h_prims h)) blob
          in map_sum (\<lambda>e. e) (\<lambda>d2. (d2, manifest, manifestKey)) (publishStore h d1 manifestKey blob))"

type_synonym 's getter = "'s \<Rightarrow> NodeID \<Rightarrow> 's \<times> (get_error + bytes)"

datatype file_error =
    FileGet get_error | FileManifestBad | FileKeyBad | FileSizeMismatch | FileChunkRange | FileChunkShort
  | FileEOF | FileBadWhence | FileNegative

fun fetch_chunks :: "'s getter \<Rightarrow> 's \<Rightarrow> string list \<Rightarrow> 's \<times> (file_error + bytes)" where
  "fetch_chunks get s [] = (s, Inr [])"
| "fetch_chunks get s (hexKey # keys) =
     (case IDFromHex hexKey of
        Inl _ \<Rightarrow> (s, Inl FileKeyBad)
      | Inr key \<Rightarrow>
          (case get s key of
             (s1, Inl e) \<Rightarrow> (s1, Inl (FileGet e))
           | (s1, Inr chunk) \<Rightarrow>
               (case fetch_chunks get s1 keys of (s2, r) \<Rightarrow> (s2, map_sum (\<lambda>e. e) (\<lambda>out. chunk @ out) r))))"

text \<open>
  \<open>FetchBytes\<close> allocates the size of the manifest before it fetches a chunk. \<^verbatim>\<open>make\<close> panics, \<open>None\<close>
  here, for a negative capacity and for one the allocator refuses, a parameter.
\<close>

definition FetchBytes :: "(int \<Rightarrow> bool) \<Rightarrow> 's getter \<Rightarrow> 's \<Rightarrow> NodeID \<Rightarrow> ('s \<times> (file_error + bytes)) option" where
  "FetchBytes alloc_ok get s manifestKey =
     (case get s manifestKey of
        (s1, Inl e) \<Rightarrow> Some (s1, Inl (FileGet e))
      | (s1, Inr blob) \<Rightarrow>
          (case UnmarshalFileManifest blob of
             None \<Rightarrow> Some (s1, Inl FileManifestBad)
           | Some m \<Rightarrow>
               if fm_Size m < 0 \<or> \<not> alloc_ok (fm_Size m) then None
               else Some (case fetch_chunks get s1 (fm_Chunks m) of
                            (s2, Inl e) \<Rightarrow> (s2, Inl e)
                          | (s2, Inr out) \<Rightarrow> (s2, if int (length out) \<noteq> fm_Size m then Inl FileSizeMismatch else Inr out))))"

subsection \<open>Streams\<close>

record ChunkReader =
  cr_manifest :: FileManifest
  cr_pos :: int
  cr_cachedIdx :: int
  cr_cachedChunk :: "bytes option"

definition NewChunkReader :: "'s getter \<Rightarrow> 's \<Rightarrow> NodeID \<Rightarrow> 's \<times> (file_error + ChunkReader)" where
  "NewChunkReader get s manifestKey =
     (case get s manifestKey of
        (s1, Inl e) \<Rightarrow> (s1, Inl (FileGet e))
      | (s1, Inr blob) \<Rightarrow>
          (s1, case UnmarshalFileManifest blob of
                 None \<Rightarrow> Inl FileManifestBad
               | Some m \<Rightarrow> Inr \<lparr>cr_manifest = m, cr_pos = 0, cr_cachedIdx = -1, cr_cachedChunk = None\<rparr>))"

definition cr_Size :: "ChunkReader \<Rightarrow> int" where
  "cr_Size cr = fm_Size (cr_manifest cr)"

definition fetchChunk :: "'s getter \<Rightarrow> 's \<Rightarrow> ChunkReader \<Rightarrow> int \<Rightarrow> 's \<times> ChunkReader \<times> (file_error + bytes)" where
  "fetchChunk get s cr idx =
     (case (if idx = cr_cachedIdx cr then cr_cachedChunk cr else None) of
        Some chunk \<Rightarrow> (s, cr, Inr chunk)
      | None \<Rightarrow>
          if idx < 0 \<or> idx \<ge> int (length (fm_Chunks (cr_manifest cr))) then (s, cr, Inl FileChunkRange)
          else case IDFromHex (fm_Chunks (cr_manifest cr) ! nat idx) of
                 Inl _ \<Rightarrow> (s, cr, Inl FileKeyBad)
               | Inr key \<Rightarrow>
                   (case get s key of
                      (s1, Inl e) \<Rightarrow> (s1, cr, Inl (FileGet e))
                    | (s1, Inr chunk) \<Rightarrow> (s1, cr\<lparr>cr_cachedIdx := idx, cr_cachedChunk := Some chunk\<rparr>, Inr chunk)))"

definition cr_Read :: "'s getter \<Rightarrow> 's \<Rightarrow> ChunkReader \<Rightarrow> nat \<Rightarrow> 's \<times> ChunkReader \<times> (file_error + bytes)" where
  "cr_Read get s cr n =
     (if cr_pos cr \<ge> cr_Size cr then (s, cr, Inl FileEOF)
      else if n = 0 then (s, cr, Inr [])
      else
        let chunkIdx = cr_pos cr div int ChunkSize;
            chunkOffset = nat (cr_pos cr mod int ChunkSize)
        in case fetchChunk get s cr chunkIdx of
             (s1, cr1, Inl e) \<Rightarrow> (s1, cr1, Inl e)
           | (s1, cr1, Inr chunk) \<Rightarrow>
               if chunkOffset \<ge> length chunk then (s1, cr1, Inl FileChunkShort)
               else
                 let bs = take n (drop chunkOffset chunk)
                 in (s1, cr1\<lparr>cr_pos := wrap64 (cr_pos cr1 + int (length bs))\<rparr>, Inr bs))"

datatype whence = SeekStart | SeekCurrent | SeekEnd | SeekOther

definition cr_Seek :: "ChunkReader \<Rightarrow> int \<Rightarrow> whence \<Rightarrow> ChunkReader \<times> (file_error + int)" where
  "cr_Seek cr offset w =
     (case (case w of
              SeekStart \<Rightarrow> Some offset
            | SeekCurrent \<Rightarrow> Some (wrap64 (cr_pos cr + offset))
            | SeekEnd \<Rightarrow> Some (wrap64 (cr_Size cr + offset))
            | SeekOther \<Rightarrow> None) of
        None \<Rightarrow> (cr, Inl FileBadWhence)
      | Some newPos \<Rightarrow> if newPos < 0 then (cr, Inl FileNegative) else (cr\<lparr>cr_pos := newPos\<rparr>, Inr newPos))"

subsection \<open>Directories\<close>

record DirEntry =
  de_Path :: string
  de_Size :: int
  de_ManifestKey :: string

definition zero_DirEntry :: DirEntry where
  "zero_DirEntry = \<lparr>de_Path = [], de_Size = 0, de_ManifestKey = []\<rparr>"

definition enc_DirEntry :: "DirEntry \<Rightarrow> json" where
  "enc_DirEntry e = JObj [(''path'', JStr (de_Path e)), (''size'', int_json (de_Size e)), (''manifest_key'', JStr (de_ManifestKey e))]"

definition dec_DirEntry :: "DirEntry field_dec" where
  "dec_DirEntry = dec_struct
     [(''path'', field dec_string de_Path de_Path_update),
      (''size'', field dec_int64 de_Size de_Size_update),
      (''manifest_key'', field dec_string de_ManifestKey de_ManifestKey_update)]"

text \<open>A directory is the list of its entries. A nil slice is printed as null.\<close>

definition enc_Directory :: "DirEntry list \<Rightarrow> json" where
  "enc_Directory es = JObj [(''entries'', if es = [] then JNull else JArr (map enc_DirEntry es))]"

definition dec_Directory :: "DirEntry list field_dec" where
  "dec_Directory = dec_struct [(''entries'', dec_slice dec_DirEntry zero_DirEntry)]"

definition Directory_Marshal :: "DirEntry list \<Rightarrow> bytes" where
  "Directory_Marshal es = Marshal (enc_Directory es)"

definition UnmarshalDirectory :: "bytes \<Rightarrow> DirEntry list option" where
  "UnmarshalDirectory b = Unmarshal dec_Directory (string_of_bytes b) []"

text \<open>
  What the walk over the tree finds, in its order: an error, something that is not a regular file, or
  a file with its relative path in forward slashes and its content, if it can be read.
\<close>

datatype walked = WalkError | WalkOther | WalkFile string "bytes option"

datatype publish_dir_error = DirStat | DirNotDir | DirWalk | DirRead string | DirPublish string local_error | DirStore local_error

fun publish_files :: "henv \<Rightarrow> DHT \<Rightarrow> walked list \<Rightarrow> publish_dir_error + DHT \<times> DirEntry list" where
  "publish_files h d [] = Inr (d, [])"
| "publish_files h d (WalkError # ws) = Inl DirWalk"
| "publish_files h d (WalkOther # ws) = publish_files h d ws"
| "publish_files h d (WalkFile rel content # ws) =
     (case content of
        None \<Rightarrow> Inl (DirRead rel)
      | Some b \<Rightarrow>
          (case PublishBytes h d b of
             Inl e \<Rightarrow> Inl (DirPublish rel e)
           | Inr (d1, m, key) \<Rightarrow>
               map_sum (\<lambda>e. e)
                 (\<lambda>(d2, es). (d2, \<lparr>de_Path = rel, de_Size = fm_Size m, de_ManifestKey = Hex key\<rparr> # es)) (publish_files h d1 ws)))"

text \<open>\<open>is_dir\<close> is the answer of \<^verbatim>\<open>os.Stat\<close>.\<close>

definition PublishDir :: "henv \<Rightarrow> DHT \<Rightarrow> bool option \<Rightarrow> walked list \<Rightarrow> publish_dir_error + DHT \<times> NodeID \<times> DirEntry list" where
  "PublishDir h d is_dir ws =
     (case is_dir of
        None \<Rightarrow> Inl DirStat
      | Some False \<Rightarrow> Inl DirNotDir
      | Some True \<Rightarrow>
          (case publish_files h d ws of
             Inl e \<Rightarrow> Inl e
           | Inr (d1, es) \<Rightarrow>
               let dir = sort_key de_Path es;
                   blob = Directory_Marshal dir;
                   rootKey = ContentAddress (sha256 (h_prims h)) blob
               in (case publishStore h d1 rootKey blob of Inl e \<Rightarrow> Inl (DirStore e) | Inr d2 \<Rightarrow> Inr (d2, rootKey, dir))))"

datatype fetch_dir_error =
    FetchMkdir | FetchGet get_error | FetchParse | FetchUnsafe string | FetchBadKey string | FetchFile string file_error
  | FetchSize string | FetchWrite string

definition unsafe_path :: "string \<Rightarrow> bool" where
  "unsafe_path p \<longleftrightarrow> Contains p ''..'' \<or> HasPrefix p ''/''"

text \<open>
  The loop that writes the files: the files written, by their paths relative to the destination, and
  the error that ended it, if any. \<open>mkdir_ok\<close> and \<open>write_ok\<close> tell which paths the file system refuses.
\<close>

fun fetch_entries ::
  "(int \<Rightarrow> bool) \<Rightarrow> (string \<Rightarrow> bool) \<Rightarrow> (string \<Rightarrow> bool) \<Rightarrow> 's getter \<Rightarrow> 's \<Rightarrow> DirEntry list
   \<Rightarrow> ('s \<times> (string \<times> bytes) list \<times> fetch_dir_error option) option" where
  "fetch_entries alloc_ok mkdir_ok write_ok get s [] = Some (s, [], None)"
| "fetch_entries alloc_ok mkdir_ok write_ok get s (e # es) =
     (if unsafe_path (de_Path e) then Some (s, [], Some (FetchUnsafe (de_Path e)))
      else case IDFromHex (de_ManifestKey e) of
        Inl _ \<Rightarrow> Some (s, [], Some (FetchBadKey (de_Path e)))
      | Inr key \<Rightarrow>
          (case FetchBytes alloc_ok get s key of
             None \<Rightarrow> None
           | Some (s1, Inl err) \<Rightarrow> Some (s1, [], Some (FetchFile (de_Path e) err))
           | Some (s1, Inr b) \<Rightarrow>
               if int (length b) \<noteq> de_Size e then Some (s1, [], Some (FetchSize (de_Path e)))
               else if \<not> mkdir_ok (de_Path e) then Some (s1, [], Some FetchMkdir)
               else if \<not> write_ok (de_Path e) then Some (s1, [], Some (FetchWrite (de_Path e)))
               else map_option (\<lambda>(s2, written, r). (s2, (de_Path e, b) # written, r))
                      (fetch_entries alloc_ok mkdir_ok write_ok get s1 es)))"

definition FetchDir ::
  "(int \<Rightarrow> bool) \<Rightarrow> bool \<Rightarrow> (string \<Rightarrow> bool) \<Rightarrow> (string \<Rightarrow> bool) \<Rightarrow> 's getter \<Rightarrow> 's \<Rightarrow> NodeID
   \<Rightarrow> ('s \<times> (string \<times> bytes) list \<times> fetch_dir_error option) option" where
  "FetchDir alloc_ok dest_ok mkdir_ok write_ok get s rootKey =
     (if \<not> dest_ok then Some (s, [], Some FetchMkdir)
      else case get s rootKey of
        (s1, Inl e) \<Rightarrow> Some (s1, [], Some (FetchGet e))
      | (s1, Inr blob) \<Rightarrow>
          (case UnmarshalDirectory blob of
             None \<Rightarrow> Some (s1, [], Some FetchParse)
           | Some es \<Rightarrow> fetch_entries alloc_ok mkdir_ok write_ok get s1 es))"

text \<open>
  \<open>Get\<close> of the DHT as such a function. The number counts the calls; each has its own time and
  network, and before it the node may have done something else. The node hashes with \<open>sha256 c\<close>
  throughout.
\<close>

record get_env =
  ge_henv :: henv
  ge_env :: "nat \<Rightarrow> round_env"
  ge_among :: "DHT \<Rightarrow> DHT"

definition dht_Get :: "prims \<Rightarrow> (nat \<Rightarrow> get_env) \<Rightarrow> (nat \<times> DHT) getter" where
  "dht_Get c E s key =
     (let e = E (fst s)
      in case getInner ((ge_henv e)\<lparr>h_prims := c\<rparr>) (\<lambda>r. (ge_env e r)\<lparr>re_prims := c\<rparr>) (ge_among e (snd s)) key True of
           (d, r) \<Rightarrow> ((fst s + 1, d), r))"

section \<open>What publishing stores\<close>

text \<open>The chunks of a file, its manifest, and all that is stored for it.\<close>

function chunks_of :: "bytes \<Rightarrow> bytes list" where
  "chunks_of b = (if b = [] then [] else take ChunkSize b # chunks_of (drop ChunkSize b))"
  by pat_completeness auto
termination
  by (relation "measure length") (auto simp: ChunkSize_def)

declare chunks_of.simps [simp del]

definition manifest_of :: "(bytes \<Rightarrow> bytes) \<Rightarrow> bytes \<Rightarrow> FileManifest" where
  "manifest_of sha b = \<lparr>fm_Size = int (length b), fm_Chunks = map (\<lambda>ch. Hex (ContentAddress sha ch)) (chunks_of b)\<rparr>"

definition manifest_blob :: "(bytes \<Rightarrow> bytes) \<Rightarrow> bytes \<Rightarrow> bytes" where
  "manifest_blob sha b = Manifest_Marshal (manifest_of sha b)"

definition file_key :: "(bytes \<Rightarrow> bytes) \<Rightarrow> bytes \<Rightarrow> NodeID" where
  "file_key sha b = ContentAddress sha (manifest_blob sha b)"

definition file_blobs :: "(bytes \<Rightarrow> bytes) \<Rightarrow> bytes \<Rightarrow> bytes list" where
  "file_blobs sha b = chunks_of b @ [manifest_blob sha b]"

definition store_blob :: "henv \<Rightarrow> bytes \<Rightarrow> DHT \<Rightarrow> DHT" where
  "store_blob h v d =
     (if IsBlocked d (ContentAddress (sha256 (h_prims h)) v) then d
      else d\<lparr>d_store := store_Put (h_keys h) (h_fault h) (h_now h) (d_store d) (ContentAddress (sha256 (h_prims h)) v) v\<rparr>)"

lemma chunks_of_Nil [simp]: "chunks_of [] = []"
  by (subst chunks_of.simps) simp

lemma chunks_of_length: "ch \<in> set (chunks_of b) \<Longrightarrow> 0 < length ch \<and> length ch \<le> ChunkSize"
proof (induction b rule: chunks_of.induct)
  case (1 b)
  then show ?case by (subst (asm) (2) chunks_of.simps) (auto simp: ChunkSize_def split: if_splits)
qed

lemma concat_chunks_of [simp]: "concat (chunks_of b) = b"
proof (induction b rule: chunks_of.induct)
  case (1 b)
  then show ?case by (subst chunks_of.simps) auto
qed

lemma ceil_div_step: "0 < n \<Longrightarrow> 0 < c \<Longrightarrow> (n + c - 1) div c = Suc ((n - c + c - 1) div c)" for n c :: nat
proof (cases "n \<le> c")
  case True
  assume "0 < n" "0 < c"
  with True have "n + c - 1 = (n - 1) + c" "(n - 1) div c = 0" "(c - 1) div c = 0" by auto
  with True \<open>0 < c\<close> show ?thesis by (simp only: div_add_self2) simp
next
  case False
  assume "0 < n" "0 < c"
  with False have "n + c - 1 = (n - c + c - 1) + c" by simp
  with \<open>0 < c\<close> show ?thesis by (simp only: div_add_self2)
qed

lemma length_chunks_of: "length (chunks_of b) = (length b + ChunkSize - 1) div ChunkSize"
proof (induction b rule: chunks_of.induct)
  case (1 b)
  have CS: "0 < ChunkSize" by (simp add: ChunkSize_def)
  show ?case
  proof (cases "b = []")
    case False
    then have "length (chunks_of b) = Suc ((length b - ChunkSize + ChunkSize - 1) div ChunkSize)"
      using 1 by (subst chunks_of.simps) simp
    with False ceil_div_step [OF _ CS, of "length b"] show ?thesis by simp
  qed (use CS in simp)
qed

text \<open>The bytes of a file from a position on lie in the chunk of this position and the later ones.\<close>

lemma chunk_of_position:
  "p < length b \<Longrightarrow> p div ChunkSize < length (chunks_of b)
     \<and> drop (p mod ChunkSize) (chunks_of b ! (p div ChunkSize)) = take (ChunkSize - p mod ChunkSize) (drop p b)"
proof (induction b arbitrary: p rule: chunks_of.induct)
  case (1 b)
  then have b: "b \<noteq> []" by auto
  have CS: "0 < ChunkSize" by (simp add: ChunkSize_def)
  have c: "chunks_of b = take ChunkSize b # chunks_of (drop ChunkSize b)" using b by (subst chunks_of.simps) simp
  show ?case
  proof (cases "p < ChunkSize")
    case True
    then show ?thesis by (simp add: c drop_take)
  next
    case False
    then have "p div ChunkSize = Suc ((p - ChunkSize) div ChunkSize)" "p mod ChunkSize = (p - ChunkSize) mod ChunkSize"
      using CS by (simp_all add: le_div_geq le_mod_geq)
    with False 1(1) [OF b, of "p - ChunkSize"] 1(2) show ?thesis by (simp add: c)
  qed
qed

lemma publish_chunks_eq:
  "publish_chunks h d b = Inr (fold (store_blob h) (chunks_of b) d,
     map (\<lambda>ch. Hex (ContentAddress (sha256 (h_prims h)) ch)) (chunks_of b))"
proof (induction h d b rule: publish_chunks.induct)
  case (1 h d b)
  show ?case
  proof (cases "b = []")
    case True
    then show ?thesis by (subst publish_chunks.simps) simp
  next
    case False
    let ?v = "take ChunkSize b"
    have s: "publishStore h d (ContentAddress (sha256 (h_prims h)) ?v) ?v = Inr (store_blob h ?v d)"
      by (simp add: publishStore_def StoreLocal_def store_blob_def ChunkSize_def MaxValueSize_def)
    from 1 [OF False refl refl s] False s show ?thesis
      by (subst publish_chunks.simps, subst (1 2) chunks_of.simps) (simp add: Let_def)
  qed
qed

lemma PublishBytes_eq:
  "PublishBytes h d b =
     (if length (manifest_blob (sha256 (h_prims h)) b) > MaxValueSize then Inl ErrValueTooLarge
      else Inr (fold (store_blob h) (file_blobs (sha256 (h_prims h)) b) d, manifest_of (sha256 (h_prims h)) b,
                file_key (sha256 (h_prims h)) b))"
  by (simp add: PublishBytes_def publish_chunks_eq publishStore_def StoreLocal_def Let_def file_blobs_def store_blob_def
      file_key_def manifest_blob_def manifest_of_def)

subsection \<open>Manifests on the wire\<close>

definition manifest_ok :: "FileManifest \<Rightarrow> bool" where
  "manifest_ok m \<longleftrightarrow> int64 (fm_Size m) \<and> list_all utf8 (fm_Chunks m)"

lemma Unmarshal_Manifest: "manifest_ok m \<Longrightarrow> UnmarshalFileManifest (Manifest_Marshal m) = Some m"
proof -
  assume ok: "manifest_ok m"
  have key: "to_valid ''size'' = ''size''" "to_valid ''chunks'' = ''chunks''"
    by (auto intro!: to_valid_ascii simp: ascii_def)
  have "wire_ok (enc_FileManifest m)"
    using ok by (simp add: wire_ok_def enc_FileManifest_def key manifest_ok_def maxNestingDepth_def map_utf8 comp_def list_all_iff foldr_max_le)
  then have "Unmarshal dec_FileManifest (print_json (enc_FileManifest m)) zero_FileManifest
      = dec_FileManifest (enc_FileManifest m) zero_FileManifest"
    by (rule Unmarshal_wire)
  also have "\<dots> = Some m" using ok
    by (simp add: dec_FileManifest_def dec_struct_def enc_FileManifest_def find_field_def field_def zero_FileManifest_def
        manifest_ok_def dec_slice_def dec_elems_strings)
  finally show ?thesis by (simp add: UnmarshalFileManifest_def Manifest_Marshal_def Marshal_def)
qed

lemma manifest_of_ok: "int64 (int (length b)) \<Longrightarrow> manifest_ok (manifest_of sha b)"
  by (simp add: manifest_ok_def manifest_of_def list_all_iff)

section \<open>Reading through a verified get\<close>

text \<open>
  The contract of \<open>Get\<close>: a value it returns hashes to the key. The readers need one thing more of the
  world they run in: that no value they are given is a second preimage of a blob of the file. It is
  stated for the values that are really returned in the states \<open>S\<close> of the run.
\<close>

definition no_clash :: "'s getter \<Rightarrow> (bytes \<Rightarrow> bytes) \<Rightarrow> bytes set \<Rightarrow> 's set \<Rightarrow> bool" where
  "no_clash get sha X S \<longleftrightarrow>
     (\<forall>s\<in>S. \<forall>key s' r. get s key = (s', r) \<longrightarrow>
        s' \<in> S \<and> (\<forall>v. r = Inr v \<longrightarrow> (\<forall>x\<in>X. ContentAddress sha v = ContentAddress sha x \<longrightarrow> v = x)))"

definition reader_ok :: "(bytes \<Rightarrow> bytes) \<Rightarrow> bytes \<Rightarrow> ChunkReader \<Rightarrow> bool" where
  "reader_ok sha b cr \<longleftrightarrow> cr_manifest cr = manifest_of sha b \<and> 0 \<le> cr_pos cr \<and> int64 (cr_pos cr)
     \<and> (\<forall>ch. cr_cachedChunk cr = Some ch \<longrightarrow> 0 \<le> cr_cachedIdx cr \<and> nat (cr_cachedIdx cr) < length (chunks_of b)
            \<and> ch = chunks_of b ! nat (cr_cachedIdx cr))"

text \<open>A file in memory with a position, which the reader of chunks implements.\<close>

definition file_Read :: "bytes \<Rightarrow> int \<Rightarrow> nat \<Rightarrow> int \<times> (file_error + bytes)" where
  "file_Read b pos n =
     (if int (length b) \<le> pos then (pos, Inl FileEOF)
      else let bs = take (min n (ChunkSize - nat pos mod ChunkSize)) (drop (nat pos) b)
           in (pos + int (length bs), Inr bs))"

definition file_Seek :: "bytes \<Rightarrow> int \<Rightarrow> int \<Rightarrow> whence \<Rightarrow> int \<times> (file_error + int)" where
  "file_Seek b pos offset w =
     (case (case w of
              SeekStart \<Rightarrow> Some offset
            | SeekCurrent \<Rightarrow> Some (wrap64 (pos + offset))
            | SeekEnd \<Rightarrow> Some (wrap64 (int (length b) + offset))
            | SeekOther \<Rightarrow> None) of
        None \<Rightarrow> (pos, Inl FileBadWhence)
      | Some newPos \<Rightarrow> if newPos < 0 then (pos, Inl FileNegative) else (newPos, Inr newPos))"

datatype reader_op = DoRead nat | DoSeek int whence
datatype reader_out = OutRead "file_error + bytes" | OutSeek "file_error + int"

fun reader_run :: "'s getter \<Rightarrow> 's \<Rightarrow> ChunkReader \<Rightarrow> reader_op list \<Rightarrow> reader_out list" where
  "reader_run get s cr [] = []"
| "reader_run get s cr (DoRead n # ops) =
     (case cr_Read get s cr n of (s1, cr1, r) \<Rightarrow> OutRead r # reader_run get s1 cr1 ops)"
| "reader_run get s cr (DoSeek offset w # ops) =
     (case cr_Seek cr offset w of (cr1, r) \<Rightarrow> OutSeek r # reader_run get s cr1 ops)"

fun get_failed :: "reader_out \<Rightarrow> bool" where
  "get_failed (OutRead (Inl (FileGet _))) = True"
| "get_failed _ = False"

fun as_file :: "bytes \<Rightarrow> int \<Rightarrow> reader_op list \<Rightarrow> reader_out list \<Rightarrow> bool" where
  "as_file b pos [] outs \<longleftrightarrow> outs = []"
| "as_file b pos (op # ops) [] \<longleftrightarrow> False"
| "as_file b pos (DoRead n # ops) (out # outs) \<longleftrightarrow>
     (if get_failed out then pos < int (length b) \<and> as_file b pos ops outs
      else case file_Read b pos n of (pos', r) \<Rightarrow> out = OutRead r \<and> as_file b pos' ops outs)"
| "as_file b pos (DoSeek offset w # ops) (out # outs) \<longleftrightarrow>
     (case file_Seek b pos offset w of (pos', r) \<Rightarrow> out = OutSeek r \<and> as_file b pos' ops outs)"

locale verified_get =
  fixes get :: "'s getter" and sha :: "bytes \<Rightarrow> bytes"
  assumes get_verified: "get s key = (s', Inr v) \<Longrightarrow> ContentAddress sha v = key"
begin

lemma get_blob:
  assumes "no_clash get sha X S" "s \<in> S" "x \<in> X" "get s (ContentAddress sha x) = (s', r)"
  shows "s' \<in> S" "r = Inr v \<Longrightarrow> v = x"
  using assms get_verified [of s "ContentAddress sha x" s'] by (fastforce simp: no_clash_def)+

lemma get_closed: "no_clash get sha X S \<Longrightarrow> s \<in> S \<Longrightarrow> get s k = (s', r) \<Longrightarrow> s' \<in> S"
  by (auto simp: no_clash_def)

lemma fetch_chunks_blobs:
  assumes "no_clash get sha X S"
  shows "s \<in> S \<Longrightarrow> set xs \<subseteq> X \<Longrightarrow> fetch_chunks get s (map (\<lambda>ch. Hex (ContentAddress sha ch)) xs) = (s', r) \<Longrightarrow>
    s' \<in> S \<and> (r = Inr (concat xs) \<or> (\<exists>g. r = Inl (FileGet g)))"
proof (induction xs arbitrary: s s' r)
  case (Cons x xs)
  obtain s1 r1 where g: "get s (ContentAddress sha x) = (s1, r1)" by fastforce
  note b = get_blob [OF assms Cons.prems(1) _ g]
  show ?case
  proof (cases r1)
    case (Inl e)
    with Cons.prems g b(1) show ?thesis by auto
  next
    case (Inr v)
    obtain s2 r2 where f: "fetch_chunks get s1 (map (\<lambda>ch. Hex (ContentAddress sha ch)) xs) = (s2, r2)" by fastforce
    have s1: "s1 \<in> S" and v: "v = x" using b Inr Cons.prems(2) by auto
    from Cons.IH [OF s1 _ f] Cons.prems v g f Inr show ?thesis by (cases r2) auto
  qed
qed simp

lemma FetchBytes_file:
  assumes nc: "no_clash get sha X S" and "s \<in> S" and "set (file_blobs sha b) \<subseteq> X" and "int64 (int (length b))"
    and f: "FetchBytes alloc_ok get s (file_key sha b) = Some (s', r)"
  shows "s' \<in> S \<and> (r = Inr b \<or> (\<exists>g. r = Inl (FileGet g)))"
proof -
  obtain s1 r1 where g: "get s (ContentAddress sha (manifest_blob sha b)) = (s1, r1)" by fastforce
  have mb: "manifest_blob sha b \<in> X" "set (chunks_of b) \<subseteq> X" using assms(3) by (auto simp: file_blobs_def)
  note b = get_blob [OF nc assms(2) mb(1) g]
  obtain s2 r2 where ch: "fetch_chunks get s1 (map (\<lambda>ch. Hex (ContentAddress sha ch)) (chunks_of b)) = (s2, r2)" by fastforce
  have um: "UnmarshalFileManifest (manifest_blob sha b) = Some (manifest_of sha b)"
    using Unmarshal_Manifest [OF manifest_of_ok [OF assms(4)]] by (simp add: manifest_blob_def)
  from fetch_chunks_blobs [OF nc b(1) mb(2) ch] f g ch um b
  show ?thesis by (cases r1; cases r2) (auto simp: FetchBytes_def file_key_def manifest_of_def split: if_splits)
qed

lemma FetchBytes_returns:
  assumes nc: "no_clash get sha X S" and "s \<in> S" and "set (file_blobs sha b) \<subseteq> X" and "int64 (int (length b))"
    and "alloc_ok (int (length b))"
  shows "FetchBytes alloc_ok get s (file_key sha b) \<noteq> None"
proof -
  obtain s1 r1 where g: "get s (ContentAddress sha (manifest_blob sha b)) = (s1, r1)" by fastforce
  have mb: "manifest_blob sha b \<in> X" using assms(3) by (auto simp: file_blobs_def)
  have um: "UnmarshalFileManifest (manifest_blob sha b) = Some (manifest_of sha b)"
    using Unmarshal_Manifest [OF manifest_of_ok [OF assms(4)]] by (simp add: manifest_blob_def)
  from get_blob [OF nc assms(2) mb g] g um assms(5)
  show ?thesis by (cases r1) (auto simp: FetchBytes_def file_key_def manifest_of_def)
qed

lemma NewChunkReader_ok:
  assumes nc: "no_clash get sha X S" and "s \<in> S" and "set (file_blobs sha b) \<subseteq> X" and "int64 (int (length b))"
    and n: "NewChunkReader get s (file_key sha b) = (s', Inr cr)"
  shows "s' \<in> S" "reader_ok sha b cr" "cr_pos cr = 0"
proof -
  obtain s1 r1 where g: "get s (ContentAddress sha (manifest_blob sha b)) = (s1, r1)" by fastforce
  have mb: "manifest_blob sha b \<in> X" using assms(3) by (auto simp: file_blobs_def)
  have um: "UnmarshalFileManifest (manifest_blob sha b) = Some (manifest_of sha b)"
    using Unmarshal_Manifest [OF manifest_of_ok [OF assms(4)]] by (simp add: manifest_blob_def)
  from get_blob [OF nc assms(2) mb g] g um n
  show "s' \<in> S" "reader_ok sha b cr" "cr_pos cr = 0"
    by (auto simp: NewChunkReader_def file_key_def reader_ok_def int64_def split: sum.splits)
qed

lemma fetchChunk_ok:
  assumes nc: "no_clash get sha X S" and "s \<in> S" and X: "set (chunks_of b) \<subseteq> X" and ok: "reader_ok sha b cr"
    and i: "0 \<le> idx" "nat idx < length (chunks_of b)" and f: "fetchChunk get s cr idx = (s', cr', r)"
  shows "s' \<in> S \<and> reader_ok sha b cr' \<and> cr_pos cr' = cr_pos cr
    \<and> (case r of Inl e \<Rightarrow> \<exists>g. e = FileGet g | Inr ch \<Rightarrow> ch = chunks_of b ! nat idx)"
proof (cases "idx = cr_cachedIdx cr \<and> cr_cachedChunk cr \<noteq> None")
  case True
  with f ok assms(2) show ?thesis by (auto simp: fetchChunk_def reader_ok_def)
next
  case False
  let ?x = "chunks_of b ! nat idx"
  obtain s1 r1 where g: "get s (ContentAddress sha ?x) = (s1, r1)" by fastforce
  have x: "?x \<in> X" using X i by auto
  have m: "fm_Chunks (cr_manifest cr) ! nat idx = Hex (ContentAddress sha ?x)"
    "length (fm_Chunks (cr_manifest cr)) = length (chunks_of b)"
    using ok i by (simp_all add: reader_ok_def manifest_of_def)
  have "(if idx = cr_cachedIdx cr then cr_cachedChunk cr else None) = None" "\<not> int (length (chunks_of b)) \<le> idx"
    using False i by auto
  with f g m i have "(s', cr', r) = (case r1 of Inl e \<Rightarrow> (s1, cr, Inl (FileGet e))
      | Inr ch \<Rightarrow> (s1, cr\<lparr>cr_cachedIdx := idx, cr_cachedChunk := Some ch\<rparr>, Inr ch))"
    by (auto simp: fetchChunk_def split: sum.splits)
  with get_blob [OF nc assms(2) x g] ok i show ?thesis by (auto simp: reader_ok_def split: sum.splits)
qed

lemma cr_Read_chunk:
  assumes ok: "reader_ok sha b cr" and len: "int64 (int (length b))" and lt: "cr_pos cr < int (length b)" and n: "n \<noteq> 0"
    and fc: "fetchChunk get s cr (int (nat (cr_pos cr) div ChunkSize)) = (s1, cr1, Inr (chunks_of b ! (nat (cr_pos cr) div ChunkSize)))"
    and ok1: "reader_ok sha b cr1" "cr_pos cr1 = cr_pos cr"
  obtains cr' bs where "cr_Read get s cr n = (s1, cr', Inr bs)" "reader_ok sha b cr'" "file_Read b (cr_pos cr) n = (cr_pos cr', Inr bs)"
proof -
  let ?p = "nat (cr_pos cr)" and ?ch = "chunks_of b ! (nat (cr_pos cr) div ChunkSize)"
  let ?bs = "take (min n (ChunkSize - ?p mod ChunkSize)) (drop ?p b)"
  have p: "0 \<le> cr_pos cr" "cr_Size cr = int (length b)" using ok by (simp_all add: reader_ok_def cr_Size_def manifest_of_def)
  have idx: "cr_pos cr div int ChunkSize = int (?p div ChunkSize)" "nat (cr_pos cr mod int ChunkSize) = ?p mod ChunkSize"
    using p(1) by (simp_all add: zdiv_int nat_mod_distrib)
  have lt': "?p < length b" using p lt by linarith
  note c = chunk_of_position [OF lt']
  have off: "?p mod ChunkSize < length ?ch"
  proof -
    have "0 < length (take (ChunkSize - ?p mod ChunkSize) (drop ?p b))" using lt' by (simp add: ChunkSize_def)
    then show ?thesis using c by (metis length_drop zero_less_diff)
  qed
  have bs: "take n (drop (?p mod ChunkSize) ?ch) = ?bs" using c by (simp add: min.commute)
  have "length ?bs \<le> length b - ?p" by simp
  with lt' p(1) have le: "cr_pos cr + int (length ?bs) \<le> int (length b)" by linarith
  with len p(1) have i64: "int64 (cr_pos cr + int (length ?bs))" by (auto simp: int64_def)
  have "\<not> length ?ch \<le> ?p mod ChunkSize" "\<not> cr_Size cr \<le> cr_pos cr" using off lt p(2) by auto
  then have "cr_Read get s cr n = (s1, cr1\<lparr>cr_pos := cr_pos cr + int (length ?bs)\<rparr>, Inr ?bs)"
    using n fc ok1(2) wrap64_id [OF i64] by (simp add: cr_Read_def Let_def idx bs del: length_take length_drop)
  moreover have "reader_ok sha b (cr1\<lparr>cr_pos := cr_pos cr + int (length ?bs)\<rparr>)"
    using ok1(1) p i64 by (simp add: reader_ok_def del: length_take length_drop)
  moreover have "file_Read b (cr_pos cr) n = (cr_pos (cr1\<lparr>cr_pos := cr_pos cr + int (length ?bs)\<rparr>), Inr ?bs)"
    using lt p by (simp add: file_Read_def Let_def del: length_take length_drop)
  ultimately show thesis by (rule that)
qed

lemma cr_Read_ok:
  assumes nc: "no_clash get sha X S" and "s \<in> S" and X: "set (chunks_of b) \<subseteq> X" and ok: "reader_ok sha b cr"
    and len: "int64 (int (length b))" and f: "cr_Read get s cr n = (s', cr', r)"
  shows "s' \<in> S \<and> reader_ok sha b cr'
    \<and> (if get_failed (OutRead r) then cr_pos cr < int (length b) \<and> cr_pos cr' = cr_pos cr
       else file_Read b (cr_pos cr) n = (cr_pos cr', r))"
proof -
  let ?p = "nat (cr_pos cr)"
  have p: "0 \<le> cr_pos cr" "cr_Size cr = int (length b)" using ok by (simp_all add: reader_ok_def cr_Size_def manifest_of_def)
  consider "int (length b) \<le> cr_pos cr" | "cr_pos cr < int (length b)" "n = 0" | "cr_pos cr < int (length b)" "n \<noteq> 0" by linarith
  then show ?thesis
  proof cases
    case 3
    then have lt: "?p < length b" using p by linarith
    have idx: "cr_pos cr div int ChunkSize = int (?p div ChunkSize)" using p(1) by (simp add: zdiv_int)
    note c = chunk_of_position [OF lt]
    obtain s1 cr1 r1 where fc: "fetchChunk get s cr (int (?p div ChunkSize)) = (s1, cr1, r1)" by (metis prod_cases3)
    note k = fetchChunk_ok [OF nc assms(2) X ok _ _ fc]
    show ?thesis
    proof (cases r1)
      case (Inl e)
      with k c f 3 p idx fc show ?thesis by (auto simp: cr_Read_def)
    next
      case (Inr ch)
      have ch: "ch = chunks_of b ! (?p div ChunkSize)" "cr_pos cr1 = cr_pos cr" "s1 \<in> S" "reader_ok sha b cr1" using k c Inr by auto
      obtain cr2 bs where "cr_Read get s cr n = (s1, cr2, Inr bs)" "reader_ok sha b cr2" "file_Read b (cr_pos cr) n = (cr_pos cr2, Inr bs)"
        using cr_Read_chunk [OF ok len 3 fc [unfolded Inr ch(1)] ch(4,2)] by metis
      with f ch(3) show ?thesis by auto
    qed
  qed (use f ok p assms(2) in \<open>auto simp: cr_Read_def file_Read_def\<close>)
qed

lemma cr_Seek_ok:
  assumes "reader_ok sha b cr" and "int64 offset" and "cr_Seek cr offset w = (cr', r)"
  shows "reader_ok sha b cr' \<and> file_Seek b (cr_pos cr) offset w = (cr_pos cr', r)"
proof -
  have "cr_Size cr = int (length b)" using assms(1) by (simp add: reader_ok_def cr_Size_def manifest_of_def)
  with assms show ?thesis
    by (cases w) (auto simp: cr_Seek_def file_Seek_def reader_ok_def split: if_splits)
qed

lemma reader_run_ok:
  assumes nc: "no_clash get sha X S" and X: "set (chunks_of b) \<subseteq> X" and len: "int64 (int (length b))"
  shows "s \<in> S \<Longrightarrow> reader_ok sha b cr \<Longrightarrow> (\<forall>offset w. DoSeek offset w \<in> set ops \<longrightarrow> int64 offset) \<Longrightarrow>
    as_file b (cr_pos cr) ops (reader_run get s cr ops)"
proof (induction ops arbitrary: s cr)
  case (Cons op ops)
  show ?case
  proof (cases op)
    case (DoRead n)
    obtain s1 cr1 r where r: "cr_Read get s cr n = (s1, cr1, r)" by (metis prod_cases3)
    from cr_Read_ok [OF nc Cons.prems(1) X Cons.prems(2) len r] Cons.IH [of s1 cr1] Cons.prems(3) DoRead r
    show ?thesis by (cases "get_failed (OutRead r)") auto
  next
    case (DoSeek offset w)
    obtain cr1 r where r: "cr_Seek cr offset w = (cr1, r)" by fastforce
    from cr_Seek_ok [OF Cons.prems(2) _ r] Cons.IH [of s cr1] Cons.prems DoSeek r show ?thesis by auto
  qed
qed simp

end

interpretation dht_get: verified_get "dht_Get c E" "sha256 c" for c E
proof
  fix s key s' v
  assume "dht_Get c E s key = (s', Inr v)"
  then obtain d where "getInner ((ge_henv (E (fst s)))\<lparr>h_prims := c\<rparr>) (\<lambda>r. (ge_env (E (fst s)) r)\<lparr>re_prims := c\<rparr>)
      (ge_among (E (fst s)) (snd s)) key True = (d, Inr v)"
    by (auto simp: dht_Get_def Let_def split: prod.splits)
  from getInner_verifies [OF this] show "ContentAddress (sha256 c) v = key" by simp
qed

section \<open>Reading what the node holds\<close>

definition holds :: "prims \<Rightarrow> DHT \<Rightarrow> bytes \<Rightarrow> bool" where
  "holds c d x \<longleftrightarrow> \<not> IsBlocked d (ContentAddress (sha256 c) x) \<and> store_find (d_store d) (ContentAddress (sha256 c) x) = Some x"

definition keeps :: "prims \<Rightarrow> (nat \<Rightarrow> get_env) \<Rightarrow> bytes set \<Rightarrow> bool" where
  "keeps c E X \<longleftrightarrow> (\<forall>n d x. x \<in> X \<longrightarrow> holds c d x \<longrightarrow> holds c (ge_among (E n) d) x)"

locale serving_get = verified_get +
  fixes H :: "'a \<Rightarrow> bool" and X :: "bytes set"
  assumes serves: "H s \<Longrightarrow> x \<in> X \<Longrightarrow> \<exists>s'. get s (ContentAddress sha x) = (s', Inr x) \<and> H s'"
begin

lemma fetch_chunks_serves:
  "H s \<Longrightarrow> set xs \<subseteq> X \<Longrightarrow>
   \<exists>s'. fetch_chunks get s (map (\<lambda>ch. Hex (ContentAddress sha ch)) xs) = (s', Inr (concat xs)) \<and> H s'"
proof (induction xs arbitrary: s)
  case (Cons x xs)
  from serves [of s x] Cons.prems obtain s1 where g: "get s (ContentAddress sha x) = (s1, Inr x)" "H s1" by auto
  from Cons.IH [OF g(2)] Cons.prems(2) g(1) show ?case by auto
qed simp

lemma fetchChunk_serves:
  assumes "H s" and X: "set (chunks_of b) \<subseteq> X" and ok: "reader_ok sha b cr" and i: "i < length (chunks_of b)"
  obtains s' cr' where "fetchChunk get s cr (int i) = (s', cr', Inr (chunks_of b ! i))" "H s'" "reader_ok sha b cr'" "cr_pos cr' = cr_pos cr"
proof (cases "int i = cr_cachedIdx cr \<and> cr_cachedChunk cr \<noteq> None")
  case True
  then have "nat (cr_cachedIdx cr) = i" by linarith
  with True ok have "cr_cachedChunk cr = Some (chunks_of b ! i)" by (auto simp: reader_ok_def)
  with True ok assms(1) that show thesis by (simp add: fetchChunk_def)
next
  case False
  let ?x = "chunks_of b ! i"
  have "?x \<in> X" using X i by auto
  from serves [OF assms(1) this] obtain s' where g: "get s (ContentAddress sha ?x) = (s', Inr ?x)" "H s'" by blast
  have m: "fm_Chunks (cr_manifest cr) ! i = Hex (ContentAddress sha ?x)"
    "length (fm_Chunks (cr_manifest cr)) = length (chunks_of b)"
    using ok i by (simp_all add: reader_ok_def manifest_of_def)
  have "(if int i = cr_cachedIdx cr then cr_cachedChunk cr else None) = None" using False by auto
  with g m i have "fetchChunk get s cr (int i) = (s', cr\<lparr>cr_cachedIdx := int i, cr_cachedChunk := Some ?x\<rparr>, Inr ?x)"
    by (simp add: fetchChunk_def)
  with g(2) ok i that show thesis by (auto simp: reader_ok_def)
qed

lemma cr_Read_serves:
  assumes "H s" and "set (chunks_of b) \<subseteq> X" and "reader_ok sha b cr" and "int64 (int (length b))"
    and "cr_pos cr < int (length b)" and "n \<noteq> 0"
  obtains s' cr' bs where "cr_Read get s cr n = (s', cr', Inr bs)" "H s'" "reader_ok sha b cr'" "file_Read b (cr_pos cr) n = (cr_pos cr', Inr bs)"
proof -
  have "nat (cr_pos cr) < length b" using assms(3,5) by (auto simp: reader_ok_def)
  note c = chunk_of_position [OF this]
  obtain s1 cr1 where fc: "fetchChunk get s cr (int (nat (cr_pos cr) div ChunkSize)) = (s1, cr1, Inr (chunks_of b ! (nat (cr_pos cr) div ChunkSize)))"
    "H s1" "reader_ok sha b cr1" "cr_pos cr1 = cr_pos cr"
    using fetchChunk_serves [OF assms(1-3)] c by metis
  show thesis using cr_Read_chunk [OF assms(3-6) fc(1,3,4)] that fc(2) by metis
qed

lemma FetchBytes_serves:
  assumes "H s" and "set (file_blobs sha b) \<subseteq> X" and "int64 (int (length b))" and "alloc_ok (int (length b))"
  shows "\<exists>s'. FetchBytes alloc_ok get s (file_key sha b) = Some (s', Inr b) \<and> H s'"
proof -
  have X: "manifest_blob sha b \<in> X" "set (chunks_of b) \<subseteq> X" using assms(2) by (auto simp: file_blobs_def)
  from serves [OF assms(1) X(1)] obtain s1 where g: "get s (file_key sha b) = (s1, Inr (manifest_blob sha b))" "H s1"
    by (auto simp: file_key_def)
  from fetch_chunks_serves [OF g(2) X(2)] obtain s2
    where f: "fetch_chunks get s1 (map (\<lambda>ch. Hex (ContentAddress sha ch)) (chunks_of b)) = (s2, Inr b)" "H s2" by auto
  have "UnmarshalFileManifest (manifest_blob sha b) = Some (manifest_of sha b)"
    using Unmarshal_Manifest [OF manifest_of_ok [OF assms(3)]] by (simp add: manifest_blob_def)
  with g f assms(4) show ?thesis by (simp add: FetchBytes_def manifest_of_def)
qed

end

lemma getInner_local:
  assumes "\<not> IsBlocked d key" "store_find (d_store d) key = Some v" "ContentAddress (sha256 (h_prims h)) v = key"
  shows "getInner h env d key True = (d\<lparr>d_store := fst (store_Get (h_now h) (d_store d) key)\<rparr>, Inr v)"
proof -
  have "store_Get (h_now h) (d_store d) key = (fst (store_Get (h_now h) (d_store d) key), Some v)"
    using assms(2) by (simp add: prod_eq_iff store_find_def)
  with assms(1,3) show ?thesis by (cases "store_Get (h_now h) (d_store d) key") (simp add: getInner_def Let_def)
qed

lemma dht_Get_local:
  assumes "keeps c E X" and "\<forall>x\<in>X. holds c d x" and "x \<in> X"
  shows "\<exists>d'. dht_Get c E (n, d) (ContentAddress (sha256 c) x) = ((n + 1, d'), Inr x) \<and> (\<forall>x\<in>X. holds c d' x)"
proof -
  let ?d = "ge_among (E n) d"
  have h: "\<forall>x\<in>X. holds c ?d x" using assms(1,2) by (auto simp: keeps_def)
  with assms(3) have x: "\<not> IsBlocked ?d (ContentAddress (sha256 c) x)" "store_find (d_store ?d) (ContentAddress (sha256 c) x) = Some x"
    by (auto simp: holds_def)
  from getInner_local [OF x, of "(ge_henv (E n))\<lparr>h_prims := c\<rparr>" "\<lambda>r. (ge_env (E n) r)\<lparr>re_prims := c\<rparr>"] h
  show ?thesis by (simp add: dht_Get_def holds_def store_find_def Let_def)
qed

interpretation local_get: serving_get "dht_Get c E" "sha256 c" "\<lambda>(n, d). keeps c E X \<and> (\<forall>x\<in>X. holds c d x)" X for c E X
proof
  fix s :: "nat \<times> DHT" and x
  assume h: "case s of (n, d) \<Rightarrow> keeps c E X \<and> (\<forall>x\<in>X. holds c d x)" and x: "x \<in> X"
  obtain n d where s: "s = (n, d)" by fastforce
  have k: "keeps c E X" "\<forall>x\<in>X. holds c d x" using h s by auto
  from dht_Get_local [OF k x, of n] k(1) s
  show "\<exists>s'. dht_Get c E s (ContentAddress (sha256 c) x) = (s', Inr x)
      \<and> (case s' of (n, d) \<Rightarrow> keeps c E X \<and> (\<forall>x\<in>X. holds c d x))" by fastforce
qed

lemma store_Put_other: "maxBytes s \<le> 0 \<Longrightarrow> j \<noteq> k \<Longrightarrow> store_find (store_Put ks f now s k v) j = store_find s j"
  by (simp add: store_Put_def put_cases over_quota_def put_locked_def Let_def store_find_def evictToFit_def Hex_inj)

lemma store_Put_maxBytes [simp]: "maxBytes (store_Put ks f now s k v) = maxBytes s"
  by (simp add: store_Put_def put_cases)

lemma store_blob_simps [simp]:
  "IsBlocked (store_blob h v d) k = IsBlocked d k" "maxBytes (d_store (store_blob h v d)) = maxBytes (d_store d)"
  by (simp_all add: store_blob_def)

lemma store_blob_holds:
  assumes "maxBytes (d_store d) \<le> 0" and "holds (h_prims h) d x \<or> x = v" and "\<not> IsBlocked d (ContentAddress (sha256 (h_prims h)) v)"
    and "ContentAddress (sha256 (h_prims h)) x = ContentAddress (sha256 (h_prims h)) v \<longrightarrow> x = v"
  shows "holds (h_prims h) (store_blob h v d) x"
  using assms by (cases "x = v") (auto simp: holds_def store_blob_def store_Put_find store_Put_other)

lemma fold_store_blob_holds:
  "maxBytes (d_store d) \<le> 0 \<Longrightarrow> \<forall>x\<in>Y. holds (h_prims h) d x \<Longrightarrow> \<forall>v\<in>set vs. \<not> IsBlocked d (ContentAddress (sha256 (h_prims h)) v) \<Longrightarrow>
   inj_on (ContentAddress (sha256 (h_prims h))) (Y \<union> set vs) \<Longrightarrow> \<forall>x\<in>Y \<union> set vs. holds (h_prims h) (fold (store_blob h) vs d) x"
proof (induction vs arbitrary: d Y)
  case (Cons v vs)
  have "\<forall>x\<in>insert v Y. holds (h_prims h) (store_blob h v d) x"
    using Cons.prems store_blob_holds [where d = d and h = h and v = v] by (auto simp: inj_on_def)
  with Cons.IH [of "store_blob h v d" "insert v Y"] Cons.prems show ?case by simp
qed simp

section \<open>Directories\<close>

definition files_of :: "walked list \<Rightarrow> (string \<times> bytes) list" where
  "files_of ws = concat (map (\<lambda>w. case w of WalkFile rel (Some b) \<Rightarrow> [(rel, b)] | _ \<Rightarrow> []) ws)"

definition entry_of :: "(bytes \<Rightarrow> bytes) \<Rightarrow> string \<times> bytes \<Rightarrow> DirEntry" where
  "entry_of sha = (\<lambda>(rel, b). \<lparr>de_Path = rel, de_Size = int (length b), de_ManifestKey = Hex (file_key sha b)\<rparr>)"

definition walk_fine :: "(bytes \<Rightarrow> bytes) \<Rightarrow> walked list \<Rightarrow> bool" where
  "walk_fine sha ws \<longleftrightarrow> (\<forall>w\<in>set ws. case w of WalkError \<Rightarrow> False | WalkOther \<Rightarrow> True | WalkFile rel None \<Rightarrow> False
      | WalkFile rel (Some b) \<Rightarrow> length (manifest_blob sha b) \<le> MaxValueSize)"

definition dir_of :: "(bytes \<Rightarrow> bytes) \<Rightarrow> (string \<times> bytes) list \<Rightarrow> DirEntry list" where
  "dir_of sha fs = map (entry_of sha) (sort_key fst fs)"

definition dir_blobs :: "(bytes \<Rightarrow> bytes) \<Rightarrow> (string \<times> bytes) list \<Rightarrow> bytes list" where
  "dir_blobs sha fs = concat (map (\<lambda>(rel, b). file_blobs sha b) fs) @ [Directory_Marshal (dir_of sha fs)]"

lemma files_of_simps [simp]:
  "files_of [] = []" "files_of (WalkError # ws) = files_of ws" "files_of (WalkOther # ws) = files_of ws"
  "files_of (WalkFile rel None # ws) = files_of ws" "files_of (WalkFile rel (Some b) # ws) = (rel, b) # files_of ws"
  by (simp_all add: files_of_def)

lemma walk_fine_simps [simp]:
  "walk_fine sha []" "\<not> walk_fine sha (WalkError # ws)" "walk_fine sha (WalkOther # ws) = walk_fine sha ws"
  "\<not> walk_fine sha (WalkFile rel None # ws)"
  "walk_fine sha (WalkFile rel (Some b) # ws) \<longleftrightarrow> length (manifest_blob sha b) \<le> MaxValueSize \<and> walk_fine sha ws"
  by (simp_all add: walk_fine_def)

lemma entry_of_simps [simp]: "de_Path (entry_of sha f) = fst f"
  by (simp add: entry_of_def split: prod.split)

lemma publish_files_iff:
  "publish_files h d ws = Inr (d', es) \<longleftrightarrow> walk_fine (sha256 (h_prims h)) ws
     \<and> d' = fold (store_blob h) (concat (map (\<lambda>(rel, b). file_blobs (sha256 (h_prims h)) b) (files_of ws))) d
     \<and> es = map (entry_of (sha256 (h_prims h))) (files_of ws)"
proof (induction h d ws arbitrary: d' es rule: publish_files.induct)
  case (4 h d rel content ws)
  show ?case
  proof (cases content)
    case (Some b)
    let ?sha = "sha256 (h_prims h)" and ?d1 = "fold (store_blob h) (file_blobs (sha256 (h_prims h)) b) d"
    show ?thesis
    proof (cases "length (manifest_blob ?sha b) > MaxValueSize")
      case False
      then have p: "PublishBytes h d b = Inr (?d1, manifest_of ?sha b, file_key ?sha b)" by (simp add: PublishBytes_eq)
      note IH = 4 [OF Some p refl refl]
      show ?thesis
      proof (cases "publish_files h ?d1 ws")
        case (Inl e)
        with IH have "\<not> walk_fine ?sha ws" by auto
        with Inl p Some show ?thesis by simp
      next
        case (Inr r)
        obtain d2 es2 where r: "r = (d2, es2)" by fastforce
        with IH [of d2 es2] Inr p Some False show ?thesis by (auto simp: entry_of_def manifest_of_def)
      qed
    qed (simp add: Some PublishBytes_eq)
  qed simp
qed auto

lemma sort_key_map: "sort_key f (map g xs) = map g (sort_key (\<lambda>x. f (g x)) xs)"
proof (rule properties_for_sort_key)
  have "filter (\<lambda>y. k = f (g y)) (sort_key (\<lambda>x. f (g x)) xs) = filter (\<lambda>y. k = f (g y)) xs" for k
    using sort_key_stable [of "\<lambda>x. f (g x)" k xs] by (simp add: eq_commute [of k])
  then show "filter (\<lambda>x. f k = f x) (map g (sort_key (\<lambda>x. f (g x)) xs)) = filter (\<lambda>x. f k = f x) (map g xs)" for k
    by (simp add: filter_map comp_def)
qed (simp_all add: comp_def)

lemma publishStore_blob:
  "publishStore h d (ContentAddress (sha256 (h_prims h)) v) v =
     (if MaxValueSize < length v then Inl ErrValueTooLarge else Inr (store_blob h v d))"
  by (simp add: publishStore_def StoreLocal_def store_blob_def)

lemma PublishDir_iff:
  "PublishDir h d (Some True) ws = Inr (d', key, dir) \<longleftrightarrow> walk_fine (sha256 (h_prims h)) ws
     \<and> length (Directory_Marshal (dir_of (sha256 (h_prims h)) (files_of ws))) \<le> MaxValueSize
     \<and> d' = fold (store_blob h) (dir_blobs (sha256 (h_prims h)) (files_of ws)) d
     \<and> dir = dir_of (sha256 (h_prims h)) (files_of ws) \<and> key = ContentAddress (sha256 (h_prims h)) (Directory_Marshal dir)"
proof -
  let ?sha = "sha256 (h_prims h)"
  have bad: "publish_files h d ws = Inl e \<Longrightarrow> \<not> walk_fine ?sha ws" for e using publish_files_iff [of h d ws] by auto
  have sorted: "sort_key de_Path (map (entry_of ?sha) fs) = dir_of ?sha fs" for fs by (simp add: sort_key_map dir_of_def)
  show ?thesis
  proof (cases "publish_files h d ws")
    case (Inl e)
    then show ?thesis using bad by (simp add: PublishDir_def)
  next
    case (Inr r)
    obtain d1 es where r: "r = (d1, es)" by fastforce
    with Inr have "walk_fine ?sha ws" "es = map (entry_of ?sha) (files_of ws)"
      "d1 = fold (store_blob h) (concat (map (\<lambda>(rel, b). file_blobs ?sha b) (files_of ws))) d"
      by (simp_all add: publish_files_iff)
    with Inr r show ?thesis by (auto simp: PublishDir_def Let_def sorted publishStore_blob dir_blobs_def)
  qed
qed

lemma dir_of_mset:
  assumes "mset ws = mset ws'" and "distinct (map fst (files_of ws))"
  shows "dir_of sha (files_of ws) = dir_of sha (files_of ws')"
proof -
  have "mset (files_of ws) = \<Sum>\<^sub># (image_mset (\<lambda>w. mset (case w of WalkFile rel (Some b) \<Rightarrow> [(rel, b)] | _ \<Rightarrow> [])) (mset ws))" for ws
    by (induction ws) (simp_all add: files_of_def)
  then have m: "mset (files_of ws) = mset (files_of ws')" using assms(1) by simp
  then have d: "distinct (map fst (files_of ws'))" using assms(2) by (metis mset_eq_imp_distinct_iff mset_map)
  have "sort_key fst (files_of ws) = sort_key fst (files_of ws')"
    using assms(2) d mset_eq_setD [OF m]
    by (intro map_sorted_distinct_set_unique [where f = fst]) (auto simp: distinct_map)
  then show ?thesis by (simp add: dir_of_def)
qed

lemma Unmarshal_Directory:
  assumes "\<forall>e\<in>set es. utf8 (de_Path e) \<and> int64 (de_Size e) \<and> utf8 (de_ManifestKey e)"
  shows "UnmarshalDirectory (Directory_Marshal es) = Some es"
proof -
  have key: "to_valid k = k" if "k \<in> {''entries'', ''path'', ''size'', ''manifest_key''}" for k
    using that by (auto intro!: to_valid_ascii simp: ascii_def)
  have e: "clean (enc_DirEntry x) = enc_DirEntry x" "nums_ok (enc_DirEntry x)" "json_depth (enc_DirEntry x) = 1"
    "dec_DirEntry (enc_DirEntry x) zero_DirEntry = Some x" if "x \<in> set es" for x
    using assms that by (simp_all add: enc_DirEntry_def key dec_DirEntry_def dec_struct_def find_field_def field_def dec_string_def zero_DirEntry_def)
  have "wire_ok (enc_Directory es)"
    using e by (auto simp: wire_ok_def enc_Directory_def key maxNestingDepth_def foldr_max_le list_all_iff comp_def)
  then have "Unmarshal dec_Directory (print_json (enc_Directory es)) [] = dec_Directory (enc_Directory es) []"
    by (rule Unmarshal_wire)
  also have "\<dots> = Some es"
    using e dec_elems_map [of es dec_DirEntry enc_DirEntry zero_DirEntry]
    by (simp add: dec_Directory_def enc_Directory_def dec_struct_def find_field_def dec_slice_def)
  finally show ?thesis by (simp add: UnmarshalDirectory_def Directory_Marshal_def Marshal_def)
qed

definition paths_ok :: "(string \<times> bytes) list \<Rightarrow> bool" where
  "paths_ok fs \<longleftrightarrow> (\<forall>(rel, b)\<in>set fs. utf8 rel \<and> int64 (int (length b)))"

lemma Unmarshal_dir_of: "paths_ok fs \<Longrightarrow> UnmarshalDirectory (Directory_Marshal (dir_of sha fs)) = Some (dir_of sha fs)"
  by (rule Unmarshal_Directory) (auto simp: paths_ok_def dir_of_def entry_of_def)

lemma dir_blobs_subset:
  "set (dir_blobs sha fs) \<subseteq> X \<longleftrightarrow> Directory_Marshal (dir_of sha fs) \<in> X \<and> (\<forall>(rel, b)\<in>set fs. set (file_blobs sha b) \<subseteq> X)"
  by (fastforce simp: dir_blobs_def)

lemma Contains_infix: "Contains (a @ p @ b) p"
proof (induction a)
  case Nil
  have "HasPrefix (p @ b) p" by (simp add: HasPrefix_def)
  then show ?case by (cases "p @ b") auto
qed simp

lemma Split_infix: "w \<in> set (Split s c) \<Longrightarrow> \<exists>a b. s = a @ w @ b"
proof (induction s c arbitrary: w rule: Split.induct)
  case (2 x xs c)
  obtain v vs where sp: "Split xs c = v # vs" by (cases "Split xs c") auto
  obtain b where v: "xs = v @ b" using Join_Split [of xs c] sp by (cases vs) auto
  show ?case
  proof (cases "w \<in> set (Split xs c)")
    case True
    with 2 obtain a b where "xs = a @ w @ b" by (cases "x = c") blast+
    then have "x # xs = (x # a) @ w @ b" by simp
    then show ?thesis by blast
  next
    case False
    with 2(3) sp have "w = [] \<or> w = x # v" by (auto split: if_splits)
    with v show ?thesis by (metis append_Cons append_Nil)
  qed
qed simp

lemma safe_path: "\<not> unsafe_path p \<Longrightarrow> ''..'' \<notin> set (Split p CHR ''/'') \<and> (p = [] \<or> hd p \<noteq> CHR ''/'')"
proof -
  assume s: "\<not> unsafe_path p"
  have "Contains p ''..''" if "''..'' \<in> set (Split p CHR ''/'')"
    using Split_infix [OF that] Contains_infix [of _ "''..''"] by blast
  with s show ?thesis by (cases p) (auto simp: unsafe_path_def HasPrefix_def)
qed

context verified_get
begin

lemma fetch_entries_files:
  assumes nc: "no_clash get sha X S"
  shows "s \<in> S \<Longrightarrow> \<forall>(rel, b)\<in>set fs. set (file_blobs sha b) \<subseteq> X \<Longrightarrow> paths_ok fs \<Longrightarrow>
    fetch_entries alloc_ok mkdir_ok write_ok get s (map (entry_of sha) fs) = Some (s', written, r) \<Longrightarrow>
    (\<exists>k. written = take k fs) \<and> (r = None \<longrightarrow> written = fs) \<and> (\<forall>f\<in>set written. \<not> unsafe_path (fst f))"
proof (induction fs arbitrary: s s' written r)
  case (Cons f fs)
  obtain rel b where f: "f = (rel, b)" by fastforce
  have l: "int64 (int (length b))" "set (file_blobs sha b) \<subseteq> X" using Cons.prems(2,3) f by (auto simp: paths_ok_def)
  show ?case
  proof (cases "unsafe_path rel")
    case True
    with Cons.prems(4) f show ?thesis by (auto simp: entry_of_def)
  next
    case safe: False
    from Cons.prems(4) f safe obtain s1 r1 where g: "FetchBytes alloc_ok get s (file_key sha b) = Some (s1, r1)"
      by (auto simp: entry_of_def split: option.splits)
    note F = FetchBytes_file [OF nc Cons.prems(1) l(2,1) g]
    show ?thesis
    proof (cases "r1 = Inr b \<and> mkdir_ok rel \<and> write_ok rel")
      case True
      with Cons.prems(4) f safe g obtain s2 written2
        where e: "fetch_entries alloc_ok mkdir_ok write_ok get s1 (map (entry_of sha) fs) = Some (s2, written2, r)" "written = f # written2"
        by (auto simp: entry_of_def)
      have "s1 \<in> S" "paths_ok fs" "\<forall>(rel, b)\<in>set fs. set (file_blobs sha b) \<subseteq> X"
        using F Cons.prems(2,3) by (auto simp: paths_ok_def)
      from Cons.IH [OF this(1,3,2) e(1)] obtain k where "written2 = take k fs" "r = None \<longrightarrow> written2 = fs"
        "\<forall>f\<in>set written2. \<not> unsafe_path (fst f)" by blast
      with e(2) f safe show ?thesis by (auto intro: exI [of _ "Suc k"])
    next
      case False
      with F Cons.prems(4) f safe g have "written = [] \<and> r \<noteq> None" by (auto simp: entry_of_def split: if_splits)
      then show ?thesis by (auto intro: exI [of _ 0])
    qed
  qed
qed simp

lemma FetchDir_files:
  assumes nc: "no_clash get sha X S" and "s \<in> S" and "set (dir_blobs sha fs) \<subseteq> X" and "paths_ok fs"
    and f: "FetchDir alloc_ok dest_ok mkdir_ok write_ok get s (ContentAddress sha (Directory_Marshal (dir_of sha fs))) = Some (s', written, r)"
  shows "(\<exists>k. written = take k (sort_key fst fs)) \<and> (r = None \<longrightarrow> written = sort_key fst fs) \<and> (\<forall>f\<in>set written. \<not> unsafe_path (fst f))"
proof (cases dest_ok)
  case True
  have X: "Directory_Marshal (dir_of sha fs) \<in> X" "\<forall>(rel, b)\<in>set fs. set (file_blobs sha b) \<subseteq> X"
    using assms(3) by (simp_all add: dir_blobs_subset)
  obtain s1 r1 where g: "get s (ContentAddress sha (Directory_Marshal (dir_of sha fs))) = (s1, r1)" by fastforce
  note b = get_blob [OF nc assms(2) X(1) g]
  show ?thesis
  proof (cases r1)
    case (Inl e)
    with f g True show ?thesis by (auto simp: FetchDir_def intro: exI [of _ 0])
  next
    case (Inr v)
    with b have "v = Directory_Marshal (dir_of sha fs)" by simp
    with f g True Inr have e: "fetch_entries alloc_ok mkdir_ok write_ok get s1 (map (entry_of sha) (sort_key fst fs)) = Some (s', written, r)"
      by (simp add: FetchDir_def Unmarshal_dir_of [OF assms(4)]) (simp add: dir_of_def)
    have "paths_ok (sort_key fst fs)" using assms(4) by (simp add: paths_ok_def)
    from fetch_entries_files [OF nc b(1) _ this e] X(2) show ?thesis by simp
  qed
qed (use f in \<open>auto simp: FetchDir_def intro: exI [of _ 0]\<close>)

end

context serving_get
begin

lemma fetch_entries_serves:
  "H s \<Longrightarrow> \<forall>(rel, b)\<in>set fs. set (file_blobs sha b) \<subseteq> X \<and> \<not> unsafe_path rel \<Longrightarrow> paths_ok fs \<Longrightarrow>
   \<exists>s'. fetch_entries (\<lambda>_. True) (\<lambda>_. True) (\<lambda>_. True) get s (map (entry_of sha) fs) = Some (s', fs, None) \<and> H s'"
proof (induction fs arbitrary: s)
  case (Cons f fs)
  obtain rel b where f: "f = (rel, b)" by fastforce
  from FetchBytes_serves [of s b "\<lambda>_. True"] Cons.prems f
  obtain s1 where g: "FetchBytes (\<lambda>_. True) get s (file_key sha b) = Some (s1, Inr b)" "H s1" by (auto simp: paths_ok_def)
  from Cons.IH [OF g(2)] Cons.prems obtain s2
    where "fetch_entries (\<lambda>_. True) (\<lambda>_. True) (\<lambda>_. True) get s1 (map (entry_of sha) fs) = Some (s2, fs, None)" "H s2"
    by (auto simp: paths_ok_def)
  with f g Cons.prems(2) show ?case by (auto simp: entry_of_def)
qed simp

lemma FetchDir_serves:
  assumes "H s" and "set (dir_blobs sha fs) \<subseteq> X" and "paths_ok fs" and "\<forall>(rel, b)\<in>set fs. \<not> unsafe_path rel"
  shows "\<exists>s'. FetchDir (\<lambda>_. True) True (\<lambda>_. True) (\<lambda>_. True) get s (ContentAddress sha (Directory_Marshal (dir_of sha fs)))
    = Some (s', sort_key fst fs, None) \<and> H s'"
proof -
  have X: "Directory_Marshal (dir_of sha fs) \<in> X" "\<forall>(rel, b)\<in>set (sort_key fst fs). set (file_blobs sha b) \<subseteq> X \<and> \<not> unsafe_path rel"
    "paths_ok (sort_key fst fs)"
    using assms(2-4) by (auto simp: dir_blobs_subset paths_ok_def)
  from serves [OF assms(1) X(1)] obtain s1
    where g: "get s (ContentAddress sha (Directory_Marshal (dir_of sha fs))) = (s1, Inr (Directory_Marshal (dir_of sha fs)))" "H s1" by auto
  from fetch_entries_serves [OF g(2) X(2,3)] g(1) show ?thesis
    by (simp add: FetchDir_def Unmarshal_dir_of [OF assms(3)]) (simp add: dir_of_def)
qed

end

section \<open>The size of a manifest\<close>

lemma length_dec_nat: "n < 10 ^ k \<Longrightarrow> 0 < k \<Longrightarrow> length (dec_nat n) \<le> k"
proof (induction k arbitrary: n)
  case (Suc k)
  show ?case
  proof (cases "n < 10")
    case False
    with Suc.prems have "n div 10 < 10 ^ k" "0 < k" by (auto simp: less_mult_imp_div_less mult.commute intro: ccontr)
    with Suc.IH [of "n div 10"] False show ?thesis by (subst dec_nat.simps) simp
  qed (subst dec_nat.simps, simp)
qed simp

lemma length_Join: "ws \<noteq> [] \<Longrightarrow> length (Join ws sep) = sum_list (map length ws) + (length ws - 1) * length sep"
  by (induction ws sep rule: Join.induct) auto

lemma length_manifest_blob:
  "length (manifest_blob sha b) = 21 + length (dec_nat (length b)) + (if b = [] then 0 else 67 * length (chunks_of b) - 1)"
proof -
  have q: "length (quote (Hex i)) = 66" for i by (simp add: length_quote Hex_def IDSize_def)
  have k: "length (quote ''size'') = 6" "length (quote ''chunks'') = 8" by code_simp+
  have "length (Join (map (\<lambda>ch. quote (Hex (ContentAddress sha ch))) cs) '','') = (if cs = [] then 0 else 67 * length cs - 1)" for cs
    by (cases "cs = []") (simp_all add: length_Join comp_def q sum_list_triv)
  moreover have "chunks_of b = [] \<longleftrightarrow> b = []" by (subst chunks_of.simps) simp
  ultimately show ?thesis
    by (simp add: manifest_blob_def Manifest_Marshal_def Marshal_def enc_FileManifest_def manifest_of_def int_json_def dec_int_def k comp_def)
qed

section \<open>Properties\<close>

text \<open>
  C14: what is read is what was published. A file is published, and later someone reads its key, with
  whatever the network answers and whatever the nodes have stored. The read ends without a panic, and
  either returns the file, or reports that a block could not be had: never other bytes. The
  assumption on hashing concerns only the values that are really returned: none of them is a second
  preimage of a block of the file.
\<close>

theorem file_integrity:
  assumes "PublishBytes h d b = Inr (d', m, key)" and "int64 (int (length b))" and "alloc_ok (int (length b))"
    and "no_clash (dht_Get (h_prims h) E) (sha256 (h_prims h)) (set (file_blobs (sha256 (h_prims h)) b)) S" and "s \<in> S"
  shows "\<exists>s' r. FetchBytes alloc_ok (dht_Get (h_prims h) E) s key = Some (s', r) \<and> (r = Inr b \<or> (\<exists>g. r = Inl (FileGet g)))"
proof -
  have key: "key = file_key (sha256 (h_prims h)) b" using assms(1) by (simp add: PublishBytes_eq split: if_splits)
  from dht_get.FetchBytes_returns [where alloc_ok = alloc_ok, OF assms(4,5) subset_refl assms(2,3)]
  obtain s' r where f: "FetchBytes alloc_ok (dht_Get (h_prims h) E) s (file_key (sha256 (h_prims h)) b) = Some (s', r)" by fastforce
  from dht_get.FetchBytes_file [OF assms(4,5) subset_refl assms(2) f] f key show ?thesis by blast
qed

text \<open>
  A node can read what it has published, without any peer. When the store has no budget and no
  block of the file is on the blocklist, every later read of the key by this node returns the file,
  whatever the node does in between that does not remove these blocks.
\<close>

theorem publish_fetch:
  assumes "PublishBytes h d b = Inr (d', m, key)" and "int64 (int (length b))" and "alloc_ok (int (length b))"
    and "maxBytes (d_store d) \<le> 0"
    and "\<forall>x\<in>set (file_blobs (sha256 (h_prims h)) b). \<not> IsBlocked d (ContentAddress (sha256 (h_prims h)) x)"
    and "inj_on (ContentAddress (sha256 (h_prims h))) (set (file_blobs (sha256 (h_prims h)) b))"
    and "keeps (h_prims h) E (set (file_blobs (sha256 (h_prims h)) b))"
  shows "\<exists>s'. FetchBytes alloc_ok (dht_Get (h_prims h) E) (n, d') key = Some (s', Inr b)"
proof -
  have p: "key = file_key (sha256 (h_prims h)) b" "d' = fold (store_blob h) (file_blobs (sha256 (h_prims h)) b) d"
    using assms(1) by (simp_all add: PublishBytes_eq split: if_splits)
  have "\<forall>x\<in>set (file_blobs (sha256 (h_prims h)) b). holds (h_prims h) d' x"
    using fold_store_blob_holds [OF assms(4) _ assms(5), of "{}"] assms(6) p(2) by simp
  with local_get.FetchBytes_serves [of "h_prims h" E "set (file_blobs (sha256 (h_prims h)) b)" "(n, d')" b alloc_ok] assms(2,3,7) p(1)
  show ?thesis by auto
qed

text \<open>
  C15: the reader of chunks is a file. Every sequence of reads and seeks on a reader that was opened
  on a published file gives the results that the same sequence gives on the bytes of the file in
  memory, except that a read inside the file may report that its chunk could not be had, and then
  leaves the position where it was. Seeks wrap at 64 bits as the code does.
\<close>

theorem stream_as_file:
  assumes "PublishBytes h d b = Inr (d', m, key)" and "int64 (int (length b))"
    and "no_clash (dht_Get (h_prims h) E) (sha256 (h_prims h)) (set (file_blobs (sha256 (h_prims h)) b)) S" and "s \<in> S"
    and "NewChunkReader (dht_Get (h_prims h) E) s key = (s', Inr cr)"
    and "\<forall>offset w. DoSeek offset w \<in> set ops \<longrightarrow> int64 offset"
  shows "as_file b 0 ops (reader_run (dht_Get (h_prims h) E) s' cr ops)"
proof -
  have "key = file_key (sha256 (h_prims h)) b" using assms(1) by (simp add: PublishBytes_eq split: if_splits)
  with dht_get.NewChunkReader_ok [OF assms(3,4) subset_refl assms(2)] assms(5)
  have cr: "s' \<in> S" "reader_ok (sha256 (h_prims h)) b cr" "cr_pos cr = 0" by auto
  have "set (chunks_of b) \<subseteq> set (file_blobs (sha256 (h_prims h)) b)" by (auto simp: file_blobs_def)
  from dht_get.reader_run_ok [OF assms(3) this assms(2) cr(1,2) assms(6)] cr(3) show ?thesis by simp
qed

text \<open>
  What can be published. Publishing fails exactly for files of more than 977 chunks, 64028672
  bytes: the manifest of a larger file, one key of 64 digits for each chunk, exceeds the size of a
  value, although nothing else in the package limits the size of a file.
\<close>

theorem publish_limit:
  "PublishBytes h d b = Inl ErrValueTooLarge \<longleftrightarrow> 64028672 < length b"
proof -
  let ?n = "length (chunks_of b)" and ?m = "length (manifest_blob (sha256 (h_prims h)) b)"
  have n: "?n = (length b + 65535) div 65536" by (simp add: length_chunks_of ChunkSize_def)
  have "MaxValueSize < ?m \<longleftrightarrow> 64028672 < length b"
  proof (cases "64028672 < length b")
    case True
    then have "978 \<le> ?n" using div_le_mono [of "978 * 65536" "length b + 65535" 65536] by (simp add: n)
    moreover have "0 < length (dec_nat (length b))" by (subst dec_nat.simps) simp
    ultimately have "MaxValueSize < ?m" using True by (auto simp: length_manifest_blob MaxValueSize_def)
    with True show ?thesis by simp
  next
    case False
    then have "?n \<le> 977" using div_le_mono [of "length b + 65535" "977 * 65536 + 65535" 65536] by (simp add: n)
    moreover have "length (dec_nat (length b)) \<le> 8" using False by (intro length_dec_nat) auto
    ultimately have "\<not> MaxValueSize < ?m" by (cases "b = []") (simp_all add: length_manifest_blob MaxValueSize_def)
    with False show ?thesis by simp
  qed
  then show ?thesis by (simp add: PublishBytes_eq)
qed

text \<open>
  The root of a directory depends on its files only. Whoever publishes the same files, in
  whatever order the file system lists them and whatever is stored already, gets the same root key
  and the same directory.
\<close>

theorem dir_order_independent:
  assumes "PublishDir h d (Some True) ws = Inr (d1, key, dir)" and "mset ws' = mset ws"
    and "distinct (map fst (files_of ws))" and "h_prims h' = h_prims h"
  shows "\<exists>d2. PublishDir h' d' (Some True) ws' = Inr (d2, key, dir)"
proof -
  have "walk_fine sha ws' = walk_fine sha ws" for sha
    using mset_eq_setD [OF assms(2)] by (simp add: walk_fine_def)
  moreover have "dir_of sha (files_of ws') = dir_of sha (files_of ws)" for sha
    using dir_of_mset [OF assms(2) [symmetric] assms(3)] by simp
  ultimately show ?thesis using assms(1,4) by (simp add: PublishDir_iff)
qed

text \<open>
  C35: fetching a directory writes published files below the destination and nothing else. The files
  written are the first ones of the sorted directory, with the bytes that were published, all of
  them when no error is reported; and no path leaves the destination: none is absolute and none has
  a component \<^verbatim>\<open>..\<close>. In particular a directory with a file whose name contains two dots can be
  published, but never fetched.
\<close>

theorem directory_integrity:
  assumes "PublishDir h d (Some True) ws = Inr (d', rootKey, dir)" and "paths_ok (files_of ws)"
    and "no_clash (dht_Get (h_prims h) E) (sha256 (h_prims h)) (set (dir_blobs (sha256 (h_prims h)) (files_of ws))) S" and "s \<in> S"
    and "FetchDir alloc_ok dest_ok mkdir_ok write_ok (dht_Get (h_prims h) E) s rootKey = Some (s', written, err)"
  shows "(\<exists>k. written = take k (sort_key fst (files_of ws))) \<and> (err = None \<longrightarrow> mset written = mset (files_of ws))
    \<and> (\<forall>(rel, b)\<in>set written. ''..'' \<notin> set (Split rel CHR ''/'') \<and> (rel = [] \<or> hd rel \<noteq> CHR ''/''))
    \<and> ((\<exists>(rel, b)\<in>set (files_of ws). Contains rel ''..'') \<longrightarrow> err \<noteq> None)"
proof -
  have key: "rootKey = ContentAddress (sha256 (h_prims h)) (Directory_Marshal (dir_of (sha256 (h_prims h)) (files_of ws)))"
    using assms(1) by (simp add: PublishDir_iff)
  note F = dht_get.FetchDir_files [OF assms(3,4) subset_refl assms(2) assms(5) [unfolded key]]
  have safe: "\<forall>(rel, b)\<in>set written. ''..'' \<notin> set (Split rel CHR ''/'') \<and> (rel = [] \<or> hd rel \<noteq> CHR ''/'')"
    using F safe_path by fastforce
  have dots: "err \<noteq> None" if "\<exists>(rel, b)\<in>set (files_of ws). Contains rel ''..''"
  proof
    assume "err = None"
    with F have "\<forall>f\<in>set (files_of ws). \<not> unsafe_path (fst f)" by auto
    with that show False by (auto simp: unsafe_path_def)
  qed
  from F safe dots show ?thesis by auto
qed

text \<open>
  A manifest with a negative size ends the program. Such a manifest is a value like any other: it
  is stored under its hash and passes every verification. A node that has it and is asked for the
  file panics when it allocates the buffer.
\<close>

theorem negative_size_panics:
  assumes "n < 0" and "int64 n" and "list_all utf8 ks" and "holds c d (Manifest_Marshal \<lparr>fm_Size = n, fm_Chunks = ks\<rparr>)"
    and "keeps c E {Manifest_Marshal \<lparr>fm_Size = n, fm_Chunks = ks\<rparr>}"
  shows "FetchBytes alloc_ok (dht_Get c E) (i, d) (ContentAddress (sha256 c) (Manifest_Marshal \<lparr>fm_Size = n, fm_Chunks = ks\<rparr>)) = None"
proof -
  let ?m = "\<lparr>fm_Size = n, fm_Chunks = ks\<rparr>"
  obtain d' where "dht_Get c E (i, d) (ContentAddress (sha256 c) (Manifest_Marshal ?m)) = ((i + 1, d'), Inr (Manifest_Marshal ?m))"
    using dht_Get_local [OF assms(5), of d "Manifest_Marshal ?m" i] assms(4) by auto
  moreover have "UnmarshalFileManifest (Manifest_Marshal ?m) = Some ?m"
    using assms(2,3) by (intro Unmarshal_Manifest) (simp add: manifest_ok_def)
  ultimately show ?thesis using assms(1) by (simp add: FetchBytes_def)
qed

subsection \<open>Witnesses\<close>

definition sample_manifest :: bytes where
  "sample_manifest = Manifest_Marshal \<lparr>fm_Size = 1, fm_Chunks = [Hex (id_copy (replicate 32 1))]\<rparr>"

definition sample_directory :: bytes where
  "sample_directory = Directory_Marshal [\<lparr>de_Path = ''a'', de_Size = 1, de_ManifestKey = Hex (id_copy (replicate 32 2))\<rparr>]"

definition sample_number :: "bytes \<Rightarrow> byte" where
  "sample_number v = (if v = [7] then 1 else if v = sample_manifest then 2 else if v = sample_directory then 3 else 0)"

definition file_prims :: prims where
  "file_prims = toy_prims\<lparr>sha256 := \<lambda>v. replicate 32 (sample_number v)\<rparr>"

definition file_henv :: henv where
  "file_henv = sample_henv\<lparr>h_prims := file_prims\<rparr>"

definition file_env :: "nat \<Rightarrow> get_env" where
  "file_env n = \<lparr>ge_henv = file_henv, ge_env = sample_env (\<lambda>_ _. Inl []) (\<lambda>_ d. d), ge_among = (\<lambda>d. d)\<rparr>"

lemma sample_address: "ContentAddress (sha256 file_prims) v = ContentAddress (sha256 file_prims) x \<longleftrightarrow> sample_number v = sample_number x"
proof -
  have "id_bytes (ContentAddress (sha256 file_prims) v) = replicate 32 (sample_number v)" for v
    by (simp add: ContentAddress_def file_prims_def id_bytes_id_copy IDSize_def)
  then show ?thesis by (metis NodeID_eq_iff nth_replicate zero_less_numeral)
qed

lemma sample_lengths: "length sample_manifest = 88" "length sample_directory = 117"
proof -
  have q: "length (quote (Hex i)) = 66" for i by (simp add: length_quote Hex_def IDSize_def)
  have k: "length (quote ''size'') = 6" "length (quote ''chunks'') = 8" "length (quote ''entries'') = 9" "length (quote ''path'') = 6"
    "length (quote ''a'') = 3" "length (quote ''manifest_key'') = 14" "length (dec_int 1) = 1" by code_simp+
  show "length sample_manifest = 88" "length sample_directory = 117"
    by (simp_all add: sample_manifest_def sample_directory_def Manifest_Marshal_def Directory_Marshal_def Marshal_def enc_FileManifest_def
        enc_Directory_def enc_DirEntry_def int_json_def k q)
qed

lemma sample_blobs_distinct: "[7] \<noteq> sample_manifest" "[7] \<noteq> sample_directory" "sample_manifest \<noteq> sample_directory"
proof -
  from sample_lengths have l: "length sample_manifest \<noteq> length ([7] :: bytes)" "length sample_directory \<noteq> length ([7] :: bytes)"
    "length sample_manifest \<noteq> length sample_directory" by simp_all
  show "[7] \<noteq> sample_manifest" using l(1) by metis
  show "[7] \<noteq> sample_directory" using l(2) by metis
  show "sample_manifest \<noteq> sample_directory" using l(3) by metis
qed

lemma sample_blobs:
  "file_blobs (sha256 file_prims) [7] = [[7], sample_manifest]"
  "dir_blobs (sha256 file_prims) [(''a'', [7])] = [[7], sample_manifest, sample_directory]"
proof -
  have c: "chunks_of [7] = [[7]]" by (subst chunks_of.simps) (simp add: ChunkSize_def)
  have n: "sha256 file_prims [7] = replicate 32 1" "sha256 file_prims sample_manifest = replicate 32 2"
    using sample_blobs_distinct by (auto simp: file_prims_def sample_number_def)
  have m: "manifest_blob (sha256 file_prims) [7] = sample_manifest"
    by (simp add: manifest_blob_def manifest_of_def sample_manifest_def c ContentAddress_def n(1))
  then show f: "file_blobs (sha256 file_prims) [7] = [[7], sample_manifest]" by (simp add: file_blobs_def c)
  have "file_key (sha256 file_prims) [7] = id_copy (replicate 32 2)" by (simp add: file_key_def m ContentAddress_def n(2))
  then show "dir_blobs (sha256 file_prims) [(''a'', [7])] = [[7], sample_manifest, sample_directory]"
    by (simp add: dir_blobs_def f dir_of_def entry_of_def sample_directory_def)
qed

lemma sample_no_clash: "no_clash get (sha256 file_prims) {[7], sample_manifest, sample_directory} UNIV"
  using sample_blobs_distinct by (auto simp: no_clash_def sample_address sample_number_def split: if_splits)

lemma sample_inj: "inj_on (ContentAddress (sha256 file_prims)) {[7], sample_manifest, sample_directory}"
  using sample_blobs_distinct by (auto simp: inj_on_def sample_address sample_number_def split: if_splits)

lemma no_clash_mono: "no_clash get sha X S \<Longrightarrow> Y \<subseteq> X \<Longrightarrow> no_clash get sha Y S"
  by (fastforce simp: no_clash_def)

lemma file_env_keeps [simp]: "keeps c file_env X"
  by (simp add: keeps_def file_env_def)

lemma sample_dht_simps: "\<not> IsBlocked sample_dht k" "maxBytes (d_store sample_dht) = 0"
  by (simp_all add: sample_dht_def IsBlocked_def newLocalStore_def)

lemma file_henv_prims [simp]: "h_prims file_henv = file_prims"
  by (simp add: file_henv_def)

definition sample_published :: DHT where
  "sample_published = fold (store_blob file_henv) [[7], sample_manifest] sample_dht"

lemma sample_publish:
  "\<exists>m. PublishBytes file_henv sample_dht [7] = Inr (sample_published, m, file_key (sha256 file_prims) [7])"
proof -
  have "length (manifest_blob (sha256 file_prims) [7]) \<le> MaxValueSize"
    using length_dec_nat [of 1 1] by (simp add: length_manifest_blob length_chunks_of ChunkSize_def MaxValueSize_def)
  then show ?thesis by (simp add: PublishBytes_eq sample_blobs sample_published_def)
qed

lemma sample_published_holds: "\<forall>x\<in>{[7], sample_manifest}. holds file_prims sample_published x"
  using fold_store_blob_holds [of sample_dht "{}" file_henv "[[7], sample_manifest]"] sample_inj sample_dht_simps
  by (simp add: sample_published_def inj_on_def)

theorem publish_fetch_witness:
  "\<exists>s'. FetchBytes (\<lambda>_. True) (dht_Get file_prims file_env) (0, sample_published) (file_key (sha256 file_prims) [7]) = Some (s', Inr [7])"
proof -
  obtain m where p: "PublishBytes file_henv sample_dht [7] = Inr (sample_published, m, file_key (sha256 file_prims) [7])"
    using sample_publish by blast
  have "inj_on (ContentAddress (sha256 file_prims)) {[7], sample_manifest}" using sample_inj by (simp add: inj_on_def)
  with publish_fetch [OF p, where alloc_ok = "\<lambda>_. True" and n = 0 and E = file_env] show ?thesis
    by (simp add: sample_dht_simps sample_blobs int64_def)
qed

theorem file_integrity_witness:
  "\<exists>s' r. FetchBytes (\<lambda>_. True) (dht_Get file_prims file_env) (0, sample_dht) (file_key (sha256 file_prims) [7]) = Some (s', r)
     \<and> (r = Inr [7] \<or> (\<exists>g. r = Inl (FileGet g)))"
proof -
  obtain m where p: "PublishBytes file_henv sample_dht [7] = Inr (sample_published, m, file_key (sha256 file_prims) [7])"
    using sample_publish by blast
  have "no_clash (dht_Get file_prims file_env) (sha256 file_prims) {[7], sample_manifest} UNIV"
    by (rule no_clash_mono [OF sample_no_clash]) simp
  with file_integrity [OF p, where alloc_ok = "\<lambda>_. True" and s = "(0, sample_dht)" and S = UNIV and E = file_env] show ?thesis
    by (simp add: sample_blobs int64_def)
qed

theorem stream_as_file_witness:
  "\<exists>s' cr. NewChunkReader (dht_Get file_prims file_env) (0, sample_published) (file_key (sha256 file_prims) [7]) = (s', Inr cr)
     \<and> as_file [7] 0 [DoSeek 1 SeekStart, DoRead 4, DoSeek 0 SeekStart, DoRead 4]
         (reader_run (dht_Get file_prims file_env) s' cr [DoSeek 1 SeekStart, DoRead 4, DoSeek 0 SeekStart, DoRead 4])"
proof -
  obtain m where p: "PublishBytes file_henv sample_dht [7] = Inr (sample_published, m, file_key (sha256 file_prims) [7])"
    using sample_publish by blast
  have mb: "manifest_blob (sha256 file_prims) [7] = sample_manifest" using sample_blobs(1) by (simp add: file_blobs_def)
  obtain d' where g: "dht_Get file_prims file_env (0, sample_published) (file_key (sha256 file_prims) [7]) = ((1, d'), Inr sample_manifest)"
    using dht_Get_local [of file_prims file_env "{[7], sample_manifest}" sample_published sample_manifest 0] sample_published_holds
    by (auto simp: file_key_def mb)
  have "UnmarshalFileManifest sample_manifest = Some (manifest_of (sha256 file_prims) [7])"
    using Unmarshal_Manifest [OF manifest_of_ok, of "[7]" "sha256 file_prims"] mb by (simp add: manifest_blob_def int64_def)
  with g obtain cr where cr: "NewChunkReader (dht_Get file_prims file_env) (0, sample_published) (file_key (sha256 file_prims) [7]) = ((1, d'), Inr cr)"
    by (simp add: NewChunkReader_def)
  have "no_clash (dht_Get file_prims file_env) (sha256 file_prims) {[7], sample_manifest} UNIV"
    by (rule no_clash_mono [OF sample_no_clash]) simp
  with stream_as_file [OF p, where S = UNIV and E = file_env and s = "(0, sample_published)" and cr = cr and s' = "(1, d')"
      and ops = "[DoSeek 1 SeekStart, DoRead 4, DoSeek 0 SeekStart, DoRead 4]"] cr
  show ?thesis by (fastforce simp: sample_blobs int64_def simp del: reader_run.simps as_file.simps)
qed

lemma sample_publish_dir:
  "\<exists>d'. PublishDir file_henv sample_dht (Some True) [WalkOther, WalkFile ''a'' (Some [7])]
    = Inr (d', ContentAddress (sha256 file_prims) sample_directory, dir_of (sha256 file_prims) [(''a'', [7])])"
proof -
  have "Directory_Marshal (dir_of (sha256 file_prims) [(''a'', [7])]) = sample_directory"
    using sample_blobs by (simp add: dir_blobs_def)
  moreover have "length (manifest_blob (sha256 file_prims) [7]) \<le> MaxValueSize"
    using length_dec_nat [of 1 1] by (simp add: length_manifest_blob length_chunks_of ChunkSize_def MaxValueSize_def)
  moreover have "length sample_directory \<le> MaxValueSize" by (simp add: sample_lengths MaxValueSize_def)
  ultimately show ?thesis by (simp add: PublishDir_iff)
qed

theorem dir_order_independent_witness:
  "\<exists>d2 key dir. PublishDir file_henv sample_published (Some True) [WalkFile ''a'' (Some [7]), WalkOther] = Inr (d2, key, dir)"
proof -
  obtain d' where "PublishDir file_henv sample_dht (Some True) [WalkOther, WalkFile ''a'' (Some [7])]
    = Inr (d', ContentAddress (sha256 file_prims) sample_directory, dir_of (sha256 file_prims) [(''a'', [7])])"
    using sample_publish_dir by blast
  from dir_order_independent [OF this, of "[WalkFile ''a'' (Some [7]), WalkOther]" file_henv sample_published] show ?thesis by auto
qed

theorem directory_integrity_witness:
  "\<exists>s'. FetchDir (\<lambda>_. True) True (\<lambda>_. True) (\<lambda>_. True) (dht_Get file_prims file_env)
      (0, fold (store_blob file_henv) [[7], sample_manifest, sample_directory] sample_dht) (ContentAddress (sha256 file_prims) sample_directory)
    = Some (s', [(''a'', [7])], None) \<and> ''..'' \<notin> set (Split ''a'' CHR ''/'')"
proof -
  let ?ws = "[WalkOther, WalkFile ''a'' (Some [7])]" and ?d = "fold (store_blob file_henv) [[7], sample_manifest, sample_directory] sample_dht"
  obtain d' where p: "PublishDir file_henv sample_dht (Some True) ?ws
    = Inr (d', ContentAddress (sha256 file_prims) sample_directory, dir_of (sha256 file_prims) [(''a'', [7])])"
    using sample_publish_dir by blast
  have ok: "paths_ok (files_of ?ws)" by (simp add: paths_ok_def int64_def) (simp add: ascii_def)
  have dir: "Directory_Marshal (dir_of (sha256 file_prims) [(''a'', [7])]) = sample_directory"
    using sample_blobs by (simp add: dir_blobs_def)
  have "\<forall>x\<in>{[7], sample_manifest, sample_directory}. holds file_prims ?d x"
    using fold_store_blob_holds [of sample_dht "{}" file_henv "[[7], sample_manifest, sample_directory]"] sample_inj sample_dht_simps by simp
  with local_get.FetchDir_serves [of file_prims file_env "{[7], sample_manifest, sample_directory}" "(0, ?d)" "[(''a'', [7])]"] ok
  obtain s' where f: "FetchDir (\<lambda>_. True) True (\<lambda>_. True) (\<lambda>_. True) (dht_Get file_prims file_env) (0, ?d)
      (ContentAddress (sha256 file_prims) sample_directory) = Some (s', [(''a'', [7])], None)"
    by (auto simp: sample_blobs dir unsafe_path_def HasPrefix_def)
  from directory_integrity [OF p ok _ _, of file_env UNIV "(0, ?d)"] f sample_no_clash [of "dht_Get file_prims file_env"]
  show ?thesis by (fastforce simp: sample_blobs)
qed

theorem negative_size_panics_witness:
  "FetchBytes (\<lambda>_. True) (dht_Get toy_prims file_env) (0, store_blob sample_henv (Manifest_Marshal \<lparr>fm_Size = -1, fm_Chunks = []\<rparr>) sample_dht)
     (ContentAddress (sha256 toy_prims) (Manifest_Marshal \<lparr>fm_Size = -1, fm_Chunks = []\<rparr>)) = None"
proof -
  let ?v = "Manifest_Marshal \<lparr>fm_Size = -1, fm_Chunks = []\<rparr>"
  have "holds toy_prims (store_blob sample_henv ?v sample_dht) ?v"
    using store_blob_holds [of sample_dht sample_henv ?v ?v] sample_dht_simps by (simp add: sample_henv_def)
  from negative_size_panics [OF _ _ _ this] show ?thesis by (simp add: int64_def)
qed

end
