(* ===== verification/Site_Stats.thy ===== *)
theory Site_Stats
  imports Go_Prelude "HOL-Library.FSet"
begin

text \<open>
  \<^verbatim>\<open>apps/sitestats/sitestats.go\<close>: the counters that the gateway writes and the registrar reads. The
  map of counters is a finite map, the set of addresses of a site a finite set; counters are 64-bit
  integers that wrap around. The clock is an argument.
\<close>

section \<open>Definitions\<close>

record Snapshot =
  ss_Name :: string
  ss_Requests :: int
  ss_Bytes :: int
  ss_UniqueIPs :: nat
  ss_LastSeenUnix :: int

record SiteCounter =
  sc_requests :: int
  sc_bytes :: int
  sc_lastSeen :: int
  sc_ips :: "string fset"

record Stats =
  maxIPsPerSite :: nat
  sites :: "(string, SiteCounter) fmap"

definition stats_New :: Stats where
  "stats_New = \<lparr>maxIPsPerSite = 10000, sites = fmempty\<rparr>"

definition stats_Record :: "int \<Rightarrow> Stats \<Rightarrow> string \<Rightarrow> string \<Rightarrow> int \<Rightarrow> Stats" where
  "stats_Record now s name remoteIP bytesServed =
     (if name = [] then s
      else
        let c = (case fmlookup (sites s) name of
                   Some c \<Rightarrow> c
                 | None \<Rightarrow> \<lparr>sc_requests = 0, sc_bytes = 0, sc_lastSeen = 0, sc_ips = {||}\<rparr>);
            ips = (if remoteIP \<noteq> [] \<and> fcard (sc_ips c) < maxIPsPerSite s then finsert remoteIP (sc_ips c) else sc_ips c)
        in s\<lparr>sites := fmupd name
              \<lparr>sc_requests = wrap64 (sc_requests c + 1), sc_bytes = wrap64 (sc_bytes c + bytesServed), sc_lastSeen = now, sc_ips = ips\<rparr>
              (sites s)\<rparr>)"

definition snapshot_of :: "string \<Rightarrow> SiteCounter \<Rightarrow> Snapshot" where
  "snapshot_of name c = \<lparr>ss_Name = name, ss_Requests = sc_requests c, ss_Bytes = sc_bytes c, ss_UniqueIPs = fcard (sc_ips c),
     ss_LastSeenUnix = sc_lastSeen c\<rparr>"

definition stats_Get :: "Stats \<Rightarrow> string \<Rightarrow> Snapshot" where
  "stats_Get s name =
     (case fmlookup (sites s) name of
        None \<Rightarrow> \<lparr>ss_Name = name, ss_Requests = 0, ss_Bytes = 0, ss_UniqueIPs = 0, ss_LastSeenUnix = 0\<rparr>
      | Some c \<Rightarrow> snapshot_of name c)"

text \<open>\<open>order\<close> is the order in which the map is enumerated.\<close>

definition stats_All :: "string list \<Rightarrow> Stats \<Rightarrow> Snapshot list" where
  "stats_All order s = List.map_filter (\<lambda>name. map_option (snapshot_of name) (fmlookup (sites s) name)) order"

definition stats_Forget :: "Stats \<Rightarrow> string \<Rightarrow> Stats" where
  "stats_Forget s name = s\<lparr>sites := fmdrop name (sites s)\<rparr>"

text \<open>What the rest of the program does with the counters.\<close>

datatype stats_event = Recorded int string string int | Forgotten string

fun stats_step :: "Stats \<Rightarrow> stats_event \<Rightarrow> Stats" where
  "stats_step s (Recorded now name ip n) = stats_Record now s name ip n"
| "stats_step s (Forgotten name) = stats_Forget s name"

section \<open>The counters and the log\<close>

text \<open>The visits of a site since it was last forgotten.\<close>

fun visit_of :: "string \<Rightarrow> (int \<times> string \<times> int) list \<Rightarrow> stats_event \<Rightarrow> (int \<times> string \<times> int) list" where
  "visit_of name vs (Recorded now site ip n) = (if site = name then vs @ [(now, ip, n)] else vs)"
| "visit_of name vs (Forgotten site) = (if site = name then [] else vs)"

definition visits :: "string \<Rightarrow> stats_event list \<Rightarrow> (int \<times> string \<times> int) list" where
  "visits name es = foldl (visit_of name) [] es"

definition visitors :: "(int \<times> string \<times> int) list \<Rightarrow> string set" where
  "visitors vs = {ip \<in> fst ` snd ` set vs. ip \<noteq> []}"

definition counts :: "nat \<Rightarrow> SiteCounter option \<Rightarrow> (int \<times> string \<times> int) list \<Rightarrow> bool" where
  "counts m c vs \<longleftrightarrow>
     (case c of
        None \<Rightarrow> vs = []
      | Some c \<Rightarrow> vs \<noteq> [] \<and> sc_requests c = wrap64 (int (length vs)) \<and> sc_bytes c = wrap64 (\<Sum>(_, _, n)\<leftarrow>vs. n)
          \<and> sc_lastSeen c = fst (last vs) \<and> fset (sc_ips c) \<subseteq> visitors vs \<and> fcard (sc_ips c) = min m (card (visitors vs)))"

lemma finite_visitors [simp]: "finite (visitors vs)"
  by (simp add: visitors_def)

lemma visitors_snoc: "visitors (vs @ [(now, ip, n)]) = (if ip = [] then visitors vs else insert ip (visitors vs))"
  by (auto simp: visitors_def)

lemma wrap64_add: "wrap64 (wrap64 x + y) = wrap64 (x + y)" "wrap64 (y + wrap64 x) = wrap64 (y + x)"
  unfolding wrap64_def by (simp_all add: algebra_simps mod_simps)

lemma new_address:
  assumes "fset ips \<subseteq> A" and "finite A" and "fcard ips = min m (card A)"
  shows "fset (if fcard ips < m then finsert x ips else ips) \<subseteq> insert x A"
    and "fcard (if fcard ips < m then finsert x ips else ips) = min m (card (insert x A))"
proof -
  show "fset (if fcard ips < m then finsert x ips else ips) \<subseteq> insert x A" using assms(1) by auto
  have ips: "card (fset ips) = min m (card A)" using assms(3) by (simp add: fcard.rep_eq)
  show "fcard (if fcard ips < m then finsert x ips else ips) = min m (card (insert x A))"
  proof (cases "fcard ips < m")
    case True
    with assms(3) have "card (fset ips) = card A" by (simp add: fcard.rep_eq)
    then have "fset ips = A" using card_subset_eq [OF assms(2,1)] by simp
    with True assms(2) show ?thesis by (auto simp: fcard.rep_eq card_insert_if)
  next
    case False
    have "card A \<le> card (insert x A)" using assms(2) by (simp add: card_insert_le)
    with False assms(3) show ?thesis by simp
  qed
qed

lemma counts_record:
  assumes "counts m (fmlookup (sites s) name) vs" and "maxIPsPerSite s = m" and "name \<noteq> []"
  shows "counts m (fmlookup (sites (stats_Record now s name ip n)) name) (vs @ [(now, ip, n)])"
proof -
  define c where "c = (case fmlookup (sites s) name of Some c \<Rightarrow> c
      | None \<Rightarrow> \<lparr>sc_requests = 0, sc_bytes = 0, sc_lastSeen = 0, sc_ips = {||}\<rparr>)"
  have c: "sc_requests c = wrap64 (int (length vs))" "sc_bytes c = wrap64 (\<Sum>(_, _, n)\<leftarrow>vs. n)"
    "fset (sc_ips c) \<subseteq> visitors vs" "fcard (sc_ips c) = min m (card (visitors vs))"
    using assms(1) by (auto simp: counts_def c_def visitors_def split: option.splits) (auto simp: wrap64_def)
  have "fmlookup (sites (stats_Record now s name ip n)) name = Some
      \<lparr>sc_requests = wrap64 (sc_requests c + 1), sc_bytes = wrap64 (sc_bytes c + n), sc_lastSeen = now,
       sc_ips = if ip \<noteq> [] \<and> fcard (sc_ips c) < m then finsert ip (sc_ips c) else sc_ips c\<rparr>"
    using assms(2,3) by (simp add: stats_Record_def Let_def c_def)
  moreover have "wrap64 (wrap64 (int (length vs)) + 1) = wrap64 (int (length (vs @ [(now, ip, n)])))" by (simp add: wrap64_add algebra_simps)
  moreover have "wrap64 (sc_bytes c + n) = wrap64 (\<Sum>(_, _, n)\<leftarrow>vs @ [(now, ip, n)]. n)" by (simp add: c wrap64_add)
  ultimately show ?thesis
    using new_address [OF c(3) finite_visitors c(4), of ip] c(1,3,4) by (auto simp: counts_def visitors_snoc)
qed

lemma stats_steps_count:
  assumes "name \<noteq> []" and "counts (maxIPsPerSite s) (fmlookup (sites s) name) vs"
  shows "counts (maxIPsPerSite s) (fmlookup (sites (foldl stats_step s es)) name) (foldl (visit_of name) vs es)
    \<and> maxIPsPerSite (foldl stats_step s es) = maxIPsPerSite s"
  using assms(2)
proof (induction es arbitrary: s vs)
  case (Cons e es)
  have m: "maxIPsPerSite (stats_step s e) = maxIPsPerSite s"
    by (cases e) (simp_all add: stats_Record_def stats_Forget_def Let_def)
  have "counts (maxIPsPerSite s) (fmlookup (sites (stats_step s e)) name) (visit_of name vs e)"
  proof (cases e)
    case (Recorded now site ip n)
    show ?thesis
    proof (cases "site = name")
      case True
      with Recorded counts_record [OF Cons.prems refl assms(1)] show ?thesis by simp
    qed (use Cons.prems Recorded in \<open>simp add: stats_Record_def Let_def\<close>)
  next
    case (Forgotten site)
    with Cons.prems show ?thesis by (auto simp: stats_Forget_def counts_def)
  qed
  with Cons.IH [of "stats_step s e"] m show ?case by simp
qed simp

section \<open>Properties\<close>

text \<open>
  C33: the counters are a recount of the log. After any sequence of visits and resets, what the
  registrar reads for a site is what counting its visits since the last reset gives: their number
  and bytes, modulo the width of the counters, the time of the last one, and the number of different
  addresses, exact up to the bound of 10000.
\<close>

theorem stats_recount:
  assumes "name \<noteq> []" and "vs = visits name es"
  shows "stats_Get (foldl stats_step stats_New es) name =
    \<lparr>ss_Name = name, ss_Requests = wrap64 (int (length vs)), ss_Bytes = wrap64 (\<Sum>(_, _, n)\<leftarrow>vs. n),
     ss_UniqueIPs = min 10000 (card (visitors vs)), ss_LastSeenUnix = (if vs = [] then 0 else fst (last vs))\<rparr>"
proof -
  have "counts (maxIPsPerSite stats_New) (fmlookup (sites stats_New) name) []" by (simp add: stats_New_def counts_def)
  from stats_steps_count [OF assms(1) this, of es] assms(2)
  have "counts 10000 (fmlookup (sites (foldl stats_step stats_New es)) name) vs" by (simp add: stats_New_def visits_def)
  then show ?thesis
    by (auto simp: stats_Get_def snapshot_of_def counts_def visitors_def split: option.splits) (auto simp: wrap64_def)
qed

theorem stats_recount_witness:
  "stats_Get (foldl stats_step stats_New [Recorded 5 ''a.alt'' ''1.2.3.4'' 10, Forgotten ''a.alt'', Recorded 6 ''a.alt'' ''1.2.3.4'' 7]) ''a.alt''
   = \<lparr>ss_Name = ''a.alt'', ss_Requests = 1, ss_Bytes = 7, ss_UniqueIPs = 1, ss_LastSeenUnix = 6\<rparr>"
proof -
  have "visitors [(6, ''1.2.3.4'', 7)] = {''1.2.3.4''}" by (auto simp: visitors_def)
  with stats_recount [OF _ refl, of "''a.alt''" "[Recorded 5 ''a.alt'' ''1.2.3.4'' 10, Forgotten ''a.alt'', Recorded 6 ''a.alt'' ''1.2.3.4'' 7]"]
  show ?thesis by (simp add: visits_def wrap64_def)
qed

end
