(* ===== verification/Http.thy ===== *)
theory Http
  imports Go_Strings
begin

text \<open>
  What the gateway and the registrar use of \<^verbatim>\<open>net/http\<close>, \<^verbatim>\<open>net\<close>, \<^verbatim>\<open>path\<close> and \<^verbatim>\<open>path/filepath\<close>: requests and
  responses as values, the error replies, host and port, and cleaning of paths.
\<close>

section \<open>Requests and responses\<close>

text \<open>
  A request as a handler sees it: \<open>rq_Header\<close> and \<open>rq_Query\<close> give the value of a header and of a
  query parameter, empty when there is none. Of \<^verbatim>\<open>Range\<close> headers the model has those with one range.
  The body is what reading it yields.
\<close>

datatype byte_range = RangeFrom int | RangeBetween int int | RangeLast int

record request =
  rq_Method :: string
  rq_Host :: string
  rq_Path :: string
  rq_RemoteAddr :: string
  rq_Header :: "string \<Rightarrow> string"
  rq_Query :: "string \<Rightarrow> string"
  rq_Range :: "byte_range option"
  rq_Body :: bytes

text \<open>A response: the status, the headers in the order they were set, and the body that the handler wrote.\<close>

type_synonym headers = "(string \<times> string) list"

record response =
  rs_Code :: nat
  rs_Header :: headers
  rs_Body :: bytes

definition Header_Set :: "headers \<Rightarrow> string \<Rightarrow> string \<Rightarrow> headers" where
  "Header_Set h k v = filter (\<lambda>(k', _). k' \<noteq> k) h @ [(k, v)]"

definition Header_Get :: "headers \<Rightarrow> string \<Rightarrow> string" where
  "Header_Get h k = (case map_of h k of None \<Rightarrow> [] | Some v \<Rightarrow> v)"

definition line_feed :: string where
  "line_feed = [CHR 0x0A]"

text \<open>\<^verbatim>\<open>http.Error\<close> and \<^verbatim>\<open>http.NotFound\<close>, on the headers set so far.\<close>

definition http_Error :: "headers \<Rightarrow> string \<Rightarrow> nat \<Rightarrow> response" where
  "http_Error h msg code =
     \<lparr>rs_Code = code,
      rs_Header = Header_Set (Header_Set (filter (\<lambda>(k, _). k \<noteq> ''Content-Length'') h) ''Content-Type'' ''text/plain; charset=utf-8'')
        ''X-Content-Type-Options'' ''nosniff'',
      rs_Body = bytes_of_string (msg @ line_feed)\<rparr>"

definition http_NotFound :: "headers \<Rightarrow> response" where
  "http_NotFound h = http_Error h ''404 page not found'' 404"

section \<open>Addresses and paths\<close>

fun LastIndexByte :: "string \<Rightarrow> char \<Rightarrow> nat option" where
  "LastIndexByte [] c = None"
| "LastIndexByte (x # s) c =
     (case LastIndexByte s c of Some i \<Rightarrow> Some (Suc i) | None \<Rightarrow> if x = c then Some 0 else None)"

definition SplitHostPort :: "string \<Rightarrow> (string \<times> string) option" where
  "SplitHostPort hostport =
     (case LastIndexByte hostport CHR '':'' of
        None \<Rightarrow> None
      | Some i \<Rightarrow>
          let split = (if hostport ! 0 = CHR ''['' then
                         (case IndexByte hostport CHR '']'' of
                            None \<Rightarrow> None
                          | Some e \<Rightarrow> if e + 1 = i then Some (drop 1 (take e hostport), 1, e + 1) else None)
                       else if CHR '':'' \<in> set (take i hostport) then None
                       else Some (take i hostport, 0, 0))
          in case split of
               None \<Rightarrow> None
             | Some (host, j, k) \<Rightarrow>
                 if CHR ''['' \<in> set (drop j hostport) \<or> CHR '']'' \<in> set (drop k hostport) then None
                 else Some (host, drop (i + 1) hostport))"

text \<open>\<^verbatim>\<open>path.Clean\<close>: the elements are kept on a stack, the last one first.\<close>

fun clean_elems :: "bool \<Rightarrow> string list \<Rightarrow> string list \<Rightarrow> string list" where
  "clean_elems rooted out [] = rev out"
| "clean_elems rooted out (e # es) =
     (if e = [] \<or> e = ''.'' then clean_elems rooted out es
      else if e = ''..'' then
        (case out of
           [] \<Rightarrow> clean_elems rooted (if rooted then [] else [''..'']) es
         | x # xs \<Rightarrow> if x = ''..'' then clean_elems rooted (''..'' # out) es else clean_elems rooted xs es)
      else clean_elems rooted (e # out) es)"

definition path_Clean :: "string \<Rightarrow> string" where
  "path_Clean p =
     (let rooted = HasPrefix p ''/''; s = Join (clean_elems rooted [] (Split p CHR ''/'')) ''/''
      in if rooted then ''/'' @ s else if s = [] then ''.'' else s)"

definition path_Join :: "string \<Rightarrow> string \<Rightarrow> string" where
  "path_Join a b = (if a = [] \<and> b = [] then [] else path_Clean (if a = [] then b else if b = [] then a else a @ ''/'' @ b))"

text \<open>\<^verbatim>\<open>filepath.Ext\<close>: from the last dot of the last element.\<close>

definition filepath_Ext :: "string \<Rightarrow> string" where
  "filepath_Ext p =
     (let base = last (Split p CHR ''/'')
      in case LastIndexByte base CHR ''.'' of None \<Rightarrow> [] | Some i \<Rightarrow> drop i base)"

section \<open>Lemmas\<close>

lemma LastIndexByte_None: "LastIndexByte s c = None \<longleftrightarrow> c \<notin> set s"
  by (induction s) (auto split: option.splits)

lemma LastIndexByte_append [simp]: "c \<notin> set t \<Longrightarrow> LastIndexByte (s @ c # t) c = Some (length s)"
  by (induction s) (auto simp: LastIndexByte_None split: option.splits)

lemma take_append_length: "take (length s) (s @ t) = s"
  by simp

text \<open>A host without colon or bracket, joined with a port, splits into the two.\<close>

lemma SplitHostPort_join:
  assumes "CHR '':'' \<notin> set host" and "CHR ''['' \<notin> set host" and "CHR '']'' \<notin> set host"
    and "CHR '':'' \<notin> set port" and "CHR ''['' \<notin> set port" and "CHR '']'' \<notin> set port"
  shows "SplitHostPort (host @ '':'' @ port) = Some (host, port)"
proof -
  have "(host @ CHR '':'' # port) ! 0 \<noteq> CHR ''[''" using assms(2) by (cases host) auto
  with assms show ?thesis by (simp add: SplitHostPort_def Let_def)
qed

lemma clean_elems_plain:
  "list_all (\<lambda>e. e \<noteq> [] \<and> e \<noteq> ''.'' \<and> e \<noteq> ''..'') es \<Longrightarrow> clean_elems rooted out es = rev out @ es"
  by (induction es arbitrary: out) auto

lemma http_Error_simps [simp]:
  "rs_Code (http_Error h msg code) = code" "rs_Body (http_Error h msg code) = bytes_of_string (msg @ line_feed)"
  "rs_Code (http_NotFound h) = 404"
  by (simp_all add: http_Error_def http_NotFound_def)

lemma Header_Get_Set [simp]: "Header_Get (Header_Set h k v) k' = (if k' = k then v else Header_Get h k')"
proof -
  have "map_of (filter (\<lambda>(k', _). k' \<noteq> k) h) k' = (if k' = k then None else map_of h k')"
    by (induction h) auto
  then show ?thesis by (auto simp: Header_Get_def Header_Set_def map_add_def split: option.splits)
qed

end
