(* ===== verification/Gateway.thy ===== *)
theory Gateway
  imports Names Files Rate_Limits Site_Stats Http
begin

text \<open>
  \<^verbatim>\<open>apps/gateway/gateway.go\<close>: the HTTP front-end of the DHT. A request passes the rate limiter and the
  semaphore, is routed by its host or its path, and is answered from a directory of the network.
  Names and values come from a resolver and a getter, which the properties instantiate with
  \<open>Resolve\<close> and \<open>dht_Get\<close> on the node. The texts of errors of other packages, the table of content
  types, the sniffer of content types and the size of the copy buffer are arguments. The connection
  is assumed to take all that is written; conditional requests and requests for several ranges at
  once are outside the model.
\<close>

section \<open>Definitions\<close>

definition DefaultPerIPRate :: int where
  "DefaultPerIPRate = 20"

definition DefaultPerIPBurst :: int where
  "DefaultPerIPBurst = 40"

definition DefaultMaxConcurrent :: int where
  "DefaultMaxConcurrent = 256"

record Options =
  PerIPRate :: int
  PerIPBurst :: int
  MaxConcurrent :: int

datatype lower_error = LowerResolve resolve_error | LowerGet get_error | LowerFile file_error

record 's gw_world =
  gw_get :: "'s getter"
  gw_resolve :: "'s \<Rightarrow> string \<Rightarrow> 's \<times> (resolve_error + NameRecord)"
  gw_self :: "'s \<Rightarrow> NodeID"
  gw_errText :: "lower_error \<Rightarrow> string"
  gw_mime :: "string \<Rightarrow> string"
  gw_detect :: "bytes \<Rightarrow> string"
  gw_buf :: nat

text \<open>The semaphore is its capacity and the number of tokens in the channel.\<close>

record 's Gateway =
  g_d :: 's
  g_limiter :: ipRateLimiter
  g_sem :: "(nat \<times> nat) option"
  g_stats :: "Stats option"

definition NewWithOptions :: "rounding \<Rightarrow> time \<Rightarrow> 's \<Rightarrow> Options \<Rightarrow> 's Gateway" where
  "NewWithOptions rnd now d opts =
     (let rate = (if PerIPRate opts = 0 then DefaultPerIPRate else PerIPRate opts);
          burst = (if PerIPBurst opts = 0 then DefaultPerIPBurst else PerIPBurst opts);
          conc = (if MaxConcurrent opts = 0 then DefaultMaxConcurrent else MaxConcurrent opts)
      in \<lparr>g_d = d, g_limiter = newIPRateLimiter rnd now rate burst,
          g_sem = (if conc > 0 then Some (nat conc, 0) else None), g_stats = None\<rparr>)"

definition gateway_New :: "rounding \<Rightarrow> time \<Rightarrow> 's \<Rightarrow> 's Gateway" where
  "gateway_New rnd now d = NewWithOptions rnd now d \<lparr>PerIPRate = 0, PerIPBurst = 0, MaxConcurrent = 0\<rparr>"

definition SetStats :: "'s Gateway \<Rightarrow> Stats \<Rightarrow> 's Gateway" where
  "SetStats g r = g\<lparr>g_stats := Some r\<rparr>"

definition remoteIP :: "request \<Rightarrow> string" where
  "remoteIP r = (case SplitHostPort (rq_RemoteAddr r) of None \<Rightarrow> rq_RemoteAddr r | Some (host, _) \<Rightarrow> host)"

definition splitHead :: "string \<Rightarrow> string \<times> string" where
  "splitHead p = (case IndexByte p CHR ''/'' of None \<Rightarrow> (p, []) | Some idx \<Rightarrow> (take idx p, drop (idx + 1) p))"

definition isResolvableHost :: "string \<Rightarrow> bool" where
  "isResolvableHost host =
     (if host = [] \<or> host = ''localhost'' then False
      else if of_char (host ! 0) \<ge> (48 :: nat) \<and> of_char (host ! 0) \<le> (57 :: nat) then False
      else if host ! 0 = CHR ''['' then False
      else Contains host ''.'')"

subsection \<open>The transfer\<close>

text \<open>
  \<^verbatim>\<open>io.CopyN\<close> from a reader: reads of at most the size of a buffer until the asked number of bytes is
  copied or a read fails.
\<close>

lemma cr_Read_progress: "cr_Read get s cr (Suc n) = (s', cr', Inr bs) \<Longrightarrow> 0 < length bs"
  by (auto simp: cr_Read_def Let_def split: if_splits prod.splits sum.splits)

function copyN :: "'s getter \<Rightarrow> nat \<Rightarrow> 's \<Rightarrow> ChunkReader \<Rightarrow> nat \<Rightarrow> 's \<times> bytes \<times> file_error option" where
  "copyN get buf s cr 0 = (s, [], None)"
| "copyN get buf s cr (Suc n) =
     (case cr_Read get s cr (Suc (min buf n)) of
        (s1, _, Inl e) \<Rightarrow> (s1, [], Some e)
      | (s1, cr1, Inr bs) \<Rightarrow> (case copyN get buf s1 cr1 (Suc n - length bs) of (s2, out, e) \<Rightarrow> (s2, bs @ out, e)))"
  by pat_completeness auto
termination
  by (relation "measure (\<lambda>(_, _, _, _, n). n)") (auto dest: cr_Read_progress [OF sym])

text \<open>The range that \<^verbatim>\<open>parseRange\<close> makes of the header: the whole, a start and a length, or an error text.\<close>

definition resolve_range :: "byte_range option \<Rightarrow> int \<Rightarrow> (bool \<times> string) + (int \<times> int) option" where
  "resolve_range r sz =
     (let noOverlap = (if sz = 0 then Inr None else Inl (True, ''invalid range: failed to overlap''));
          invalid = Inl (False, ''invalid range'')
      in case r of
           None \<Rightarrow> Inr None
         | Some (RangeLast i) \<Rightarrow> if i < 0 then invalid else let i = min i sz in Inr (Some (sz - i, i))
         | Some (RangeFrom a) \<Rightarrow> if a < 0 then invalid else if a \<ge> sz then noOverlap else Inr (Some (a, sz - a))
         | Some (RangeBetween a b) \<Rightarrow>
             if a < 0 then invalid else if a \<ge> sz then noOverlap else if a > b then invalid
             else Inr (Some (a, min b (sz - 1) - a + 1)))"

definition serve_Error :: "headers \<Rightarrow> string \<Rightarrow> nat \<Rightarrow> response" where
  "serve_Error h msg code =
     http_Error (filter (\<lambda>(k, _). k \<notin> {''Cache-Control'', ''Content-Encoding'', ''Etag'', ''Last-Modified''}) h) msg code"

definition send_content ::
  "'s gw_world \<Rightarrow> 's \<Rightarrow> ChunkReader \<Rightarrow> request \<Rightarrow> headers \<Rightarrow> nat \<Rightarrow> int \<Rightarrow> 's \<times> response" where
  "send_content W s cr rq h code sendSize =
     (let h1 = Header_Set (Header_Set h ''Accept-Ranges'' ''bytes'') ''Content-Length'' (dec_int sendSize)
      in if rq_Method rq = ''HEAD'' then (s, \<lparr>rs_Code = code, rs_Header = h1, rs_Body = []\<rparr>)
         else case copyN (gw_get W) (gw_buf W) s cr (nat sendSize) of
                (s1, out, _) \<Rightarrow> (s1, \<lparr>rs_Code = code, rs_Header = h1, rs_Body = out\<rparr>))"

definition ServeContent :: "'s gw_world \<Rightarrow> 's \<Rightarrow> ChunkReader \<Rightarrow> request \<Rightarrow> headers \<Rightarrow> 's \<times> response" where
  "ServeContent W s cr rq h =
     (case cr_Seek cr 0 SeekEnd of
        (_, Inl _) \<Rightarrow> (s, serve_Error h ''seeker can't seek'' 500)
      | (cr1, Inr sz) \<Rightarrow>
          (case cr_Seek cr1 0 SeekStart of
             (_, Inl _) \<Rightarrow> (s, serve_Error h ''seeker can't seek'' 500)
           | (cr2, Inr _) \<Rightarrow>
               (case resolve_range (rq_Range rq) sz of
                  Inl (overlap, msg) \<Rightarrow>
                    (s, serve_Error (if overlap then Header_Set h ''Content-Range'' (''bytes */'' @ dec_int sz) else h) msg 416)
                | Inr None \<Rightarrow> send_content W s cr2 rq h 200 sz
                | Inr (Some (start, len)) \<Rightarrow>
                    (case cr_Seek cr2 start SeekStart of
                       (_, Inl e) \<Rightarrow> (s, serve_Error h (gw_errText W (LowerFile e)) 416)
                     | (cr3, Inr _) \<Rightarrow>
                         send_content W s cr3 rq
                           (Header_Set h ''Content-Range''
                              (''bytes '' @ dec_int start @ ''-'' @ dec_int (start + len - 1) @ ''/'' @ dec_int sz)) 206 len))))"

subsection \<open>Answers\<close>

definition index_path :: "string \<Rightarrow> string" where
  "index_path subPath = (if subPath = [] \<or> HasSuffix subPath ''/'' then path_Join subPath ''index.html'' else subPath)"

text \<open>The content type: by the extension, or from up to 512 bytes at the start of the file.\<close>

definition sniff_type :: "'s gw_world \<Rightarrow> 's \<Rightarrow> ChunkReader \<Rightarrow> string \<Rightarrow> 's \<times> ChunkReader \<times> string" where
  "sniff_type W s reader subPath =
     (let ct = gw_mime W (filepath_Ext subPath)
      in if ct \<noteq> [] then (s, reader, ct)
         else case cr_Read (gw_get W) s reader 512 of
                (s1, reader1, r) \<Rightarrow> (s1, fst (cr_Seek reader1 0 SeekStart), gw_detect W (case r of Inl _ \<Rightarrow> [] | Inr bs \<Rightarrow> bs)))"

definition serveFromRoot :: "'s gw_world \<Rightarrow> 's \<Rightarrow> request \<Rightarrow> NodeID \<Rightarrow> string \<Rightarrow> 's \<times> response" where
  "serveFromRoot W s rq rootKey subPath0 =
     (case gw_get W s rootKey of
        (s1, Inl e) \<Rightarrow> (s1, http_Error [] (''fetch directory: '' @ gw_errText W (LowerGet e)) 502)
      | (s1, Inr blob) \<Rightarrow>
          (case UnmarshalDirectory blob of
             None \<Rightarrow> (s1, http_Error [] ''directory record is malformed'' 502)
           | Some entries \<Rightarrow>
               let subPath = index_path subPath0
               in case find (\<lambda>e. de_Path e = subPath) entries of
                    None \<Rightarrow> (s1, http_NotFound [])
                  | Some entry \<Rightarrow>
                      (case IDFromHex (de_ManifestKey entry) of
                         Inl _ \<Rightarrow> (s1, http_Error [] ''bad manifest key in directory'' 502)
                       | Inr manifestKey \<Rightarrow>
                           (case NewChunkReader (gw_get W) s1 manifestKey of
                              (s2, Inl e) \<Rightarrow> (s2, http_Error [] (''fetch file: '' @ gw_errText W (LowerFile e)) 502)
                            | (s2, Inr reader) \<Rightarrow>
                                (case sniff_type W s2 reader subPath of
                                   (s3, reader1, ct) \<Rightarrow>
                                     ServeContent W s3 reader1 rq
                                       (Header_Set (Header_Set [] ''Content-Type'' ct) ''Etag''
                                          (CHR 0x22 # de_ManifestKey entry @ [CHR 0x22])))))))"

definition serveName :: "'s gw_world \<Rightarrow> time \<Rightarrow> 's Gateway \<Rightarrow> request \<Rightarrow> string \<Rightarrow> string \<Rightarrow> 's Gateway \<times> response" where
  "serveName W now g rq name subPath =
     (case gw_resolve W (g_d g) name of
        (d1, Inl e) \<Rightarrow> (g\<lparr>g_d := d1\<rparr>, http_Error [] (''resolve '' @ name @ '': '' @ gw_errText W (LowerResolve e)) 404)
      | (d1, Inr rec) \<Rightarrow>
          (case RootKey rec of
             Inl _ \<Rightarrow> (g\<lparr>g_d := d1\<rparr>, http_Error [] ''bad root key in record'' 502)
           | Inr rootKey \<Rightarrow>
               (case serveFromRoot W d1 rq rootKey subPath of
                  (d2, r) \<Rightarrow>
                    (g\<lparr>g_d := d2,
                       g_stats := map_option (\<lambda>st. stats_Record (Unix now) st name (remoteIP rq) (int (length (rs_Body r)))) (g_stats g)\<rparr>,
                     r))))"

definition serveCID :: "'s gw_world \<Rightarrow> 's Gateway \<Rightarrow> request \<Rightarrow> string \<Rightarrow> string \<Rightarrow> 's Gateway \<times> response" where
  "serveCID W g rq hexRoot subPath =
     (case IDFromHex hexRoot of
        Inl _ \<Rightarrow> (g, http_Error [] ''bad root hash'' 400)
      | Inr rootKey \<Rightarrow> (case serveFromRoot W (g_d g) rq rootKey subPath of (d1, r) \<Rightarrow> (g\<lparr>g_d := d1\<rparr>, r)))"

text \<open>\<^verbatim>\<open>html.EscapeString\<close>.\<close>

definition EscapeString :: "string \<Rightarrow> string" where
  "EscapeString s = concat (map (\<lambda>c.
     if c = CHR ''&'' then ''&amp;'' else if c = CHR 0x27 then ''&#39;'' else if c = CHR ''<'' then ''&lt;''
     else if c = CHR ''>'' then ''&gt;'' else if c = CHR 0x22 then ''&#34;'' else [c]) s)"

definition landing_page :: "string \<Rightarrow> string" where
  \<open>landing_page selfHex = Join [
     ''<!DOCTYPE html>'',
     ''<html>'',
     ''<head><title>altnet gateway</title></head>'',
     ''<body style="font-family:sans-serif;max-width:640px;margin:40px auto;line-height:1.5">'',
     ''<h1>altnet gateway</h1>'',
     ''<p>This daemon is acting as an HTTP bridge to the altnet DHT.</p>'',
     ''<p>Try:</p>'',
     ''<ul>'',
     ''<li><code>/&#64;name/</code> &mdash; resolves a name to a directory and serves <code>index.html</code></li>'',
     ''<li><code>/&#64;name/path/to/file</code> &mdash; serves a specific file</li>'',
     ''<li><code>/cid/&lt;64-char-hex&gt;/</code> &mdash; fetch a directory directly by its root hash</li>'',
     ''</ul>'',
     ''<p>Identity of this peer: <code>'' @ EscapeString selfHex @ ''</code></p>'',
     ''</body>'',
     ''</html>''] line_feed\<close>

definition serveLanding :: "'s gw_world \<Rightarrow> 's Gateway \<Rightarrow> 's Gateway \<times> response" where
  "serveLanding W g =
     (g, \<lparr>rs_Code = 200, rs_Header = Header_Set [] ''Content-Type'' ''text/html; charset=utf-8'',
          rs_Body = bytes_of_string (landing_page (Hex (gw_self W (g_d g))))\<rparr>)"

subsection \<open>Routing\<close>

definition request_host :: "request \<Rightarrow> string" where
  "request_host rq =
     (let host = rq_Host rq;
          host = (case LastIndexByte host CHR '':'' of None \<Rightarrow> host | Some i \<Rightarrow> take i host)
      in TrimSuffix host ''.'')"

definition gateway_handle :: "'s gw_world \<Rightarrow> time \<Rightarrow> 's Gateway \<Rightarrow> request \<Rightarrow> 's Gateway \<times> response" where
  "gateway_handle W now g rq =
     (if rq_Method rq \<noteq> ''GET'' \<and> rq_Method rq \<noteq> ''HEAD'' then (g, http_Error [] ''method not allowed'' 405)
      else
        let host = request_host rq; urlPath = TrimPrefix (rq_Path rq) ''/''
        in if isResolvableHost host then serveName W now g rq host urlPath
           else if urlPath = [] then serveLanding W g
           else
             let (head, rest) = splitHead urlPath
             in if head = ''cid'' then let (hashPart, subPath) = splitHead rest in serveCID W g rq hashPart subPath
                else if head = ''n'' then let (nameStr, subPath) = splitHead rest in serveName W now g rq nameStr subPath
                else (g, http_NotFound []))"

text \<open>
  \<open>handleWithLimits\<close> in two steps, since other requests run between them: the entry, which may
  refuse, and the release of the semaphore when the handler is done.
\<close>

definition gateway_enter :: "rounding \<Rightarrow> time \<Rightarrow> 's Gateway \<Rightarrow> request \<Rightarrow> 's Gateway \<times> response option" where
  "gateway_enter rnd now g rq =
     (case ip_allow rnd now (g_limiter g) (remoteIP rq) of
        (l, ok) \<Rightarrow>
          let g1 = g\<lparr>g_limiter := l\<rparr>
          in if \<not> ok then (g1, Some (http_Error (Header_Set [] ''Retry-After'' ''1'') ''rate limit exceeded'' 429))
             else case g_sem g1 of
                    None \<Rightarrow> (g1, None)
                  | Some (capacity, used) \<Rightarrow>
                      if used < capacity then (g1\<lparr>g_sem := Some (capacity, used + 1)\<rparr>, None)
                      else (g1, Some (http_Error [] ''gateway busy'' 503)))"

definition gateway_leave :: "'s Gateway \<Rightarrow> 's Gateway" where
  "gateway_leave g = g\<lparr>g_sem := map_option (\<lambda>(capacity, used). (capacity, used - 1)) (g_sem g)\<rparr>"

definition handleWithLimits :: "rounding \<Rightarrow> 's gw_world \<Rightarrow> time \<Rightarrow> time \<Rightarrow> 's Gateway \<Rightarrow> request \<Rightarrow> 's Gateway \<times> response" where
  "handleWithLimits rnd W now later g rq =
     (case gateway_enter rnd now g rq of
        (g1, Some refused) \<Rightarrow> (g1, refused)
      | (g1, None) \<Rightarrow> (case gateway_handle W later g1 rq of (g2, r) \<Rightarrow> (gateway_leave g2, r)))"

text \<open>The host a certificate is asked for, from the name in the client hello; \<open>None\<close> is the error.\<close>

definition sni_host :: "string \<Rightarrow> string option" where
  "sni_host serverName = (let host = ToLower (TrimSpace serverName) in if host = [] then None else Some host)"

subsection \<open>The gateway on a node\<close>

text \<open>
  The resolver and the getter of the program. Every call to the network has its own environment,
  numbered by the first component of the state, as for \<open>dht_Get\<close>; \<open>ord\<close> enumerates the candidates.
\<close>

definition dht_Resolve :: "prims \<Rightarrow> registrars \<Rightarrow> (nat \<Rightarrow> get_env) \<Rightarrow> (nat \<Rightarrow> bytes list \<Rightarrow> bytes list) \<Rightarrow> nat \<times> DHT \<Rightarrow> string
   \<Rightarrow> (nat \<times> DHT) \<times> (resolve_error + NameRecord)" where
  "dht_Resolve c tr E ord s name =
     (let e = E (fst s)
      in case Resolve tr ((ge_henv e)\<lparr>h_prims := c\<rparr>) (\<lambda>r. (ge_env e r)\<lparr>re_prims := c\<rparr>) (ord (fst s)) (ge_among e (snd s)) name of
           (d, r) \<Rightarrow> ((fst s + 1, d), r))"

definition node_world ::
  "prims \<Rightarrow> registrars \<Rightarrow> (nat \<Rightarrow> get_env) \<Rightarrow> (nat \<Rightarrow> bytes list \<Rightarrow> bytes list) \<Rightarrow> (lower_error \<Rightarrow> string) \<Rightarrow> (string \<Rightarrow> string) \<Rightarrow> (bytes \<Rightarrow> string) \<Rightarrow> nat
   \<Rightarrow> (nat \<times> DHT) gw_world" where
  "node_world c tr E ord texts mime detect buf =
     \<lparr>gw_get = dht_Get c E, gw_resolve = dht_Resolve c tr E ord, gw_self = (\<lambda>s. d_self (snd s)), gw_errText = texts,
      gw_mime = mime, gw_detect = detect, gw_buf = buf\<rparr>"

lemma node_world_simps [simp]:
  "gw_get (node_world c tr E ord texts mime detect buf) = dht_Get c E"
  "gw_resolve (node_world c tr E ord texts mime detect buf) = dht_Resolve c tr E ord"
  by (simp_all add: node_world_def)

section \<open>The transfer of a section of a file\<close>

text \<open>The section of a file that a request asks for; none when the range is refused.\<close>

definition requested :: "byte_range option \<Rightarrow> bytes \<Rightarrow> bytes option" where
  "requested r b =
     (case resolve_range r (int (length b)) of
        Inl _ \<Rightarrow> None
      | Inr None \<Rightarrow> Some b
      | Inr (Some (start, len)) \<Rightarrow> Some (take (nat len) (drop (nat start) b)))"

lemma resolve_range_bounds:
  "resolve_range r (int n) = Inr (Some (start, len)) \<Longrightarrow> 0 \<le> start \<and> 0 \<le> len \<and> start + len \<le> int n"
  by (auto simp: resolve_range_def Let_def split: option.splits byte_range.splits if_splits)

lemma file_Read_section:
  assumes "file_Read b (int p) (Suc k) = (q, Inr bs)"
  shows "bs = take (length bs) (drop p b)" "0 < length bs" "length bs \<le> Suc k" "q = int (p + length bs)" "p + length bs \<le> length b"
proof -
  from assms have p: "p < length b" and bs: "bs = take (min (Suc k) (ChunkSize - p mod ChunkSize)) (drop p b)" "q = int p + int (length bs)"
    by (auto simp: file_Read_def Let_def split: if_splits)
  have "0 < ChunkSize - p mod ChunkSize" by (simp add: ChunkSize_def)
  with p bs(1) show "0 < length bs" "length bs \<le> Suc k" "p + length bs \<le> length b" by auto
  show "bs = take (length bs) (drop p b)" using bs(1) by (metis take_all_iff length_take min.cobounded1 min_def take_take)
  show "q = int (p + length bs)" using bs(2) by simp
qed

lemma take_split: "k \<le> n \<Longrightarrow> bs = take k xs \<Longrightarrow> length bs = k \<Longrightarrow> take n xs = bs @ take (n - k) (drop k xs)"
  by (metis append_take_drop_id le_add_diff_inverse take_add)

text \<open>
  The answers that a site allows: what was asked of the file at the path, or a beginning of it,
  404 for a path that the site does not have, 416 for a bad range, and 502 when a block could not be had.
\<close>

definition site_answer :: "(string \<times> bytes) list \<Rightarrow> request \<Rightarrow> string \<Rightarrow> response \<Rightarrow> bool" where
  "site_answer fs rq subPath r \<longleftrightarrow> rs_Code r = 502 \<or>
     (case map_of fs (index_path subPath) of
        None \<Rightarrow> rs_Code r = 404
      | Some b \<Rightarrow>
          (case requested (rq_Range rq) b of
             None \<Rightarrow> rs_Code r = 416
           | Some sec \<Rightarrow> rs_Code r \<in> {200, 206} \<and> prefix (rs_Body r) sec \<and> (rq_Method rq = ''HEAD'' \<longrightarrow> rs_Body r = [])))"

lemma find_map_entry: "find (\<lambda>e. de_Path e = p) (map (entry_of sha) fs) = map_option (\<lambda>b. entry_of sha (p, b)) (map_of fs p)"
  by (induction fs) auto

lemma map_of_sort_key: "distinct (map fst fs) \<Longrightarrow> map_of (sort_key fst fs) = map_of fs"
proof -
  assume d: "distinct (map fst fs)"
  have "mset (map fst (sort_key fst fs)) = mset (map fst fs)" by simp
  with d have "distinct (map fst (sort_key fst fs))" by (metis mset_eq_imp_distinct_iff)
  with d show ?thesis by (simp add: map_of_inject_set)
qed

lemma find_dir_of:
  "distinct (map fst fs) \<Longrightarrow> find (\<lambda>e. de_Path e = p) (dir_of sha fs) = map_option (\<lambda>b. entry_of sha (p, b)) (map_of fs p)"
  by (simp add: dir_of_def find_map_entry map_of_sort_key)

context verified_get
begin

lemma copyN_ok:
  assumes nc: "no_clash get sha X S" and X: "set (chunks_of b) \<subseteq> X" and len: "int64 (int (length b))"
  shows "s \<in> S \<Longrightarrow> reader_ok sha b cr \<Longrightarrow> cr_pos cr = int p \<Longrightarrow> p + n \<le> length b \<Longrightarrow> copyN get buf s cr n = (s', out, e) \<Longrightarrow>
    s' \<in> S \<and> (\<exists>k\<le>n. out = take k (drop p b)) \<and> (e = None \<longrightarrow> out = take n (drop p b)) \<and> (\<forall>x. e = Some x \<longrightarrow> (\<exists>g. x = FileGet g))"
proof (induction n arbitrary: s cr p s' out rule: less_induct)
  case (less n)
  show ?case
  proof (cases n)
    case 0
    with less.prems show ?thesis by auto
  next
    case (Suc m)
    obtain s1 cr1 r where rd: "cr_Read get s cr (Suc (min buf m)) = (s1, cr1, r)" by (metis prod_cases3)
    note ok = cr_Read_ok [OF nc less.prems(1) X less.prems(2) len rd]
    show ?thesis
    proof (cases r)
      case (Inl x)
      then have "x \<noteq> FileEOF" using ok less.prems(3,4) Suc by (auto simp: file_Read_def split: if_splits)
      with ok Inl have "\<exists>g. x = FileGet g" by (cases x) (auto simp: file_Read_def Let_def split: if_splits)
      with less.prems(5) Suc rd Inl ok show ?thesis by auto
    next
      case (Inr bs)
      with ok less.prems(3) have fr: "file_Read b (int p) (Suc (min buf m)) = (cr_pos cr1, Inr bs)" by simp
      note sec = file_Read_section [OF fr]
      obtain s2 out2 where c: "copyN get buf s1 cr1 (n - length bs) = (s2, out2, e)" "s' = s2" "out = bs @ out2"
        using less.prems(5) Suc rd Inr by (auto split: prod.splits)
      have "n - length bs < n" "length bs \<le> n" "p + length bs + (n - length bs) \<le> length b" using sec less.prems(4) Suc by auto
      with less.IH [OF this(1) _ _ sec(4) _ c(1)] ok less.prems(4)
      have IH: "s2 \<in> S" "\<exists>k\<le>n - length bs. out2 = take k (drop (p + length bs) b)"
        "e = None \<longrightarrow> out2 = take (n - length bs) (drop (p + length bs) b)" "\<forall>x. e = Some x \<longrightarrow> (\<exists>g. x = FileGet g)" by auto
      from IH(2) obtain k where k: "k \<le> n - length bs" "out2 = take k (drop (p + length bs) b)" by blast
      have "out = take (length bs + k) (drop p b)"
        using take_split [of "length bs" "length bs + k" bs "drop p b"] sec(1) k(2) c(3) by (simp add: add.commute)
      moreover have "length bs + k \<le> n" using k(1) \<open>length bs \<le> n\<close> by linarith
      moreover have "e = None \<longrightarrow> out = take n (drop p b)"
        using take_split [OF \<open>length bs \<le> n\<close> sec(1) refl] IH(3) c(3) by (simp add: add.commute)
      ultimately show ?thesis using IH(1,4) c(2) by blast
    qed
  qed
qed

lemma send_content_ok:
  assumes "no_clash get sha X S" and "set (chunks_of b) \<subseteq> X" and "int64 (int (length b))" and "gw_get W = get"
    and "s \<in> S" and "reader_ok sha b cr" and "cr_pos cr = int p" and "p + n \<le> length b"
    and "send_content W s cr rq h code (int n) = (s', r)"
  shows "s' \<in> S \<and> rs_Code r = code \<and> prefix (rs_Body r) (take n (drop p b)) \<and> (rq_Method rq = ''HEAD'' \<longrightarrow> rs_Body r = [])"
proof -
  obtain s1 out e where c: "copyN get (gw_buf W) s cr n = (s1, out, e)" by (metis prod_cases3)
  from copyN_ok [OF assms(1-3,5-8) c] have o: "s1 \<in> S" "\<exists>k\<le>n. out = take k (drop p b)" by blast+
  then have "prefix out (take n (drop p b))" by (metis min.absorb1 take_is_prefix take_take)
  with assms(4,5,9) c o(1) show ?thesis by (auto simp: send_content_def Let_def split: if_splits)
qed

lemma ServeContent_ok:
  assumes nc: "no_clash get sha X S" and X: "set (chunks_of b) \<subseteq> X" and len: "int64 (int (length b))" and W: "gw_get W = get"
    and s: "s \<in> S" and cr: "reader_ok sha b cr" and f: "ServeContent W s cr rq h = (s', r)"
  shows "s' \<in> S \<and> (case requested (rq_Range rq) b of
      None \<Rightarrow> rs_Code r = 416
    | Some sec \<Rightarrow> rs_Code r \<in> {200, 206} \<and> prefix (rs_Body r) sec \<and> (rq_Method rq = ''HEAD'' \<longrightarrow> rs_Body r = []))"
proof -
  note W' = send_content_ok [OF nc X len W s]
  have sz: "cr_Size cr = int (length b)" using cr by (simp add: reader_ok_def cr_Size_def manifest_of_def)
  then have e: "cr_Seek cr 0 SeekEnd = (cr\<lparr>cr_pos := int (length b)\<rparr>, Inr (int (length b)))"
    using len by (simp add: cr_Seek_def wrap64_id)
  have st: "cr_Seek (cr\<lparr>cr_pos := x\<rparr>) y SeekStart = (cr\<lparr>cr_pos := y\<rparr>, Inr y)" if "0 \<le> y" for x y
    using that by (simp add: cr_Seek_def)
  have ok: "reader_ok sha b (cr\<lparr>cr_pos := int y\<rparr>)" if "y \<le> length b" for y
    using cr len that by (auto simp: reader_ok_def int64_def)
  show ?thesis
  proof (cases "resolve_range (rq_Range rq) (int (length b))")
    case (Inl x)
    with f e st s show ?thesis by (auto simp: ServeContent_def requested_def serve_Error_def split: prod.splits)
  next
    case (Inr y)
    show ?thesis
    proof (cases y)
      case None
      with f e st Inr have "send_content W s (cr\<lparr>cr_pos := int 0\<rparr>) rq h 200 (int (length b)) = (s', r)" by (simp add: ServeContent_def)
      from W' [OF ok _ _ this, of 0] None Inr show ?thesis by (simp add: requested_def)
    next
      case (Some z)
      obtain start l where z: "z = (start, l)" by fastforce
      note b = resolve_range_bounds [OF Inr [unfolded Some z]]
      let ?h = "Header_Set h ''Content-Range'' (''bytes '' @ dec_int start @ ''-'' @ dec_int (start + l - 1) @ ''/'' @ dec_int (int (length b)))"
      have sc: "send_content W s (cr\<lparr>cr_pos := int (nat start)\<rparr>) rq ?h 206 (int (nat l)) = (s', r)"
        using f e st Inr Some z b by (simp add: ServeContent_def)
      have le: "nat start \<le> length b" "nat start + nat l \<le> length b" using b by linarith+
      from W' [OF ok [OF le(1)] _ le(2) sc] Some z Inr show ?thesis by (simp add: requested_def)
    qed
  qed
qed

lemma sniff_type_ok:
  assumes "no_clash get sha X S" and "set (chunks_of b) \<subseteq> X" and "int64 (int (length b))" and "gw_get W = get"
    and "s \<in> S" and "reader_ok sha b cr" and "sniff_type W s cr subPath = (s', cr', ct)"
  shows "s' \<in> S \<and> reader_ok sha b cr'"
proof -
  obtain s1 cr1 r where rd: "cr_Read get s cr 512 = (s1, cr1, r)" by (metis prod_cases3)
  from cr_Read_ok [OF assms(1,5,2,6,3) rd] have "s1 \<in> S" "reader_ok sha b cr1" by auto
  moreover from this(2) have "reader_ok sha b (fst (cr_Seek cr1 0 SeekStart))" by (simp add: cr_Seek_def reader_ok_def int64_def)
  ultimately show ?thesis using assms(4-7) rd by (auto simp: sniff_type_def Let_def split: if_splits)
qed

lemma serveFromRoot_site:
  assumes nc: "no_clash get sha X S" and X: "set (dir_blobs sha fs) \<subseteq> X" and fs: "paths_ok fs" "distinct (map fst fs)"
    and W: "gw_get W = get" and s: "s \<in> S"
    and f: "serveFromRoot W s rq (ContentAddress sha (Directory_Marshal (dir_of sha fs))) subPath = (s', r)"
  shows "s' \<in> S \<and> site_answer fs rq subPath r"
proof -
  let ?dir = "Directory_Marshal (dir_of sha fs)"
  have dX: "?dir \<in> X" "\<forall>(rel, b)\<in>set fs. set (file_blobs sha b) \<subseteq> X" using X by (simp_all add: dir_blobs_subset)
  obtain s1 r1 where g: "get s (ContentAddress sha ?dir) = (s1, r1)" by fastforce
  note d = get_blob [OF nc s dX(1) g]
  show ?thesis
  proof (cases r1)
    case (Inl e)
    with f g W d show ?thesis by (auto simp: serveFromRoot_def site_answer_def)
  next
    case (Inr blob)
    with d have blob: "blob = ?dir" "s1 \<in> S" by auto
    note um = Unmarshal_dir_of [OF fs(1), of sha]
    show ?thesis
    proof (cases "map_of fs (index_path subPath)")
      case None
      with f g W Inr blob um find_dir_of [OF fs(2)] show ?thesis by (auto simp: serveFromRoot_def site_answer_def)
    next
      case (Some b)
      then have "(index_path subPath, b) \<in> set fs" by (rule map_of_SomeD)
      with dX(2) fs(1) have b: "set (file_blobs sha b) \<subseteq> X" "int64 (int (length b))" by (auto simp: paths_ok_def)
      then have ch: "set (chunks_of b) \<subseteq> X" by (auto simp: file_blobs_def)
      obtain s2 r2 where n: "NewChunkReader get s1 (file_key sha b) = (s2, r2)" by fastforce
      let ?h = "\<lambda>ct. Header_Set (Header_Set [] ''Content-Type'' ct) ''Etag'' (CHR 0x22 # Hex (file_key sha b) @ [CHR 0x22])"
      have f': "(s', r) = (case r2 of Inl e \<Rightarrow> (s2, http_Error [] (''fetch file: '' @ gw_errText W (LowerFile e)) 502)
          | Inr reader \<Rightarrow> (case sniff_type W s2 reader (index_path subPath) of (s3, reader1, ct) \<Rightarrow> ServeContent W s3 reader1 rq (?h ct)))"
        using f g W Inr blob um Some n find_dir_of [OF fs(2)] by (simp add: serveFromRoot_def entry_of_def split: sum.splits)
      show ?thesis
      proof (cases r2)
        case (Inl e)
        have "s2 \<in> S" using n blob(2) nc by (auto simp: NewChunkReader_def split: prod.splits sum.splits dest: get_closed)
        with f' Inl show ?thesis by (simp add: site_answer_def)
      next
        case (Inr reader)
        note rd = NewChunkReader_ok [OF nc blob(2) b n [unfolded Inr]]
        obtain s3 reader1 ct where sn: "sniff_type W s2 reader (index_path subPath) = (s3, reader1, ct)" by (metis prod_cases3)
        note sn' = sniff_type_ok [OF nc ch b(2) W rd(1,2) sn]
        have "ServeContent W s3 reader1 rq (?h ct) = (s', r)" using f' Inr sn by simp
        from ServeContent_ok [OF nc ch b(2) W _ _ this] sn' Some show ?thesis by (auto simp: site_answer_def)
      qed
    qed
  qed
qed

end

context serving_get
begin

lemma copyN_serves:
  assumes X: "set (chunks_of b) \<subseteq> X" and len: "int64 (int (length b))"
  shows "H s \<Longrightarrow> reader_ok sha b cr \<Longrightarrow> cr_pos cr = int p \<Longrightarrow> p + n \<le> length b \<Longrightarrow>
    \<exists>s'. copyN get buf s cr n = (s', take n (drop p b), None) \<and> H s'"
proof (induction n arbitrary: s cr p rule: less_induct)
  case (less n)
  show ?case
  proof (cases n)
    case 0
    with less.prems show ?thesis by simp
  next
    case (Suc m)
    then have "cr_pos cr < int (length b)" using less.prems(3,4) by simp
    then obtain s1 cr1 bs where rd: "cr_Read get s cr (Suc (min buf m)) = (s1, cr1, Inr bs)" "H s1" "reader_ok sha b cr1"
      "file_Read b (int p) (Suc (min buf m)) = (cr_pos cr1, Inr bs)"
      using cr_Read_serves [OF less.prems(1) X less.prems(2) len, of "Suc (min buf m)"] less.prems(3) by (metis nat.distinct(1))
    note sec = file_Read_section [OF rd(4)]
    have le: "n - length bs < n" "length bs \<le> n" "p + length bs + (n - length bs) \<le> length b" using sec less.prems(4) Suc by auto
    from less.IH [OF le(1) rd(2,3) sec(4) le(3)]
    obtain s' where "copyN get buf s1 cr1 (n - length bs) = (s', take (n - length bs) (drop (p + length bs) b), None)" "H s'" by blast
    then show ?thesis using rd(1) Suc take_split [OF le(2) sec(1) refl] by (auto simp: add.commute)
  qed
qed

lemma send_content_serves:
  assumes "set (chunks_of b) \<subseteq> X" and "int64 (int (length b))" and "gw_get W = get" and "rq_Method rq \<noteq> ''HEAD''"
    and "H s" and "reader_ok sha b cr" and "cr_pos cr = int p" and "p + n \<le> length b"
  shows "\<exists>s' r. send_content W s cr rq h code (int n) = (s', r) \<and> H s' \<and> rs_Code r = code \<and> rs_Body r = take n (drop p b)"
  using copyN_serves [OF assms(1,2,5-8), of "gw_buf W"] assms(3,4) by (auto simp: send_content_def Let_def)

lemma ServeContent_serves:
  assumes X: "set (chunks_of b) \<subseteq> X" and len: "int64 (int (length b))" and W: "gw_get W = get" and m: "rq_Method rq \<noteq> ''HEAD''"
    and H: "H s" and cr: "reader_ok sha b cr" and req: "requested (rq_Range rq) b = Some sec"
  shows "\<exists>s' r. ServeContent W s cr rq h = (s', r) \<and> H s' \<and> rs_Code r \<in> {200, 206} \<and> rs_Body r = sec"
proof -
  note W' = send_content_serves [OF X len W m H]
  have sz: "cr_Size cr = int (length b)" using cr by (simp add: reader_ok_def cr_Size_def manifest_of_def)
  then have e: "cr_Seek cr 0 SeekEnd = (cr\<lparr>cr_pos := int (length b)\<rparr>, Inr (int (length b)))"
    using len by (simp add: cr_Seek_def wrap64_id)
  have st: "cr_Seek (cr\<lparr>cr_pos := x\<rparr>) y SeekStart = (cr\<lparr>cr_pos := y\<rparr>, Inr y)" if "0 \<le> y" for x y
    using that by (simp add: cr_Seek_def)
  have ok: "reader_ok sha b (cr\<lparr>cr_pos := int y\<rparr>)" if "y \<le> length b" for y
    using cr len that by (auto simp: reader_ok_def int64_def)
  consider "resolve_range (rq_Range rq) (int (length b)) = Inr None" "sec = b"
    | start l where "resolve_range (rq_Range rq) (int (length b)) = Inr (Some (start, l))" "sec = take (nat l) (drop (nat start) b)"
    using req by (auto simp: requested_def split: sum.splits option.splits)
  then show ?thesis
  proof cases
    case 1
    with e st W' [OF ok, of 0 0 "length b" h 200] show ?thesis by (auto simp: ServeContent_def)
  next
    case 2
    note b = resolve_range_bounds [OF 2(1)]
    let ?h = "Header_Set h ''Content-Range'' (''bytes '' @ dec_int start @ ''-'' @ dec_int (start + l - 1) @ ''/'' @ dec_int (int (length b)))"
    have le: "nat start + nat l \<le> length b" using b by linarith
    with e st 2 b W' [OF ok, of "nat start" "nat start" "nat l" ?h 206] show ?thesis by (auto simp: ServeContent_def)
  qed
qed

lemma sniff_type_serves:
  assumes "set (chunks_of b) \<subseteq> X" and "int64 (int (length b))" and "gw_get W = get" and "H s" and "reader_ok sha b cr" and "cr_pos cr = 0"
  shows "\<exists>s' cr' ct. sniff_type W s cr subPath = (s', cr', ct) \<and> H s' \<and> reader_ok sha b cr'"
proof (cases "gw_mime W (filepath_Ext subPath) \<noteq> []")
  case True
  with assms show ?thesis by (simp add: sniff_type_def Let_def)
next
  case False
  have ok: "reader_ok sha b (fst (cr_Seek cr1 0 SeekStart))" if "reader_ok sha b cr1" for cr1
    using that by (simp add: cr_Seek_def reader_ok_def int64_def)
  show ?thesis
  proof (cases "b = []")
    case True
    then have "cr_Read get s cr 512 = (s, cr, Inl FileEOF)"
      using assms(5,6) by (simp add: cr_Read_def cr_Size_def reader_ok_def manifest_of_def)
    with False assms ok show ?thesis by (auto simp: sniff_type_def Let_def)
  next
    case b: False
    then have "cr_pos cr < int (length b)" using assms(6) by simp
    then obtain s1 cr1 bs where "cr_Read get s cr 512 = (s1, cr1, Inr bs)" "H s1" "reader_ok sha b cr1"
      using cr_Read_serves [OF assms(4,1,5,2), of 512] by (metis zero_neq_numeral)
    with False assms(3) ok show ?thesis by (auto simp: sniff_type_def Let_def)
  qed
qed

lemma NewChunkReader_serves:
  assumes "H s" and "set (file_blobs sha b) \<subseteq> X" and "int64 (int (length b))"
  shows "\<exists>s' cr. NewChunkReader get s (file_key sha b) = (s', Inr cr) \<and> H s' \<and> reader_ok sha b cr \<and> cr_pos cr = 0"
proof -
  have "manifest_blob sha b \<in> X" using assms(2) by (auto simp: file_blobs_def)
  from serves [OF assms(1) this] obtain s' where "get s (ContentAddress sha (manifest_blob sha b)) = (s', Inr (manifest_blob sha b))" "H s'" by blast
  moreover have "UnmarshalFileManifest (manifest_blob sha b) = Some (manifest_of sha b)"
    using Unmarshal_Manifest [OF manifest_of_ok [OF assms(3)]] by (simp add: manifest_blob_def)
  ultimately show ?thesis by (simp add: NewChunkReader_def file_key_def reader_ok_def int64_def)
qed

lemma serveFromRoot_serves:
  assumes H: "H s" and X: "set (dir_blobs sha fs) \<subseteq> X" and fs: "paths_ok fs" "distinct (map fst fs)" and W: "gw_get W = get"
    and m: "rq_Method rq \<noteq> ''HEAD''" and b: "map_of fs (index_path subPath) = Some b" and req: "requested (rq_Range rq) b = Some sec"
  shows "\<exists>s' r. serveFromRoot W s rq (ContentAddress sha (Directory_Marshal (dir_of sha fs))) subPath = (s', r)
    \<and> H s' \<and> rs_Code r \<in> {200, 206} \<and> rs_Body r = sec"
proof -
  have dX: "Directory_Marshal (dir_of sha fs) \<in> X" "\<forall>(rel, b)\<in>set fs. set (file_blobs sha b) \<subseteq> X" using X by (simp_all add: dir_blobs_subset)
  from serves [OF H dX(1)] obtain s1 where
    g: "get s (ContentAddress sha (Directory_Marshal (dir_of sha fs))) = (s1, Inr (Directory_Marshal (dir_of sha fs)))" "H s1" by blast
  have "(index_path subPath, b) \<in> set fs" using b by (rule map_of_SomeD)
  with dX(2) fs(1) have bX: "set (file_blobs sha b) \<subseteq> X" "int64 (int (length b))" by (auto simp: paths_ok_def)
  then have ch: "set (chunks_of b) \<subseteq> X" by (auto simp: file_blobs_def)
  from NewChunkReader_serves [OF g(2) bX] obtain s2 cr where
    n: "NewChunkReader get s1 (file_key sha b) = (s2, Inr cr)" "H s2" "reader_ok sha b cr" "cr_pos cr = 0" by blast
  from sniff_type_serves [OF ch bX(2) W n(2-4)] obtain s3 cr1 ct where
    sn: "sniff_type W s2 cr (index_path subPath) = (s3, cr1, ct)" "H s3" "reader_ok sha b cr1" by blast
  from ServeContent_serves [OF ch bX(2) W m sn(2,3) req,
      of "Header_Set (Header_Set [] ''Content-Type'' ct) ''Etag'' (CHR 0x22 # Hex (file_key sha b) @ [CHR 0x22])"]
  show ?thesis using g(1) W n(1) sn(1) b Unmarshal_dir_of [OF fs(1), of sha] find_dir_of [OF fs(2)]
    by (auto simp: serveFromRoot_def entry_of_def)
qed

end

section \<open>The node under the gateway\<close>

interpretation all_calm: walk_invariant "visit_all key" env
  "\<lambda>d _. calm env \<longrightarrow> d_store d = s0 \<and> d_blocklist d = b0" "\<lambda>_. True"
  for key env s0 b0
  by unfold_locales
     (auto simp: calm_def list_all_iff visit_all_def sendFindValue_def split: prod.splits found.splits sum.splits if_splits option.splits)

lemma Resolve_calm:
  assumes "calm env" and "Resolve tr h env order d name = (d', r)"
  shows "store_find (d_store d') = store_find (d_store d) \<and> d_blocklist d' = d_blocklist d"
proof -
  have "store_find (d_store d') = store_find (d_store d) \<and> d_blocklist d' = d_blocklist d"
    if g: "GetAllUnverified h env order d key = (d', x)" for key x
  proof -
    obtain s1 c where st: "store_Get (h_now h) (d_store d) key = (s1, c)" by fastforce
    then have s1: "store_find s1 = store_find (d_store d)" using store_find_Get [of "h_now h" "d_store d" key] by simp
    let ?d1 = "d\<lparr>d_store := s1\<rparr>" and ?res = "case c of None \<Rightarrow> [] | Some v \<Rightarrow> [v]"
    obtain d2 all s2 q where w: "walk (visit_all key) (\<lambda>_. False) env key 0 [] (Closest (d_rt ?d1) key K) ?d1 ?res = (d2, all, s2, q)"
      by (metis prod_cases4)
    from all_calm.walk_start(1) [OF w, of s1 "d_blocklist d"] assms(1) have "d_store d2 = s1" "d_blocklist d2 = d_blocklist d" by simp_all
    moreover have "d' = ?d1 \<or> d' = d2" using g st w by (auto simp: GetAllUnverified_def Let_def split: if_splits)
    ultimately show ?thesis using s1 by auto
  qed
  with assms(2) show ?thesis by (auto simp: Resolve_def Let_def split: option.splits prod.splits sum.splits)
qed

text \<open>An environment in which nothing but the calls of the gateway happens to the node.\<close>

definition quiet :: "(nat \<Rightarrow> get_env) \<Rightarrow> bool" where
  "quiet E \<longleftrightarrow> (\<forall>k. calm (ge_env (E k)) \<and> (\<forall>d. ge_among (E k) d = d))"

lemma quiet_keeps: "quiet E \<Longrightarrow> keeps c E X"
  by (simp add: quiet_def keeps_def)

lemma quiet_Resolve_holds:
  assumes "quiet E" and "dht_Resolve c tr E ord (n, d) name = ((m, d'), r)" and "\<forall>x\<in>X. holds c d x"
  shows "\<forall>x\<in>X. holds c d' x"
proof -
  have "calm (\<lambda>r. (ge_env (E n) r)\<lparr>re_prims := c\<rparr>)" using assms(1) by (simp add: quiet_def calm_def)
  moreover have "Resolve tr ((ge_henv (E n))\<lparr>h_prims := c\<rparr>) (\<lambda>r. (ge_env (E n) r)\<lparr>re_prims := c\<rparr>) (ord n) d name = (d', r)"
    using assms(1,2) by (auto simp: dht_Resolve_def quiet_def Let_def split: prod.splits)
  ultimately have "store_find (d_store d') = store_find (d_store d) \<and> d_blocklist d' = d_blocklist d" by (rule Resolve_calm)
  with assms(3) show ?thesis by (simp add: holds_def IsBlocked_def)
qed

lemma Publish_keeps:
  assumes "PublishWithTTL pe d i name rootKey version ttl = Inr (d', rec)" and "calm (pe_lookup pe)" and "calm (\<lambda>_. pe_store pe)"
    and "maxBytes (d_store d) \<le> 0" and "\<not> IsBlocked d (RecordKey (h_prims (pe_h pe)) name)"
    and "RecordKey (h_prims (pe_h pe)) name \<notin> ContentAddress (sha256 c) ` X" and "\<forall>x\<in>X. holds c d x"
  shows "\<forall>x\<in>X. holds c d' x"
proof
  fix x assume x: "x \<in> X"
  obtain blob n where "Store (pe_h pe) (pe_lookup pe) (pe_store pe) d (RecordKey (h_prims (pe_h pe)) name) blob = Inr (d', n)"
    using assms(1) by (auto simp: PublishWithTTL_def Let_def split: option.splits if_splits sum.splits)
  from Store_calm [OF assms(2,3) this assms(5)]
  have "d_store d' = store_Put (h_keys (pe_h pe)) (h_fault (pe_h pe)) (h_now (pe_h pe)) (d_store d) (RecordKey (h_prims (pe_h pe)) name) blob"
    "d_blocklist d' = d_blocklist d" by simp_all
  moreover have "ContentAddress (sha256 c) x \<noteq> RecordKey (h_prims (pe_h pe)) name" using assms(6) x by force
  ultimately show "holds c d' x" using assms(4,7) x by (simp add: holds_def IsBlocked_def store_Put_other)
qed

lemma fold_store_blob_simps:
  "IsBlocked (fold (store_blob h) vs d) k = IsBlocked d k" "maxBytes (d_store (fold (store_blob h) vs d)) = maxBytes (d_store d)"
  by (induction vs arbitrary: d) simp_all

lemma PublishDir_holds:
  assumes "PublishDir h d (Some True) ws = Inr (d', rootKey, dir)" and "maxBytes (d_store d) \<le> 0"
    and "\<forall>x\<in>set (dir_blobs (sha256 (h_prims h)) (files_of ws)). \<not> IsBlocked d (ContentAddress (sha256 (h_prims h)) x)"
    and "inj_on (ContentAddress (sha256 (h_prims h))) (set (dir_blobs (sha256 (h_prims h)) (files_of ws)))"
  shows "\<forall>x\<in>set (dir_blobs (sha256 (h_prims h)) (files_of ws)). holds (h_prims h) d' x"
    "maxBytes (d_store d') \<le> 0" "IsBlocked d' k = IsBlocked d k"
    "rootKey = ContentAddress (sha256 (h_prims h)) (Directory_Marshal (dir_of (sha256 (h_prims h)) (files_of ws)))"
  using assms fold_store_blob_holds [OF assms(2) _ assms(3), of "{}"] by (simp_all add: PublishDir_iff fold_store_blob_simps)

section \<open>Properties\<close>

lemma handle_host:
  assumes "isResolvableHost (request_host rq)" and "rq_Method rq = ''GET'' \<or> rq_Method rq = ''HEAD''"
  shows "gateway_handle W now g rq = serveName W now g rq (request_host rq) (TrimPrefix (rq_Path rq) ''/'')"
  using assms by (auto simp: gateway_handle_def Let_def)



text \<open>The requests of the gateway at a moment, with those that are inside the handler.\<close>

inductive gw_step :: "rounding \<Rightarrow> 's gw_world \<Rightarrow> 's Gateway \<times> request list \<Rightarrow> 's Gateway \<times> request list \<Rightarrow> bool" for rnd W where
  Enter: "gateway_enter rnd now g rq = (g', None) \<Longrightarrow> gw_step rnd W (g, rs) (g', rq # rs)"
| Refuse: "gateway_enter rnd now g rq = (g', Some r) \<Longrightarrow> gw_step rnd W (g, rs) (g', rs)"
| Serve: "rq \<in> set rs \<Longrightarrow> gateway_handle W now g rq = (g', r) \<Longrightarrow> gw_step rnd W (g, rs) (g', rs)"
| Leave: "gw_step rnd W (g, xs @ rq # ys) (gateway_leave g, xs @ ys)"

inductive_cases gw_stepE: "gw_step rnd W s t"

definition sem_inv :: "int \<Rightarrow> 's Gateway \<times> request list \<Rightarrow> bool" where
  "sem_inv conc = (\<lambda>(g, rs).
     if conc > 0 then g_sem g = Some (nat conc, length rs) \<and> length rs \<le> nat conc else g_sem g = None)"

lemma serveFromRoot_code:
  assumes "serveFromRoot W s rq rootKey subPath = (s', r)"
  shows "rs_Code r \<in> {200, 206, 404, 416, 500, 502}"
proof -
  have send: "send_content W s cr rq h code n = (s', r) \<Longrightarrow> rs_Code r = code" for s cr h code n
    by (auto simp: send_content_def Let_def split: if_splits prod.splits)
  have serve: "rs_Code r \<in> {200, 206, 416, 500}" if "ServeContent W s cr rq h = (s', r)" for s cr h
    using that by (auto simp: ServeContent_def serve_Error_def dest: send split: prod.splits sum.splits option.splits)
  show ?thesis
    using assms by (auto simp: serveFromRoot_def Let_def dest!: serve split: prod.splits sum.splits option.splits)
qed

lemma serveName_frame:
  assumes "serveName W now g rq name subPath = (g', r)"
  shows "g_sem g' = g_sem g \<and> g_limiter g' = g_limiter g \<and> rs_Code r \<in> {200, 206, 404, 416, 500, 502}"
  using assms by (auto simp: serveName_def dest: serveFromRoot_code split: prod.splits sum.splits)

lemma serveCID_frame:
  assumes "serveCID W g rq hexRoot subPath = (g', r)"
  shows "g_sem g' = g_sem g \<and> g_limiter g' = g_limiter g \<and> (rs_Code r = 400 \<longrightarrow> g_d g' = g_d g)
    \<and> rs_Code r \<in> {200, 206, 400, 404, 416, 500, 502}"
  using assms by (auto simp: serveCID_def dest: serveFromRoot_code split: prod.splits sum.splits)

lemma handle_frame:
  assumes "gateway_handle W now g rq = (g', r)"
  shows "g_sem g' = g_sem g \<and> g_limiter g' = g_limiter g \<and> (rs_Code r \<in> {400, 405} \<longrightarrow> g_d g' = g_d g)
    \<and> rs_Code r \<in> {200, 206, 400, 404, 405, 416, 500, 502}"
  using assms
  by (auto simp: gateway_handle_def serveLanding_def Let_def dest: serveName_frame serveCID_frame split: if_splits prod.splits)

lemma enter_frame:
  assumes "gateway_enter rnd now g rq = (g1, x)"
  shows "g_d g1 = g_d g \<and> (case x of None \<Rightarrow> g_sem g1 = map_option (\<lambda>(capacity, used). (capacity, used + 1)) (g_sem g)
    | Some r \<Rightarrow> g_sem g1 = g_sem g \<and> rs_Code r \<in> {429, 503})"
  using assms by (auto simp: gateway_enter_def Let_def split: prod.splits option.splits if_splits)

lemma leave_frame: "gateway_leave g = g\<lparr>g_sem := x\<rparr>" if "g_sem g = map_option (\<lambda>(capacity, used). (capacity, used + 1)) x"
  using that by (cases x) (auto simp: gateway_leave_def split: prod.splits)

interpretation sem: step_invariant "gw_step rnd W" "sem_inv conc" for rnd W conc
proof
  fix s t assume "sem_inv conc s" "gw_step rnd W s t"
  then show "sem_inv conc t"
    by (elim gw_stepE)
       (auto simp: sem_inv_def gateway_enter_def gateway_leave_def Let_def split: prod.splits option.splits if_splits dest: handle_frame)
qed

text \<open>
  C27: the bound on the work in progress. Whatever requests arrive, run and end in whatever order,
  no more requests are inside the handler than the option allows, 256 by default, and no request is
  turned away as long as there is room: the gateway answers that it is busy exactly when the bound
  is reached and the rate limiter has let the request pass.
\<close>

theorem gateway_concurrency:
  assumes "conc = (if MaxConcurrent opts = 0 then 256 else MaxConcurrent opts)" and "0 < conc"
    and "(gw_step rnd W)\<^sup>*\<^sup>* ((NewWithOptions rnd now d opts)\<lparr>g_stats := st\<rparr>, []) (g, rs)"
  shows "length rs \<le> nat conc
    \<and> ((\<exists>g' r. gateway_enter rnd now' g rq = (g', Some r) \<and> rs_Code r = 503)
        \<longleftrightarrow> length rs = nat conc \<and> snd (ip_allow rnd now' (g_limiter g) (remoteIP rq)))"
proof -
  have "sem_inv conc ((NewWithOptions rnd now d opts)\<lparr>g_stats := st\<rparr>, [])"
    using assms(1,2) by (auto simp: sem_inv_def NewWithOptions_def DefaultMaxConcurrent_def Let_def)
  from sem.run_inv [OF assms(3) this] assms(2) have i: "g_sem g = Some (nat conc, length rs)" "length rs \<le> nat conc" by (auto simp: sem_inv_def)
  then show ?thesis by (auto simp: gateway_enter_def Let_def split: prod.splits)
qed

text \<open>
  Every request is answered, errors included, and the semaphore is given back on every path. The
  gateway answers with one of ten codes; a request that is refused for its method, its key, the
  rate or the load leaves the node as it was.
\<close>

theorem gateway_answers:
  assumes "handleWithLimits rnd W now later g rq = (g', r)"
  shows "rs_Code r \<in> {200, 206, 400, 404, 405, 416, 429, 500, 502, 503} \<and> g_sem g' = g_sem g
    \<and> (rs_Code r \<in> {400, 405, 429, 503} \<longrightarrow> g_d g' = g_d g)"
proof -
  obtain g1 x where e: "gateway_enter rnd now g rq = (g1, x)" by fastforce
  note f = enter_frame [OF e]
  show ?thesis
  proof (cases x)
    case None
    obtain g2 r2 where h: "gateway_handle W later g1 rq = (g2, r2)" by fastforce
    note k = handle_frame [OF h]
    have "gateway_leave g2 = g2\<lparr>g_sem := g_sem g\<rparr>" using f k None by (intro leave_frame) simp
    with assms e h None have "g' = g2\<lparr>g_sem := g_sem g\<rparr>" "r = r2" by (auto simp: handleWithLimits_def)
    with k f None show ?thesis by auto
  next
    case (Some y)
    with assms e have "g' = g1" "r = y" by (auto simp: handleWithLimits_def)
    with f Some show ?thesis by auto
  qed
qed

section \<open>A site\<close>

definition sample_site :: DHT where
  "sample_site = fold (store_blob file_henv) [[7], sample_manifest, sample_directory] sample_dht"

definition sample_root :: NodeID where
  "sample_root = ContentAddress (sha256 file_prims) sample_directory"

definition sample_pe :: publish_env where
  "sample_pe = (sample_publish 0)\<lparr>pe_h := file_henv\<rparr>"

definition sample_rec :: NameRecord where
  "sample_rec = record_Sign file_prims (zero_NameRecord\<lparr>nr_Name := ''a.alt'', nr_Root := Hex sample_root, nr_Version := 1,
     nr_Timestamp := 0, nr_TTL := DefaultNameTTL\<rparr>) toy_identity"

definition sample_named :: DHT where
  "sample_named = sample_site\<lparr>d_store := store_Put [] None 0 (d_store sample_site) (RecordKey file_prims ''a.alt'')
     (Marshal (enc_NameRecord sample_rec))\<rparr>"

definition sample_request :: request where
  "sample_request = \<lparr>rq_Method = ''GET'', rq_Host = ''a.alt:9080'', rq_Path = ''/a'', rq_RemoteAddr = ''1.2.3.4:5'',
     rq_Header = (\<lambda>_. []), rq_Query = (\<lambda>_. []), rq_Range = None, rq_Body = []\<rparr>"

definition sample_world :: "(nat \<times> DHT) gw_world" where
  "sample_world = node_world file_prims None file_env (\<lambda>_ xs. xs) (\<lambda>_. []) (\<lambda>_. []) (\<lambda>_. ''text/plain'') 0"

definition sample_gateway :: "(nat \<times> DHT) Gateway" where
  "sample_gateway = gateway_New (\<lambda>x. x) 0 (0, sample_named)"

lemma file_prims_ok: "prims_ok file_prims" "identity_ok file_prims toy_identity"
  using toy_prims_ok toy_identity_ok by (simp_all add: prims_ok_def file_prims_def identity_ok_def NewKeyFromSeed_def)

lemma walk_alone: "walk visit stop env target r queried [] d acc = (d, acc, [], queried)"
  by (simp add: walk.simps pick_batch_def)

lemma Closest_alone: "All_rt (d_rt d) = [] \<Longrightarrow> Closest (d_rt d) key n = []"
  by (simp add: Closest_def)

lemma Store_alone:
  assumes "All_rt (d_rt d) = []" and "\<not> IsBlocked d key" and "length v \<le> MaxValueSize" and "re_order e [] = []" and "re_among e 0 = (\<lambda>d. d)"
  shows "\<exists>n. Store h env e d key v = Inr (d\<lparr>d_store := store_Put (h_keys h) (h_fault h) (h_now h) (d_store d) key v\<rparr>, n)"
  using assms
  by (simp add: Store_def StoreLocal_def Replicate_def Lookup_def Closest_alone walk_alone)

lemma sample_site_alone: "All_rt (d_rt sample_site) = []" "\<not> IsBlocked sample_site k" "maxBytes (d_store sample_site) = 0"
proof -
  have "d_rt (fold (store_blob h) vs d) = d_rt d" for h vs d by (induction vs arbitrary: d) (simp_all add: store_blob_def)
  then have "d_rt sample_site = d_rt sample_dht" unfolding sample_site_def by blast
  moreover have "foldl (@) [] (replicate n []) = []" for n by (induction n) simp_all
  ultimately show "All_rt (d_rt sample_site) = []" by (simp add: sample_dht_def All_rt_def SetEvictionPing_def NewRoutingTable_def)
  show "\<not> IsBlocked sample_site k" "maxBytes (d_store sample_site) = 0"
    by (simp_all only: sample_site_def fold_store_blob_simps sample_dht_simps not_False_eq_True)
qed

lemma sample_name: "validName ''a.alt'' = None" "CanonicalName ''a.alt'' = ''a.alt''" "request_host sample_request = ''a.alt''"
  "isResolvableHost ''a.alt''" "TrimPrefix (rq_Path sample_request) ''/'' = ''a''" "index_path ''a'' = ''a''"
  by code_simp+

lemma sample_rec_fits: "length (Marshal (enc_NameRecord sample_rec)) \<le> MaxValueSize"
proof -
  let ?r0 = "zero_NameRecord\<lparr>nr_Name := ''a.alt'', nr_Root := Hex sample_root, nr_Version := 1, nr_Timestamp := 0, nr_TTL := DefaultNameTTL\<rparr>"
  have "length (dec_int 1) = 1" "length (dec_int 0) = 1" by code_simp+
  moreover have "length (dec_int DefaultNameTTL) \<le> 6" using length_dec_nat [of 604800 6] by (simp add: dec_int_def DefaultNameTTL_def)
  moreover have "list_all plain_char ''a.alt''" by (simp add: plain_char_def)
  moreover have "length (Hex sample_root) = 64" "list_all plain_char (Hex sample_root)" by (simp_all add: Hex_def IDSize_def)
  ultimately show ?thesis
    using enc_NameRecord_length [of sample_rec]
      enc_NameRecord_length [of "?r0\<lparr>nr_PublicKey := PublicKeyToHex (PublicKey toy_identity), nr_Sig := []\<rparr>"]
    by (simp add: sample_rec_def record_Sign_def Let_def Sign_def PublicKeyToHex_def zero_NameRecord_def MaxValueSize_def)
       (simp add: file_prims_def toy_prims_def toy_identity_def)
qed

lemma sample_published_name: "PublishWithTTL sample_pe sample_site toy_identity ''a.alt'' sample_root 1 DefaultNameTTL = Inr (sample_named, sample_rec)"
proof -
  have "re_order (pe_store sample_pe) [] = []" "re_among (pe_store sample_pe) 0 = (\<lambda>d. d)"
    by (simp_all add: sample_pe_def sample_publish_def sample_env_def)
  from Store_alone [OF sample_site_alone(1,2) sample_rec_fits this, of file_henv "pe_lookup sample_pe" "RecordKey file_prims ''a.alt''"]
  obtain n where "Store file_henv (pe_lookup sample_pe) (pe_store sample_pe) sample_site (RecordKey file_prims ''a.alt'')
      (Marshal (enc_NameRecord sample_rec)) = Inr (sample_named, n)"
    by (auto simp: sample_named_def file_henv_def sample_henv_def)
  moreover have "pe_h sample_pe = file_henv" "Unix (h_now file_henv) = 0" by (simp_all add: sample_pe_def file_henv_def sample_henv_def Unix_def)
  ultimately show ?thesis using sample_rec_fits by (simp add: PublishWithTTL_def sample_name Let_def sample_rec_def)
qed

lemma sample_resolved: "\<exists>d. dht_Resolve file_prims None file_env (\<lambda>_ xs. xs) (0, sample_named) ''a.alt'' = ((1, d), Inr sample_rec)"
proof -
  let ?blob = "Marshal (enc_NameRecord sample_rec)" and ?k = "RecordKey file_prims ''a.alt''"
  have f: "store_find (d_store sample_named) ?k = Some ?blob" by (simp add: sample_named_def store_Put_find)
  have g: "store_Get now (d_store sample_named) ?k = (fst (store_Get now (d_store sample_named) ?k), Some ?blob)" for now
    using f by (simp add: prod_eq_iff store_find_def)
  have cl: "Closest (d_rt sample_named) key n = []" for key n using sample_site_alone(1) by (simp add: sample_named_def Closest_def)
  have "record_ok (zero_NameRecord\<lparr>nr_Name := ''a.alt'', nr_Root := Hex sample_root, nr_Version := 1, nr_Timestamp := 0, nr_TTL := DefaultNameTTL\<rparr>)"
    by (simp add: record_ok_def zero_NameRecord_def int64_def DefaultNameTTL_def) (simp add: ascii_def)
  from dec_enc_NameRecord [OF record_Sign_ok [OF this, of file_prims toy_identity]]
  have "acceptable file_prims None 0 ''a.alt'' ?blob sample_rec"
    using record_Sign_Verify [OF file_prims_ok]
    by (simp add: acceptable_def sample_rec_def registrarAllowed_def Expired_def zero_NameRecord_def wrap64_def MaxClockSkew_def DefaultNameTTL_def)
  then have p: "pickBestRecord file_prims None 0 ''a.alt'' [?blob] = (Some sample_rec, None)"
    by (simp add: pickBestRecord_def acceptable_def)
  show ?thesis
    by (simp add: dht_Resolve_def file_env_def Resolve_def sample_name GetAllUnverified_def Let_def file_henv_def sample_henv_def)
       (subst g, simp add: cl walk_alone p Unix_def)
qed

lemma sample_site_published:
  "PublishDir file_henv sample_dht (Some True) [WalkOther, WalkFile ''a'' (Some [7])]
   = Inr (sample_site, sample_root, dir_of (sha256 file_prims) [(''a'', [7])])"
proof -
  obtain d' where d': "PublishDir file_henv sample_dht (Some True) [WalkOther, WalkFile ''a'' (Some [7])]
    = Inr (d', ContentAddress (sha256 file_prims) sample_directory, dir_of (sha256 file_prims) [(''a'', [7])])"
    using sample_publish_dir by blast
  then have "d' = sample_site" by (simp add: PublishDir_iff sample_blobs sample_site_def)
  with d' show ?thesis by (simp add: sample_root_def)
qed

lemma sample_paths_ok: "paths_ok [(''a'', [7])]"
  by (simp add: paths_ok_def int64_def) (simp add: ascii_def)

lemma sample_record_key: "RecordKey file_prims ''a.alt'' \<notin> ContentAddress (sha256 file_prims) ` {[7], sample_manifest, sample_directory}"
proof -
  have k: "RecordKey file_prims ''a.alt'' = ContentAddress (sha256 file_prims) (bytes_of_string ''a.alt'')"
    by (simp add: RecordKey_def ContentAddress_def sample_name)
  have "length sample_manifest \<noteq> length (bytes_of_string ''a.alt'')" "length sample_directory \<noteq> length (bytes_of_string ''a.alt'')"
    "length ([7] :: bytes) \<noteq> length (bytes_of_string ''a.alt'')" by (simp_all add: sample_lengths)
  then have "sample_number (bytes_of_string ''a.alt'') = 0" unfolding sample_number_def by metis
  moreover have "sample_number v \<noteq> 0" if "v \<in> {[7], sample_manifest, sample_directory}" for v
    using that by (auto simp: sample_number_def)
  ultimately show ?thesis by (auto simp: k sample_address)
qed

lemma sample_quiet: "quiet file_env"
  by (simp add: quiet_def file_env_def calm_def sample_env_def)



theorem gateway_concurrency_witness:
  "length [sample_request] \<le> nat 1
    \<and> (\<exists>g' r. gateway_enter (\<lambda>x. x) 0 (fst (gateway_enter (\<lambda>x. x) 0 (NewWithOptions (\<lambda>x. x) 0 () \<lparr>PerIPRate = 0, PerIPBurst = 0, MaxConcurrent = 1\<rparr>)
          sample_request)) sample_request = (g', Some r) \<and> rs_Code r = 503)"
proof -
  let ?opts = "\<lparr>PerIPRate = 0, PerIPBurst = 0, MaxConcurrent = 1\<rparr>"
  let ?g0 = "NewWithOptions (\<lambda>x. x) 0 () ?opts" and ?W = "undefined :: unit gw_world"
  let ?g1 = "fst (gateway_enter (\<lambda>x. x) 0 ?g0 sample_request)"
  have a: "snd (gateway_enter (\<lambda>x. x) 0 ?g0 sample_request) = None" "snd (ip_allow (\<lambda>x. x) 0 (g_limiter ?g1) (remoteIP sample_request))"
    by code_simp+
  then have "gw_step (\<lambda>x. x) ?W (?g0, []) (?g1, [sample_request])" by (auto intro: Enter simp: prod_eq_iff)
  moreover have "?g0 = ?g0\<lparr>g_stats := None\<rparr>" by (simp add: NewWithOptions_def Let_def)
  ultimately have "(gw_step (\<lambda>x. x) ?W)\<^sup>*\<^sup>* (?g0\<lparr>g_stats := None\<rparr>, []) (?g1, [sample_request])" by simp
  from gateway_concurrency [OF _ _ this, of 1 0 sample_request] a(2) show ?thesis by simp
qed

theorem gateway_answers_witness:
  "g_sem (fst (handleWithLimits (\<lambda>x. x) sample_world 0 0 sample_gateway sample_request)) = Some (256, 0)"
proof -
  have "g_sem sample_gateway = Some (256, 0)"
    by (simp add: sample_gateway_def gateway_New_def NewWithOptions_def DefaultMaxConcurrent_def Let_def)
  with gateway_answers [of "\<lambda>x. x" sample_world 0 0 sample_gateway sample_request] show ?thesis by (metis surjective_pairing)
qed

end
