(* ===== verification/Registrar.thy ===== *)
theory Registrar
  imports Gateway
begin

text \<open>
  \<^verbatim>\<open>apps/registrar/registrar.go\<close>: the HTTP interface through which the desktop application registers
  names, publishes directories and takes sites down. A Go map may be nil and so may its pointers: the
  registry is an optional finite map to optional records, and a handler that writes to a nil map or
  follows a nil pointer has the value \<open>None\<close>. Clock, network, file system and the texts of errors of
  other packages are arguments; the file of the registry is part of the state.
\<close>

section \<open>Definitions\<close>

record RegistrationRecord =
  rr_Name :: string
  rr_Root :: string
  rr_Owner :: string
  rr_RegisteredAt :: int
  rr_UpdatedAt :: int
  rr_Version :: int

type_synonym registry = "(string, RegistrationRecord option) fmap option"

record Registrar =
  rg_d :: "nat \<times> DHT"
  rg_id :: Identity
  rg_token :: string
  rg_registry :: registry
  rg_registryPath :: string
  rg_file :: "bytes option"
  rg_stats :: "Stats option"

text \<open>Texts that other packages compose: of errors, and a string in quotes.\<close>

datatype reg_text =
    TextDecode bytes
  | TextPublish publish_error
  | TextDir publish_dir_error
  | TextSign sign_error
  | TextQuoted string

record reg_world =
  rw_prims :: prims
  rw_trusted :: registrars
  rw_E :: "nat \<Rightarrow> get_env"
  rw_ord :: "nat \<Rightarrow> bytes list \<Rightarrow> bytes list"
  rw_pe :: "nat \<Rightarrow> publish_env"
  rw_henv :: henv
  rw_stat :: "string \<Rightarrow> bool option"
  rw_walk :: "string \<Rightarrow> walked list"
  rw_now :: time
  rw_nonce :: "bytes option"
  rw_text :: "reg_text \<Rightarrow> string"
  rw_order :: "string list \<Rightarrow> string list"
  rw_written :: bool
  rw_renamed :: bool
  rw_location :: "request \<Rightarrow> string"

subsection \<open>The registry on disk\<close>

definition enc_Registration :: "RegistrationRecord \<Rightarrow> json" where
  "enc_Registration r = JObj [(''name'', JStr (rr_Name r)), (''root'', JStr (rr_Root r)), (''owner'', JStr (rr_Owner r)),
     (''registered_at'', int_json (rr_RegisteredAt r)), (''updated_at'', int_json (rr_UpdatedAt r)), (''version'', int_json (rr_Version r))]"

definition zero_Registration :: RegistrationRecord where
  "zero_Registration = \<lparr>rr_Name = [], rr_Root = [], rr_Owner = [], rr_RegisteredAt = 0, rr_UpdatedAt = 0, rr_Version = 0\<rparr>"

definition dec_Registration :: "RegistrationRecord field_dec" where
  "dec_Registration = dec_struct [
     (''name'', field dec_string rr_Name rr_Name_update),
     (''root'', field dec_string rr_Root rr_Root_update),
     (''owner'', field dec_string rr_Owner rr_Owner_update),
     (''registered_at'', field dec_int64 rr_RegisteredAt rr_RegisteredAt_update),
     (''updated_at'', field dec_int64 rr_UpdatedAt rr_UpdatedAt_update),
     (''version'', field dec_int64 rr_Version rr_Version_update)]"

text \<open>A map is written with its keys in order; nil is written as null, a nil map too.\<close>

definition enc_registry :: "registry \<Rightarrow> json" where
  "enc_registry r =
     (case r of
        None \<Rightarrow> JNull
      | Some m \<Rightarrow> JObj (map (\<lambda>k. (k, case fmlookup m k of Some (Some rec) \<Rightarrow> enc_Registration rec | _ \<Rightarrow> JNull)) (sorted_list_of_fset (fmdom m))))"

fun dec_entries :: "(string \<times> json) list \<Rightarrow> (string, RegistrationRecord option) fmap \<Rightarrow> (string, RegistrationRecord option) fmap option" where
  "dec_entries [] m = Some m"
| "dec_entries ((k, j) # kvs) m =
     (if j = JNull then dec_entries kvs (fmupd k None m)
      else case dec_Registration j zero_Registration of
             None \<Rightarrow> None
           | Some rec \<Rightarrow> dec_entries kvs (fmupd k (Some rec) m))"

definition dec_registry :: "registry field_dec" where
  "dec_registry j x =
     (case j of
        JNull \<Rightarrow> Some None
      | JObj kvs \<Rightarrow> map_option Some (dec_entries kvs (case x of None \<Rightarrow> fmempty | Some m \<Rightarrow> m))
      | _ \<Rightarrow> None)"

definition registrar_New :: "nat \<times> DHT \<Rightarrow> Identity \<Rightarrow> string \<Rightarrow> Registrar" where
  "registrar_New d i token =
     \<lparr>rg_d = d, rg_id = i, rg_token = token, rg_registry = Some fmempty, rg_registryPath = [], rg_file = None, rg_stats = None\<rparr>"

definition registrar_SetStats :: "Registrar \<Rightarrow> Stats \<Rightarrow> Registrar" where
  "registrar_SetStats reg s = reg\<lparr>rg_stats := Some s\<rparr>"

text \<open>What reading the file gives: there is none, an error, or its bytes.\<close>

datatype file_read = FileMissing | FileUnreadable | FileBytes bytes

definition registrar_load :: "file_read \<Rightarrow> Registrar \<Rightarrow> Registrar option" where
  "registrar_load f reg =
     (case f of
        FileMissing \<Rightarrow> Some (reg\<lparr>rg_file := None\<rparr>)
      | FileUnreadable \<Rightarrow> None
      | FileBytes bs \<Rightarrow>
          if bs = [] then Some (reg\<lparr>rg_file := Some bs\<rparr>)
          else case Unmarshal dec_registry (string_of_bytes bs) None of
                 None \<Rightarrow> None
               | Some stored \<Rightarrow> Some (reg\<lparr>rg_file := Some bs, rg_registry := stored\<rparr>))"

definition NewWithDataDir :: "nat \<times> DHT \<Rightarrow> Identity \<Rightarrow> string \<Rightarrow> string \<Rightarrow> bool \<Rightarrow> file_read \<Rightarrow> Registrar option" where
  "NewWithDataDir d i token dir0 mkdir_ok f =
     (let r = registrar_New d i token
      in if dir0 = [] then Some r
         else if \<not> mkdir_ok then None
         else registrar_load f (r\<lparr>rg_registryPath := path_Join dir0 ''registrar.json''\<rparr>))"

definition registrar_save :: "reg_world \<Rightarrow> Registrar \<Rightarrow> Registrar" where
  "registrar_save W reg =
     (if rg_registryPath reg = [] then reg
      else if \<not> rw_written W then reg
      else if \<not> rw_renamed W then reg
      else reg\<lparr>rg_file := Some (MarshalIndent (enc_registry (rg_registry reg)))\<rparr>)"

subsection \<open>Replies\<close>

definition jsonReply :: "headers \<Rightarrow> nat \<Rightarrow> json \<Rightarrow> response" where
  "jsonReply h status v =
     \<lparr>rs_Code = status, rs_Header = Header_Set h ''Content-Type'' ''application/json'', rs_Body = Marshal v @ bytes_of_string line_feed\<rparr>"

definition jsonError :: "headers \<Rightarrow> string \<Rightarrow> nat \<Rightarrow> response" where
  "jsonError h msg status = jsonReply h status (JObj [(''error'', JStr msg)])"

definition requireAuth :: "headers \<Rightarrow> Registrar \<Rightarrow> request \<Rightarrow> response option" where
  "requireAuth h reg r =
     (let auth = rq_Header r ''Authorization''
      in if auth = [] then Some (jsonError h ''missing Authorization header'' 401)
         else
           let token = TrimSpace (TrimPrefix (TrimPrefix auth ''Bearer '') ''bearer '')
           in if token \<noteq> rg_token reg then Some (jsonError h ''invalid token'' 401) else None)"

definition ValidateDomain :: "(reg_text \<Rightarrow> string) \<Rightarrow> string \<Rightarrow> string option" where
  "ValidateDomain tx canonical =
     (if canonical = [] then Some ''domain name cannot be empty''
      else if length canonical < 2 then Some ''domain name too short (minimum 2 characters)''
      else if \<not> HasSuffix canonical ''.alt'' then Some (''domain must end in .alt (got '' @ tx (TextQuoted canonical) @ '')'')
      else if TrimSuffix canonical ''.alt'' = [] then Some ''domain name before .alt cannot be empty''
      else None)"

text \<open>The calls of the package \<^verbatim>\<open>name\<close> on the node of the registrar.\<close>

definition reg_Resolve :: "reg_world \<Rightarrow> nat \<times> DHT \<Rightarrow> string \<Rightarrow> (nat \<times> DHT) \<times> (resolve_error + NameRecord)" where
  "reg_Resolve W = dht_Resolve (rw_prims W) (rw_trusted W) (rw_E W) (rw_ord W)"

definition reg_Get :: "reg_world \<Rightarrow> (nat \<times> DHT) getter" where
  "reg_Get W = dht_Get (rw_prims W) (rw_E W)"

definition dht_Publish ::
  "prims \<Rightarrow> (nat \<Rightarrow> publish_env) \<Rightarrow> nat \<times> DHT \<Rightarrow> Identity \<Rightarrow> string \<Rightarrow> NodeID \<Rightarrow> int \<Rightarrow> (nat \<times> DHT) \<times> (publish_error + NameRecord)" where
  "dht_Publish c PE s i name rootKey version =
     (let pe = PE (fst s)
      in case Publish (pe\<lparr>pe_h := (pe_h pe)\<lparr>h_prims := c\<rparr>\<rparr>) (snd s) i name rootKey version of
           Inl e \<Rightarrow> ((fst s + 1, snd s), Inl e)
         | Inr (d, rec) \<Rightarrow> ((fst s + 1, d), Inr rec))"

definition reg_Publish :: "reg_world \<Rightarrow> Registrar \<Rightarrow> string \<Rightarrow> NodeID \<Rightarrow> int \<Rightarrow> (nat \<times> DHT) \<times> (publish_error + NameRecord)" where
  "reg_Publish W reg name rootKey version = dht_Publish (rw_prims W) (rw_pe W) (rg_d reg) (rg_id reg) name rootKey version"

subsection \<open>Checking and registering\<close>

definition enc_CheckResponse :: "string \<Rightarrow> bool \<Rightarrow> string \<Rightarrow> string \<Rightarrow> string \<Rightarrow> json" where
  "enc_CheckResponse name available owner rootHex err =
     JObj ([(''name'', JStr name), (''available'', JBool available)] @ omit (owner = []) ''owner'' (JStr owner)
       @ omit (rootHex = []) ''root'' (JStr rootHex) @ omit (err = []) ''error'' (JStr err))"

definition reg_lookup :: "Registrar \<Rightarrow> string \<Rightarrow> RegistrationRecord option option" where
  "reg_lookup reg name = (case rg_registry reg of None \<Rightarrow> None | Some m \<Rightarrow> fmlookup m name)"

definition handleCheck :: "reg_world \<Rightarrow> headers \<Rightarrow> Registrar \<Rightarrow> request \<Rightarrow> (Registrar \<times> response) option" where
  "handleCheck W h reg r =
     (if rq_Method r \<noteq> ''GET'' then Some (reg, jsonError h ''method not allowed'' 405)
      else
        let rawName = TrimPrefix (rq_Path r) ''/api/check/''; canonical = CanonicalName rawName
        in if rawName = [] then Some (reg, jsonError h ''missing name in URL path'' 400)
           else case ValidateDomain (rw_text W) canonical of
                  Some e \<Rightarrow> Some (reg, jsonReply h 400 (enc_CheckResponse canonical False [] [] e))
                | None \<Rightarrow>
                    (case reg_lookup reg canonical of
                       Some None \<Rightarrow> None
                     | Some (Some rec) \<Rightarrow> Some (reg, jsonReply h 200 (enc_CheckResponse canonical False (rr_Owner rec) (rr_Root rec) []))
                     | None \<Rightarrow>
                         (case reg_Resolve W (rg_d reg) canonical of
                            (d1, Inr dhtRec) \<Rightarrow>
                              Some (reg\<lparr>rg_d := d1\<rparr>, jsonReply h 200 (enc_CheckResponse canonical False [] (nr_Root dhtRec) []))
                          | (d1, Inl _) \<Rightarrow> Some (reg\<lparr>rg_d := d1\<rparr>, jsonReply h 200 (enc_CheckResponse canonical True [] [] [])))))"

record RegisterRequest =
  rq_name :: string
  rq_root :: string
  rq_owner :: string

definition dec_RegisterRequest :: "RegisterRequest field_dec" where
  "dec_RegisterRequest = dec_struct [
     (''name'', field dec_string rq_name rq_name_update),
     (''root'', field dec_string rq_root rq_root_update),
     (''owner'', field dec_string rq_owner rq_owner_update)]"

definition zero_RegisterRequest :: RegisterRequest where
  "zero_RegisterRequest = \<lparr>rq_name = [], rq_root = [], rq_owner = []\<rparr>"

definition enc_RegisterResponse :: "string \<Rightarrow> string \<Rightarrow> int \<Rightarrow> string \<Rightarrow> json" where
  "enc_RegisterResponse name rootHex version err =
     JObj ([(''name'', JStr name), (''root'', JStr rootHex), (''version'', int_json version)] @ omit (err = []) ''error'' (JStr err))"

definition decode_error :: "reg_world \<Rightarrow> headers \<Rightarrow> request \<Rightarrow> response" where
  "decode_error W h r = jsonError h (''invalid JSON body: '' @ rw_text W (TextDecode (rq_Body r))) 400"

definition registrar_handleRegister :: "reg_world \<Rightarrow> headers \<Rightarrow> Registrar \<Rightarrow> request \<Rightarrow> (Registrar \<times> response) option" where
  "registrar_handleRegister W h reg r =
     (if rq_Method r \<noteq> ''POST'' then Some (reg, jsonError h ''method not allowed'' 405)
      else case requireAuth h reg r of
        Some refused \<Rightarrow> Some (reg, refused)
      | None \<Rightarrow>
          (case Decode dec_RegisterRequest (string_of_bytes (rq_Body r)) zero_RegisterRequest of
             None \<Rightarrow> Some (reg, decode_error W h r)
           | Some req \<Rightarrow>
               let canonical = CanonicalName (rq_name req)
               in case ValidateDomain (rw_text W) canonical of
                    Some e \<Rightarrow> Some (reg, jsonReply h 400 (enc_RegisterResponse [] [] 0 e))
                  | None \<Rightarrow>
                      (case IDFromHex (rq_root req) of
                         Inl _ \<Rightarrow> Some (reg, jsonReply h 400 (enc_RegisterResponse [] [] 0 ''invalid root key: must be 64-char hex string''))
                       | Inr rootKey \<Rightarrow>
                           if reg_lookup reg canonical \<noteq> None then
                             Some (reg, jsonReply h 409 (enc_RegisterResponse [] [] 0
                               (''domain '' @ rw_text W (TextQuoted canonical) @ '' is already registered'')))
                           else
                             (case reg_Publish W reg canonical rootKey (rw_now W) of
                                (d1, Inl e) \<Rightarrow>
                                  Some (reg\<lparr>rg_d := d1\<rparr>, jsonReply h 500 (enc_RegisterResponse [] [] 0
                                    (''failed to publish to DHT: '' @ rw_text W (TextPublish e))))
                              | (d1, Inr dhtRec) \<Rightarrow>
                                  (case rg_registry reg of
                                     None \<Rightarrow> None
                                   | Some m \<Rightarrow>
                                       let rec = \<lparr>rr_Name = canonical, rr_Root = rq_root req, rr_Owner = rq_owner req,
                                             rr_RegisteredAt = Unix (rw_now W), rr_UpdatedAt = Unix (rw_now W), rr_Version = nr_Version dhtRec\<rparr>
                                       in Some (registrar_save W (reg\<lparr>rg_d := d1, rg_registry := Some (fmupd canonical (Some rec) m)\<rparr>),
                                                jsonReply h 201 (enc_RegisterResponse canonical (nr_Root dhtRec) (nr_Version dhtRec) [])))))))"

record UpdateRequest =
  up_name :: string
  up_root :: string

definition dec_UpdateRequest :: "UpdateRequest field_dec" where
  "dec_UpdateRequest = dec_struct [(''name'', field dec_string up_name up_name_update), (''root'', field dec_string up_root up_root_update)]"

definition zero_UpdateRequest :: UpdateRequest where
  "zero_UpdateRequest = \<lparr>up_name = [], up_root = []\<rparr>"

definition handleUpdate :: "reg_world \<Rightarrow> headers \<Rightarrow> Registrar \<Rightarrow> request \<Rightarrow> (Registrar \<times> response) option" where
  "handleUpdate W h reg r =
     (if rq_Method r \<noteq> ''POST'' then Some (reg, jsonError h ''method not allowed'' 405)
      else case requireAuth h reg r of
        Some refused \<Rightarrow> Some (reg, refused)
      | None \<Rightarrow>
          (case Decode dec_UpdateRequest (string_of_bytes (rq_Body r)) zero_UpdateRequest of
             None \<Rightarrow> Some (reg, decode_error W h r)
           | Some req \<Rightarrow>
               let canonical = CanonicalName (up_name req)
               in case IDFromHex (up_root req) of
                    Inl _ \<Rightarrow> Some (reg, jsonError h ''invalid root key: must be 64-char hex string'' 400)
                  | Inr rootKey \<Rightarrow>
                      (case reg_lookup reg canonical of
                         None \<Rightarrow> Some (reg, jsonError h (''domain '' @ rw_text W (TextQuoted canonical) @ '' is not registered'') 404)
                       | Some live \<Rightarrow>
                           (case reg_Publish W reg canonical rootKey (rw_now W) of
                              (d1, Inl e) \<Rightarrow>
                                Some (reg\<lparr>rg_d := d1\<rparr>, jsonError h (''failed to publish update to DHT: '' @ rw_text W (TextPublish e)) 500)
                            | (d1, Inr dhtRec) \<Rightarrow>
                                (case live of
                                   None \<Rightarrow> None
                                 | Some rec \<Rightarrow>
                                     let rec' = rec\<lparr>rr_Root := up_root req, rr_UpdatedAt := Unix (rw_now W), rr_Version := nr_Version dhtRec\<rparr>
                                     in Some (registrar_save W (reg\<lparr>rg_d := d1, rg_registry := map_option (fmupd canonical (Some rec')) (rg_registry reg)\<rparr>),
                                              jsonReply h 200 (enc_RegisterResponse canonical (nr_Root dhtRec) (nr_Version dhtRec) [])))))))"

subsection \<open>Listing, publishing, counters\<close>

text \<open>\<open>rw_order\<close> is the order in which the map is enumerated.\<close>

definition reg_names :: "reg_world \<Rightarrow> Registrar \<Rightarrow> string list" where
  "reg_names W reg = (case rg_registry reg of None \<Rightarrow> [] | Some m \<Rightarrow> rw_order W (sorted_list_of_fset (fmdom m)))"

definition handleDomains :: "reg_world \<Rightarrow> headers \<Rightarrow> Registrar \<Rightarrow> request \<Rightarrow> (Registrar \<times> response) option" where
  "handleDomains W h reg r =
     (if rq_Method r \<noteq> ''GET'' then Some (reg, jsonError h ''method not allowed'' 405)
      else case requireAuth h reg r of
        Some refused \<Rightarrow> Some (reg, refused)
      | None \<Rightarrow>
          let domains = List.map_filter (reg_lookup reg) (reg_names W reg)
          in Some (reg, jsonReply h 200 (JObj [
               (''domains'', JArr (map (\<lambda>d. case d of None \<Rightarrow> JNull | Some rec \<Rightarrow> enc_Registration rec) domains)),
               (''count'', int_json (int (length domains)))])))"

definition dec_PublishRequest :: "string field_dec" where
  "dec_PublishRequest = dec_struct [(''path'', dec_string)]"

definition enc_PublishResponse :: "string \<Rightarrow> int \<Rightarrow> string \<Rightarrow> json" where
  "enc_PublishResponse rootHex entries err =
     JObj ([(''root'', JStr rootHex), (''entry_count'', int_json entries)] @ omit (err = []) ''error'' (JStr err))"

text \<open>
  What the node has stored when publishing a directory fails: the files before the one that failed,
  and of this one the chunks when its manifest is too large.
\<close>

fun published_so_far :: "henv \<Rightarrow> DHT \<Rightarrow> walked list \<Rightarrow> DHT" where
  "published_so_far h d [] = d"
| "published_so_far h d (w # ws) =
     (case w of
        WalkError \<Rightarrow> d
      | WalkOther \<Rightarrow> published_so_far h d ws
      | WalkFile rel None \<Rightarrow> d
      | WalkFile rel (Some b) \<Rightarrow>
          (case PublishBytes h d b of
             Inr (d1, _, _) \<Rightarrow> published_so_far h d1 ws
           | Inl _ \<Rightarrow> (case publish_chunks h d b of Inl _ \<Rightarrow> d | Inr (d1, _) \<Rightarrow> d1)))"

definition handlePublish :: "reg_world \<Rightarrow> headers \<Rightarrow> Registrar \<Rightarrow> request \<Rightarrow> (Registrar \<times> response) option" where
  "handlePublish W h reg r =
     (if rq_Method r \<noteq> ''POST'' then Some (reg, jsonError h ''method not allowed'' 405)
      else case requireAuth h reg r of
        Some refused \<Rightarrow> Some (reg, refused)
      | None \<Rightarrow>
          (case Decode dec_PublishRequest (string_of_bytes (rq_Body r)) [] of
             None \<Rightarrow> Some (reg, decode_error W h r)
           | Some p \<Rightarrow>
               if TrimSpace p = [] then Some (reg, jsonReply h 400 (enc_PublishResponse [] 0 ''path is required''))
               else case PublishDir ((rw_henv W)\<lparr>h_prims := rw_prims W\<rparr>) (snd (rg_d reg)) (rw_stat W p) (rw_walk W p) of
                      Inl e \<Rightarrow>
                        Some (reg\<lparr>rg_d := (fst (rg_d reg),
                                if rw_stat W p = Some True
                                then published_so_far ((rw_henv W)\<lparr>h_prims := rw_prims W\<rparr>) (snd (rg_d reg)) (rw_walk W p)
                                else snd (rg_d reg))\<rparr>,
                              jsonReply h 500 (enc_PublishResponse [] 0 (''publish failed: '' @ rw_text W (TextDir e))))
                    | Inr (d1, rootKey, dir) \<Rightarrow>
                        Some (reg\<lparr>rg_d := (fst (rg_d reg), d1)\<rparr>, jsonReply h 200 (enc_PublishResponse (Hex rootKey) (int (length dir)) []))))"

definition enc_StatsResponse :: "Snapshot \<Rightarrow> string \<Rightarrow> json" where
  "enc_StatsResponse s err =
     JObj ([(''name'', JStr (ss_Name s)), (''requests'', int_json (ss_Requests s)), (''bytes'', int_json (ss_Bytes s)),
            (''unique_ips'', int_json (int (ss_UniqueIPs s)))]
       @ omit (ss_LastSeenUnix s = 0) ''last_seen_unix'' (int_json (ss_LastSeenUnix s)) @ omit (err = []) ''error'' (JStr err))"

definition zero_Snapshot :: "string \<Rightarrow> Snapshot" where
  "zero_Snapshot name = \<lparr>ss_Name = name, ss_Requests = 0, ss_Bytes = 0, ss_UniqueIPs = 0, ss_LastSeenUnix = 0\<rparr>"

definition handleStats :: "reg_world \<Rightarrow> headers \<Rightarrow> Registrar \<Rightarrow> request \<Rightarrow> (Registrar \<times> response) option" where
  "handleStats W h reg r =
     (if rq_Method r \<noteq> ''GET'' then Some (reg, jsonError h ''method not allowed'' 405)
      else case requireAuth h reg r of
        Some refused \<Rightarrow> Some (reg, refused)
      | None \<Rightarrow>
          let rawName = TrimPrefix (rq_Path r) ''/api/stats/''; canonical = CanonicalName rawName
          in if rawName = [] then Some (reg, jsonError h ''missing name in URL path'' 400)
             else case ValidateDomain (rw_text W) canonical of
                    Some e \<Rightarrow> Some (reg, jsonReply h 400 (enc_StatsResponse (zero_Snapshot canonical) e))
                  | None \<Rightarrow>
                      (case rg_stats reg of
                         None \<Rightarrow> Some (reg, jsonReply h 200 (enc_StatsResponse (zero_Snapshot canonical) []))
                       | Some st \<Rightarrow> Some (reg, jsonReply h 200 (enc_StatsResponse (stats_Get st canonical) []))))"

subsection \<open>Taking down\<close>

definition dec_NameRequest :: "string field_dec" where
  "dec_NameRequest = dec_struct [(''name'', dec_string)]"

definition enc_UnregisterResponse :: "string \<Rightarrow> bool \<Rightarrow> string \<Rightarrow> json" where
  "enc_UnregisterResponse name ok err = JObj ([(''name'', JStr name), (''ok'', JBool ok)] @ omit (err = []) ''error'' (JStr err))"

text \<open>Removing a name from the registry and from the counters; deleting from a nil map does nothing.\<close>

definition forget_name :: "reg_world \<Rightarrow> Registrar \<Rightarrow> string \<Rightarrow> Registrar" where
  "forget_name W reg name =
     (registrar_save W (reg\<lparr>rg_registry := map_option (fmdrop name) (rg_registry reg)\<rparr>))
       \<lparr>rg_stats := map_option (\<lambda>st. stats_Forget st name) (rg_stats reg)\<rparr>"

definition handleUnregister :: "reg_world \<Rightarrow> headers \<Rightarrow> Registrar \<Rightarrow> request \<Rightarrow> (Registrar \<times> response) option" where
  "handleUnregister W h reg r =
     (if rq_Method r \<noteq> ''POST'' then Some (reg, jsonError h ''method not allowed'' 405)
      else case requireAuth h reg r of
        Some refused \<Rightarrow> Some (reg, refused)
      | None \<Rightarrow>
          (case Decode dec_NameRequest (string_of_bytes (rq_Body r)) [] of
             None \<Rightarrow> Some (reg, decode_error W h r)
           | Some name \<Rightarrow>
               let canonical = CanonicalName name
               in if reg_lookup reg canonical = None then
                    Some (reg, jsonReply h 404 (enc_UnregisterResponse canonical False
                      (''domain '' @ rw_text W (TextQuoted canonical) @ '' is not registered here'')))
                  else Some (forget_name W reg canonical, jsonReply h 200 (enc_UnregisterResponse canonical True []))))"

text \<open>The keys of a list that have not been seen, each once, behind those collected so far.\<close>

definition collect :: "string list \<Rightarrow> string list \<Rightarrow> string list" where
  "collect out ks = foldl (\<lambda>out k. if k \<in> set out then out else out @ [k]) out ks"

fun collect_entries :: "'s getter \<Rightarrow> 's \<Rightarrow> DirEntry list \<Rightarrow> string list \<Rightarrow> 's \<times> string list" where
  "collect_entries get s [] out = (s, out)"
| "collect_entries get s (entry # es) out =
     (case IDFromHex (de_ManifestKey entry) of
        Inl _ \<Rightarrow> collect_entries get s es out
      | Inr manifestKey \<Rightarrow>
          let out1 = collect out [Hex manifestKey]
          in case get s manifestKey of
               (s1, Inl _) \<Rightarrow> collect_entries get s1 es out1
             | (s1, Inr blob) \<Rightarrow>
                 (case UnmarshalFileManifest blob of
                    None \<Rightarrow> collect_entries get s1 es out1
                  | Some m \<Rightarrow> collect_entries get s1 es (collect out1 (fm_Chunks m))))"

definition collectChunkHashes :: "reg_world \<Rightarrow> nat \<times> DHT \<Rightarrow> string \<Rightarrow> (nat \<times> DHT) \<times> string list" where
  "collectChunkHashes W s name =
     (case reg_Resolve W s name of
        (s1, Inl _) \<Rightarrow> (s1, [])
      | (s1, Inr rec) \<Rightarrow>
          (case RootKey rec of
             Inl _ \<Rightarrow> (s1, [])
           | Inr rootKey \<Rightarrow>
               (case reg_Get W s1 rootKey of
                  (s2, Inl _) \<Rightarrow> (s2, [Hex rootKey])
                | (s2, Inr blob) \<Rightarrow>
                    (case UnmarshalDirectory blob of
                       None \<Rightarrow> (s2, [Hex rootKey])
                     | Some entries \<Rightarrow> collect_entries (reg_Get W) s2 entries [Hex rootKey]))))"

definition enc_RevokeResponse :: "string \<Rightarrow> nat \<Rightarrow> bool \<Rightarrow> string \<Rightarrow> json" where
  "enc_RevokeResponse name chunks ok err =
     JObj ([(''name'', JStr name), (''chunk_count'', int_json (int chunks)), (''ok'', JBool ok)] @ omit (err = []) ''error'' (JStr err))"

text \<open>The handler of revokes also gives what is sent to the network.\<close>

definition registrar_handleRevoke ::
  "reg_world \<Rightarrow> headers \<Rightarrow> Registrar \<Rightarrow> request \<Rightarrow> Registrar \<times> effect list \<times> response" where
  "registrar_handleRevoke W h reg r =
     (if rq_Method r \<noteq> ''POST'' then (reg, [], jsonError h ''method not allowed'' 405)
      else case requireAuth h reg r of
        Some refused \<Rightarrow> (reg, [], refused)
      | None \<Rightarrow>
          (case Decode dec_NameRequest (string_of_bytes (rq_Body r)) [] of
             None \<Rightarrow> (reg, [], decode_error W h r)
           | Some name \<Rightarrow>
               let canonical = CanonicalName name
               in case collectChunkHashes W (rg_d reg) canonical of
                    (d1, chunks) \<Rightarrow>
                      let reg1 = forget_name W (reg\<lparr>rg_d := d1\<rparr>) canonical
                      in case SignRevoke (rw_prims W) (Unix (rw_now W)) (rw_nonce W) (Some (rg_id reg)) canonical chunks of
                           Inl e \<Rightarrow> (reg1, [], jsonReply h 500 (enc_RevokeResponse canonical 0 False (''sign revoke: '' @ rw_text W (TextSign e))))
                         | Inr payload \<Rightarrow>
                             (case BroadcastRevoke (snd d1) (Some payload) of
                                (d2, fx) \<Rightarrow> (reg1\<lparr>rg_d := (fst d1, d2)\<rparr>, fx,
                                             jsonReply h 200 (enc_RevokeResponse canonical (length chunks) True [])))))"

subsection \<open>Routing\<close>

definition cors_headers :: headers where
  "cors_headers = [(''Access-Control-Allow-Origin'', ''*''), (''Access-Control-Allow-Methods'', ''GET, POST, OPTIONS''),
     (''Access-Control-Allow-Headers'', ''Authorization, Content-Type'')]"

text \<open>
  The multiplexer of the library redirects a path that is not clean, and one that only lacks the
  slash of a subtree; \<open>rw_location\<close> is where it sends the client. A path is clean if it is rooted and
  has no empty, \<^verbatim>\<open>.\<close> or \<^verbatim>\<open>..\<close> elements.
\<close>

definition cleanPath :: "string \<Rightarrow> string" where
  "cleanPath p0 =
     (if p0 = [] then ''/''
      else
        let p = (if hd p0 = CHR ''/'' then p0 else CHR ''/'' # p0); np = path_Clean p
        in if last p = CHR ''/'' \<and> np \<noteq> ''/'' then np @ ''/'' else np)"

definition http_Redirect :: "headers \<Rightarrow> request \<Rightarrow> string \<Rightarrow> response" where
  "http_Redirect h r url =
     \<lparr>rs_Code = 301,
      rs_Header = (let h1 = Header_Set h ''Location'' url
                   in if rq_Method r = ''GET'' \<or> rq_Method r = ''HEAD'' then Header_Set h1 ''Content-Type'' ''text/html; charset=utf-8'' else h1),
      rs_Body = (if rq_Method r = ''GET''
                 then bytes_of_string (''<a href='' @ [CHR 0x22] @ EscapeString url @ [CHR 0x22] @ ''>Moved Permanently</a>.'' @ line_feed @ line_feed)
                 else [])\<rparr>"

definition registrar_serve :: "reg_world \<Rightarrow> Registrar \<Rightarrow> request \<Rightarrow> (Registrar \<times> response) option" where
  "registrar_serve W reg r =
     (let h = cors_headers
      in if rq_Method r = ''OPTIONS'' then Some (reg, \<lparr>rs_Code = 200, rs_Header = h, rs_Body = []\<rparr>)
         else if rq_Method r \<noteq> ''CONNECT'' \<and> cleanPath (rq_Path r) \<noteq> rq_Path r then Some (reg, http_Redirect h r (rw_location W r))
         else if HasPrefix (rq_Path r) ''/api/check/'' then handleCheck W h reg r
         else if rq_Path r = ''/api/register'' then registrar_handleRegister W h reg r
         else if rq_Path r = ''/api/update'' then handleUpdate W h reg r
         else if rq_Path r = ''/api/domains'' then handleDomains W h reg r
         else if rq_Path r = ''/api/publish'' then handlePublish W h reg r
         else if rq_Path r = ''/api/revoke'' then (case registrar_handleRevoke W h reg r of (reg1, _, resp) \<Rightarrow> Some (reg1, resp))
         else if HasPrefix (rq_Path r) ''/api/stats/'' then handleStats W h reg r
         else if rq_Path r = ''/api/unregister'' then handleUnregister W h reg r
         else if rq_Path r = ''/api/check'' \<or> rq_Path r = ''/api/stats'' then Some (reg, http_Redirect h r (rw_location W r))
         else Some (reg, http_NotFound h))"

subsection \<open>Keeping names alive\<close>

definition republishInterval :: int where
  "republishInterval = 24 * 3600 * 10 ^ 9"

text \<open>
  One name of a pass, published at the time \<open>now\<close> and entered at the time \<open>later\<close>; \<open>None\<close> when the live
  record is a nil pointer.
\<close>

definition republish_one :: "reg_world \<Rightarrow> time \<times> time \<Rightarrow> Registrar \<Rightarrow> RegistrationRecord \<Rightarrow> Registrar option" where
  "republish_one W = (\<lambda>(now, later) reg rec.
     (case IDFromHex (rr_Root rec) of
        Inl _ \<Rightarrow> Some reg
      | Inr rootKey \<Rightarrow>
          (case reg_Publish W reg (rr_Name rec) rootKey now of
             (d1, Inl _) \<Rightarrow> Some (reg\<lparr>rg_d := d1\<rparr>)
           | (d1, Inr _) \<Rightarrow>
               (case reg_lookup reg (rr_Name rec) of
                  None \<Rightarrow> Some (reg\<lparr>rg_d := d1\<rparr>)
                | Some None \<Rightarrow> None
                | Some (Some live) \<Rightarrow>
                    Some (reg\<lparr>rg_d := d1, rg_registry := map_option (fmupd (rr_Name rec)
                      (Some (live\<lparr>rr_Version := now, rr_UpdatedAt := Unix later\<rparr>))) (rg_registry reg)\<rparr>)))))"

text \<open>
  A pass over the registry: a snapshot, then one publication after the other, between which other
  requests run (\<open>among\<close>), then one save. \<open>clock\<close> gives the times of the publications.
\<close>

fun republish_names :: "reg_world \<Rightarrow> (nat \<Rightarrow> time \<times> time) \<Rightarrow> (nat \<Rightarrow> Registrar \<Rightarrow> Registrar) \<Rightarrow> nat \<Rightarrow> RegistrationRecord list \<Rightarrow> Registrar \<Rightarrow> Registrar option" where
  "republish_names W clock among k [] reg = Some (among k reg)"
| "republish_names W clock among k (rec # recs) reg =
     (case republish_one W (clock k) (among k reg) rec of
        None \<Rightarrow> None
      | Some reg1 \<Rightarrow> republish_names W clock among (Suc k) recs reg1)"

definition registrar_republishAll :: "reg_world \<Rightarrow> (nat \<Rightarrow> time \<times> time) \<Rightarrow> (nat \<Rightarrow> Registrar \<Rightarrow> Registrar) \<Rightarrow> Registrar \<Rightarrow> Registrar option" where
  "registrar_republishAll W clock among reg =
     (case those (List.map_filter (reg_lookup reg) (reg_names W reg)) of
        None \<Rightarrow> None
      | Some snapshot \<Rightarrow> map_option (registrar_save W) (republish_names W clock among 0 snapshot reg))"

lemma jsonReply_code [simp]: "rs_Code (jsonReply h status v) = status" "rs_Code (jsonError h msg status) = status"
  by (simp_all add: jsonReply_def jsonError_def)

lemma requireAuth_401: "requireAuth h reg r = Some x \<Longrightarrow> rs_Code x = 401"
  by (auto simp: requireAuth_def Let_def split: if_splits)

lemma routes_clean [simp]:
  "cleanPath ''/api/register'' = ''/api/register''" "cleanPath ''/api/update'' = ''/api/update''"
  "cleanPath ''/api/domains'' = ''/api/domains''" "cleanPath ''/api/publish'' = ''/api/publish''"
  "cleanPath ''/api/revoke'' = ''/api/revoke''" "cleanPath ''/api/unregister'' = ''/api/unregister''"
  by code_simp+

section \<open>The registry\<close>

text \<open>The state of the registrar is well formed: no nil map, no nil pointer, and every record is one that was published.\<close>

definition record_fine :: "string \<Rightarrow> RegistrationRecord \<Rightarrow> bool" where
  "record_fine k rec \<longleftrightarrow> rr_Name rec = k \<and> validName k = None \<and> CanonicalName k = k \<and> HasSuffix k ''.alt''
     \<and> (\<exists>i. IDFromHex (rr_Root rec) = Inr i) \<and> utf8 (rr_Owner rec)
     \<and> int64 (rr_RegisteredAt rec) \<and> int64 (rr_UpdatedAt rec) \<and> int64 (rr_Version rec)"

definition registry_fine :: "registry \<Rightarrow> bool" where
  "registry_fine r \<longleftrightarrow> (\<exists>m. r = Some m \<and> (\<forall>k x. fmlookup m k = Some x \<longrightarrow> (\<exists>rec. x = Some rec \<and> record_fine k rec)))"

text \<open>The input of a request: a time in 64 bits, and an owner that is text.\<close>

definition input_ok :: "reg_world \<Rightarrow> request \<Rightarrow> bool" where
  "input_ok W r \<longleftrightarrow> int64 (rw_now W)
     \<and> (\<forall>req. Decode dec_RegisterRequest (string_of_bytes (rq_Body r)) zero_RegisterRequest = Some req \<longrightarrow> utf8 (rq_owner req))"

lemma HasSuffix_last: "HasSuffix s t \<Longrightarrow> t \<noteq> [] \<Longrightarrow> s \<noteq> [] \<and> last s = last t"
  unfolding HasSuffix_def by (metis drop_Nil last_drop length_0_conv length_drop not_less0 not_le_imp_less drop_all)

lemma canonical_fixed:
  assumes "HasSuffix (CanonicalName raw) ''.alt''"
  shows "CanonicalName (CanonicalName raw) = CanonicalName raw"
proof -
  let ?t = "ToLower (TrimSpace raw)" and ?c = "CanonicalName raw"
  have l: "?c \<noteq> []" "last ?c = CHR ''t''" using HasSuffix_last [OF assms] by auto
  have pre: "\<exists>n. ?c = take n ?t" by (auto simp: CanonicalName_def TrimSuffix_def intro: exI [of _ "length ?t"])
  have "lower_char x = x" if "x \<in> set ?c" for x
  proof -
    from that pre have "x \<in> set ?t" by (metis in_set_takeD)
    then show ?thesis by (auto simp: ToLower_def)
  qed
  then have low: "ToLower ?c = ?c" unfolding ToLower_def by (simp add: map_idI)
  have "hd ?c = hd ?t" using pre l(1) by (metis hd_take take_eq_Nil neq0_conv)
  moreover have "?t \<noteq> []" using pre l(1) by (metis take_Nil)
  then have "\<not> is_space (hd ?t)" using TrimSpace_ends [of raw] by (simp add: ToLower_def hd_map)
  ultimately have "TrimSpace ?c = ?c" using l by (intro TrimSpace_id) (simp add: is_space_def)
  moreover have "\<not> HasSuffix ?c ''.''" using HasSuffix_last [of ?c "''.''"] l(2) by auto
  ultimately show ?thesis unfolding CanonicalName_def [of ?c] by (simp add: low TrimSuffix_def)
qed

lemma ValidateDomain_suffix: "ValidateDomain tx c = None \<Longrightarrow> HasSuffix c ''.alt''"
  by (simp add: ValidateDomain_def split: if_splits)

lemma dht_Publish_Inr:
  assumes "dht_Publish c PE s i name rootKey version = (s', Inr rec)"
  shows "validName name = None \<and> nr_Version rec = version \<and> nr_Root rec = Hex rootKey"
  using assms
  by (auto simp: dht_Publish_def Publish_def PublishWithTTL_def Let_def zero_NameRecord_def
      split: sum.splits prod.splits option.splits if_splits)

lemma int64_Unix: "int64 t \<Longrightarrow> int64 (Unix t)"
  using div_mult_mod_eq [of t 1000000000] pos_mod_bound [of 1000000000 t] pos_mod_sign [of 1000000000 t]
  unfolding int64_def Unix_def second_def by auto

text \<open>What an operation may do to the registrar.\<close>

inductive reg_change :: "reg_world \<Rightarrow> Registrar \<Rightarrow> Registrar \<Rightarrow> bool" for W where
  ch_node: "reg_change W reg (reg\<lparr>rg_d := d\<rparr>)"
| ch_enter: "rg_registry reg = Some m \<Longrightarrow> record_fine k rec \<Longrightarrow>
    reg_change W reg (registrar_save W (reg\<lparr>rg_d := d, rg_registry := Some (fmupd k (Some rec) m)\<rparr>))"
| ch_forget: "reg_change W reg ((forget_name W (reg\<lparr>rg_d := d\<rparr>) k)\<lparr>rg_d := d'\<rparr>)"

inductive_cases reg_changeE: "reg_change W reg reg'"

lemma ch_same: "reg_change W reg reg"
  using ch_node [of W reg "rg_d reg"] by simp

lemma reg_change_fine: "reg_change W reg reg' \<Longrightarrow> registry_fine (rg_registry reg) \<Longrightarrow> registry_fine (rg_registry reg')"
  by (elim reg_changeE) (auto simp: registry_fine_def registrar_save_def forget_name_def)

lemma lookup_fine:
  assumes "registry_fine (rg_registry reg)" and "reg_lookup reg k = Some x"
  obtains m rec where "rg_registry reg = Some m" "x = Some rec" "record_fine k rec" "fmlookup m k = Some (Some rec)"
proof -
  from assms(1) obtain m where m: "rg_registry reg = Some m" "\<forall>k x. fmlookup m k = Some x \<longrightarrow> (\<exists>rec. x = Some rec \<and> record_fine k rec)"
    by (auto simp: registry_fine_def)
  moreover from m(1) assms(2) have "fmlookup m k = Some x" by (simp add: reg_lookup_def)
  ultimately show thesis using that by blast
qed

lemma handleCheck_change:
  assumes "registry_fine (rg_registry reg)"
  shows "\<exists>reg' resp. handleCheck W h reg r = Some (reg', resp) \<and> (\<exists>d. reg' = reg\<lparr>rg_d := d\<rparr>)"
proof -
  have s: "\<exists>d. reg = reg\<lparr>rg_d := d\<rparr>" by (rule exI [of _ "rg_d reg"]) simp
  have "reg_lookup reg k \<noteq> Some None" for k using lookup_fine [OF assms] by fastforce
  with s show ?thesis by (auto simp: handleCheck_def Let_def split: option.splits prod.splits sum.splits)
qed

lemma registrar_handleRegister_change:
  assumes "registry_fine (rg_registry reg)" and "input_ok W r"
  shows "\<exists>reg' resp. registrar_handleRegister W h reg r = Some (reg', resp) \<and> reg_change W reg reg'"
proof -
  have s: "reg_change W reg reg" by (rule ch_same)
  have e: "reg_change W reg (registrar_save W (reg\<lparr>rg_d := d1, rg_registry := Some (fmupd (CanonicalName (rq_name req)) (Some
      \<lparr>rr_Name = CanonicalName (rq_name req), rr_Root = rq_root req, rr_Owner = rq_owner req,
       rr_RegisteredAt = Unix (rw_now W), rr_UpdatedAt = Unix (rw_now W), rr_Version = nr_Version dhtRec\<rparr>) m)\<rparr>))"
    if "Decode dec_RegisterRequest (string_of_bytes (rq_Body r)) zero_RegisterRequest = Some req" "rg_registry reg = Some m"
      "ValidateDomain (rw_text W) (CanonicalName (rq_name req)) = None" "IDFromHex (rq_root req) = Inr rootKey"
      "reg_Publish W reg (CanonicalName (rq_name req)) rootKey (rw_now W) = (d1, Inr dhtRec)" for req m rootKey d1 dhtRec
    using that assms(2) canonical_fixed [OF ValidateDomain_suffix [OF that(3)]] ValidateDomain_suffix [OF that(3)]
      dht_Publish_Inr [OF that(5) [unfolded reg_Publish_def]]
    by (intro ch_enter) (auto simp: record_fine_def input_ok_def int64_Unix)
  obtain m where "rg_registry reg = Some m" using assms(1) by (auto simp: registry_fine_def)
  with s e show ?thesis
    by (auto simp: registrar_handleRegister_def Let_def intro: ch_node split: option.splits prod.splits sum.splits)
qed

lemma handleUpdate_change:
  assumes "registry_fine (rg_registry reg)" and "input_ok W r"
  shows "\<exists>reg' resp. handleUpdate W h reg r = Some (reg', resp) \<and> reg_change W reg reg'"
proof -
  have s: "reg_change W reg reg" by (rule ch_same)
  have e: "\<exists>rec. live = Some rec \<and> reg_change W reg (registrar_save W (reg\<lparr>rg_d := d1, rg_registry := map_option (fmupd k (Some
      (rec\<lparr>rr_Root := rootHex, rr_UpdatedAt := Unix (rw_now W), rr_Version := nr_Version dhtRec\<rparr>))) (rg_registry reg)\<rparr>))"
    if "reg_lookup reg k = Some live" "IDFromHex rootHex = Inr rootKey" "reg_Publish W reg k rootKey (rw_now W) = (d1, Inr dhtRec)"
    for k live rootHex rootKey d1 dhtRec
  proof -
    note l = lookup_fine [OF assms(1) that(1)]
    obtain m rec where m: "rg_registry reg = Some m" "live = Some rec" "record_fine k rec" using l by metis
    with that(2) assms(2) dht_Publish_Inr [OF that(3) [unfolded reg_Publish_def]]
    have "record_fine k (rec\<lparr>rr_Root := rootHex, rr_UpdatedAt := Unix (rw_now W), rr_Version := nr_Version dhtRec\<rparr>)"
      by (simp add: record_fine_def input_ok_def int64_Unix)
    from ch_enter [OF m(1) this] m show ?thesis by auto
  qed
  show ?thesis
    by (auto simp: handleUpdate_def Let_def intro: s ch_node dest!: e split: option.splits prod.splits sum.splits)
qed

lemma forget_change: "reg_change W reg (forget_name W reg k)"
proof -
  have "(forget_name W (reg\<lparr>rg_d := rg_d reg\<rparr>) k)\<lparr>rg_d := rg_d reg\<rparr> = forget_name W reg k"
    by (simp add: forget_name_def registrar_save_def)
  with ch_forget [where W = W and reg = reg and d = "rg_d reg" and k = k and d' = "rg_d reg"] show ?thesis by simp
qed

lemma handleUnregister_change: "\<exists>reg' resp. handleUnregister W h reg r = Some (reg', resp) \<and> reg_change W reg reg'"
  by (auto simp: handleUnregister_def Let_def intro: ch_same forget_change split: option.splits)

lemma handleRevoke_change:
  assumes "registrar_handleRevoke W h reg r = (reg', fx, resp)"
  shows "reg_change W reg reg'"
proof -
  have f: "reg_change W reg (forget_name W (reg\<lparr>rg_d := d\<rparr>) k)" for d k
  proof -
    have "(forget_name W (reg\<lparr>rg_d := d\<rparr>) k)\<lparr>rg_d := d\<rparr> = forget_name W (reg\<lparr>rg_d := d\<rparr>) k"
      by (simp add: forget_name_def registrar_save_def)
    with ch_forget [where W = W and reg = reg and d = d and k = k and d' = d] show ?thesis by simp
  qed
  from assms show ?thesis
    by (auto simp: registrar_handleRevoke_def Let_def intro: ch_same f ch_forget split: if_splits option.splits prod.splits sum.splits)
qed

lemma handle_others_change:
  "\<exists>reg' resp. handleDomains W h reg r = Some (reg', resp) \<and> reg' = reg"
  "\<exists>reg' resp. handlePublish W h reg r = Some (reg', resp) \<and> reg_change W reg reg'"
  "\<exists>reg' resp. handleStats W h reg r = Some (reg', resp) \<and> reg' = reg"
  by (auto simp: handleDomains_def handlePublish_def handleStats_def Let_def intro: ch_same ch_node split: option.splits sum.splits)

lemma registrar_serve_change:
  assumes "registry_fine (rg_registry reg)" and "input_ok W r"
  shows "\<exists>reg' resp. registrar_serve W reg r = Some (reg', resp) \<and> reg_change W reg reg'"
proof -
  obtain reg1 fx resp1 where v: "registrar_handleRevoke W cors_headers reg r = (reg1, fx, resp1)" by (metis prod_cases3)
  show ?thesis
    using handleCheck_change [OF assms(1), of W cors_headers r] registrar_handleRegister_change [OF assms, of cors_headers]
      handleUpdate_change [OF assms, of cors_headers] handleUnregister_change [of W cors_headers reg r]
      handle_others_change [of W cors_headers reg r] handleRevoke_change [OF v] v
    by (auto simp: registrar_serve_def Let_def intro: ch_same ch_node)
qed

subsection \<open>Runs\<close>

text \<open>
  A run of the registrar: requests, and passes of the loop that publishes the names again, with the
  requests that are served between the publications of the pass.
\<close>

definition reg_after :: "reg_world \<Rightarrow> Registrar \<Rightarrow> request \<Rightarrow> Registrar" where
  "reg_after W reg r = (case registrar_serve W reg r of None \<Rightarrow> reg | Some (reg', _) \<Rightarrow> reg')"

definition reg_afters :: "(reg_world \<times> request) list \<Rightarrow> Registrar \<Rightarrow> Registrar" where
  "reg_afters rs reg = foldl (\<lambda>reg (W, r). reg_after W reg r) reg rs"

datatype reg_event =
    Request reg_world request
  | Pass reg_world "nat \<Rightarrow> time \<times> time" "nat \<Rightarrow> (reg_world \<times> request) list"

fun reg_step :: "Registrar option \<Rightarrow> reg_event \<Rightarrow> Registrar option" where
  "reg_step None e = None"
| "reg_step (Some reg) (Request W r) = map_option fst (registrar_serve W reg r)"
| "reg_step (Some reg) (Pass W clock rqs) = registrar_republishAll W clock (\<lambda>k. reg_afters (rqs k)) reg"

fun event_ok :: "reg_event \<Rightarrow> bool" where
  "event_ok (Request W r) \<longleftrightarrow> input_ok W r"
| "event_ok (Pass W clock rqs) \<longleftrightarrow> (\<forall>k. int64 (fst (clock k)) \<and> int64 (snd (clock k)) \<and> (\<forall>(V, r)\<in>set (rqs k). input_ok V r))"

text \<open>The disk takes every file that is written.\<close>

fun disk_ok :: "reg_event \<Rightarrow> bool" where
  "disk_ok (Request W r) \<longleftrightarrow> rw_written W \<and> rw_renamed W"
| "disk_ok (Pass W clock rqs) \<longleftrightarrow> rw_written W \<and> rw_renamed W"

definition synced :: "Registrar \<Rightarrow> bool" where
  "synced reg \<longleftrightarrow> (case rg_file reg of None \<Rightarrow> rg_registry reg = Some fmempty | Some b \<Rightarrow> b = MarshalIndent (enc_registry (rg_registry reg)))"

lemma reg_change_synced:
  "reg_change W reg reg' \<Longrightarrow> rw_written W \<Longrightarrow> rw_renamed W \<Longrightarrow> rg_registryPath reg \<noteq> [] \<Longrightarrow> synced reg \<Longrightarrow> synced reg'"
  by (elim reg_changeE) (auto simp: synced_def registrar_save_def forget_name_def split: option.splits)

lemma reg_change_path: "reg_change W reg reg' \<Longrightarrow> rg_registryPath reg' = rg_registryPath reg"
  by (elim reg_changeE) (auto simp: registrar_save_def forget_name_def)

lemma reg_afters_fine:
  assumes "\<forall>(V, r)\<in>set rs. input_ok V r" and "registry_fine (rg_registry reg)"
  shows "registry_fine (rg_registry (reg_afters rs reg)) \<and> rg_registryPath (reg_afters rs reg) = rg_registryPath reg"
  using assms
proof (induction rs arbitrary: reg)
  case (Cons x rs)
  obtain V r where x: "x = (V, r)" by fastforce
  with Cons.prems registrar_serve_change [of reg V r] obtain reg' resp where
    s: "registrar_serve V reg r = Some (reg', resp)" "reg_change V reg reg'" by auto
  with Cons.prems reg_change_fine reg_change_path have "registry_fine (rg_registry reg')" "rg_registryPath reg' = rg_registryPath reg" by auto
  with Cons.IH [of reg'] Cons.prems(1) s(1) show ?case by (simp add: reg_afters_def reg_after_def x)
qed (simp add: reg_afters_def)

lemma republish_one_fine:
  assumes "registry_fine (rg_registry reg)" and "int64 (fst t)" and "int64 (snd t)"
  shows "\<exists>reg'. republish_one W t reg rec = Some reg' \<and> registry_fine (rg_registry reg') \<and> rg_registryPath reg' = rg_registryPath reg"
proof -
  have live: "\<exists>rec. x = Some rec \<and> registry_fine (map_option (fmupd k (Some (rec\<lparr>rr_Version := fst t, rr_UpdatedAt := Unix (snd t)\<rparr>))) (rg_registry reg))"
    if "reg_lookup reg k = Some x" for k x
  proof -
    note l = lookup_fine [OF assms(1) that]
    obtain m rec where m: "rg_registry reg = Some m" "x = Some rec" "record_fine k rec" using l by metis
    then have "record_fine k (rec\<lparr>rr_Version := fst t, rr_UpdatedAt := Unix (snd t)\<rparr>)" using assms(2,3) by (simp add: record_fine_def int64_Unix)
    with m assms(1) show ?thesis by (auto simp: registry_fine_def)
  qed
  show ?thesis using assms(1)
    by (auto simp: republish_one_def dest!: live split: prod.splits sum.splits option.splits)
qed

lemma republish_names_fine:
  assumes "\<forall>k. int64 (fst (clock k)) \<and> int64 (snd (clock k)) \<and> (\<forall>(V, r)\<in>set (rqs k). input_ok V r)"
  shows "registry_fine (rg_registry reg) \<Longrightarrow> \<exists>reg'. republish_names W clock (\<lambda>k. reg_afters (rqs k)) k recs reg = Some reg'
    \<and> registry_fine (rg_registry reg') \<and> rg_registryPath reg' = rg_registryPath reg"
proof (induction recs arbitrary: k reg)
  case Nil
  with assms reg_afters_fine [of "rqs k" reg] show ?case by simp
next
  case (Cons rec recs)
  have a: "registry_fine (rg_registry (reg_afters (rqs k) reg)) \<and> rg_registryPath (reg_afters (rqs k) reg) = rg_registryPath reg"
    using assms reg_afters_fine [of "rqs k" reg] Cons.prems by auto
  with assms republish_one_fine [of "reg_afters (rqs k) reg" "clock k" W rec] obtain reg1 where
    r: "republish_one W (clock k) (reg_afters (rqs k) reg) rec = Some reg1" "registry_fine (rg_registry reg1)"
      "rg_registryPath reg1 = rg_registryPath reg" by auto
  from Cons.IH [OF r(2), of "Suc k"] r(1,3) show ?case by auto
qed

lemma those_map_Some: "(\<forall>x\<in>set xs. x \<noteq> None) \<Longrightarrow> \<exists>ys. those xs = Some ys"
  by (induction xs) auto

lemma reg_step_fine:
  assumes "registry_fine (rg_registry reg)" and "event_ok e"
  shows "\<exists>reg'. reg_step (Some reg) e = Some reg' \<and> registry_fine (rg_registry reg') \<and> rg_registryPath reg' = rg_registryPath reg
    \<and> (disk_ok e \<and> rg_registryPath reg \<noteq> [] \<and> synced reg \<longrightarrow> synced reg')"
proof (cases e)
  case (Request W r)
  with assms registrar_serve_change [of reg W r] obtain reg' resp where
    s: "registrar_serve W reg r = Some (reg', resp)" "reg_change W reg reg'" by auto
  have "reg_step (Some reg) e = Some reg'" "disk_ok e \<longleftrightarrow> rw_written W \<and> rw_renamed W" using Request s(1) by simp_all
  with reg_change_fine [OF s(2) assms(1)] reg_change_path [OF s(2)] reg_change_synced [OF s(2)] show ?thesis by blast
next
  case (Pass W clock rqs)
  have "\<forall>x\<in>set (List.map_filter (reg_lookup reg) (reg_names W reg)). x \<noteq> None"
  proof
    fix x assume "x \<in> set (List.map_filter (reg_lookup reg) (reg_names W reg))"
    then obtain k where "reg_lookup reg k = Some x" by (auto simp: List.map_filter_def)
    from lookup_fine [OF assms(1) this] show "x \<noteq> None" by blast
  qed
  then obtain snap where snap: "those (List.map_filter (reg_lookup reg) (reg_names W reg)) = Some snap" using those_map_Some by blast
  have "\<forall>k. int64 (fst (clock k)) \<and> int64 (snd (clock k)) \<and> (\<forall>(V, r)\<in>set (rqs k). input_ok V r)" using assms(2) Pass by simp
  from republish_names_fine [OF this assms(1), of W 0 snap] obtain reg1 where
    "republish_names W clock (\<lambda>k. reg_afters (rqs k)) 0 snap reg = Some reg1" "registry_fine (rg_registry reg1)"
    "rg_registryPath reg1 = rg_registryPath reg" by blast
  then show ?thesis using Pass snap by (auto simp: registrar_republishAll_def registrar_save_def synced_def)
qed

lemma reg_run_fine:
  "registry_fine (rg_registry reg) \<Longrightarrow> \<forall>e\<in>set es. event_ok e \<Longrightarrow> \<exists>reg'. foldl reg_step (Some reg) es = Some reg'
     \<and> registry_fine (rg_registry reg') \<and> rg_registryPath reg' = rg_registryPath reg
     \<and> ((\<forall>e\<in>set es. disk_ok e) \<and> rg_registryPath reg \<noteq> [] \<and> synced reg \<longrightarrow> synced reg')"
proof (induction es arbitrary: reg)
  case (Cons e es)
  from reg_step_fine [of reg e] Cons.prems obtain reg1 where r: "reg_step (Some reg) e = Some reg1" "registry_fine (rg_registry reg1)"
    "rg_registryPath reg1 = rg_registryPath reg" "disk_ok e \<and> rg_registryPath reg \<noteq> [] \<and> synced reg \<longrightarrow> synced reg1" by auto
  from Cons.IH [OF r(2)] Cons.prems(2) r(1,3,4) show ?case by auto
qed simp

subsection \<open>The file\<close>

lemma ascii_hex: "hex_decode s = Some bs \<Longrightarrow> ascii s"
proof (induction s arbitrary: bs rule: hex_decode.induct)
  case (3 a b s)
  have "(of_char c :: nat) < 128" if "hex_val c = Some n" for c n
    using that by (auto simp: hex_val_def Let_def split: if_splits)
  with 3 show ?case by (auto simp: ascii_def split: option.splits)
qed (auto simp: ascii_def)

lemma dec_enc_Registration:
  assumes "record_fine k rec"
  shows "wire_ok (enc_Registration rec) \<and> dec_Registration (enc_Registration rec) zero_Registration = Some rec"
proof -
  obtain i where "IDFromHex (rr_Root rec) = Inr i" using assms by (auto simp: record_fine_def)
  then have "utf8 (rr_Root rec)" by (auto simp: IDFromHex_def ascii_hex split: option.splits)
  moreover have "utf8 (rr_Name rec)" using assms ascii_CanonicalName [of k] by (simp add: record_fine_def)
  moreover have "utf8 (rr_Owner rec)" "int64 (rr_RegisteredAt rec)" "int64 (rr_UpdatedAt rec)" "int64 (rr_Version rec)"
    using assms by (simp_all add: record_fine_def)
  moreover have "to_valid x = x" if "x \<in> {''name'', ''root'', ''owner'', ''registered_at'', ''updated_at'', ''version''}" for x
    using that by (auto simp: ascii_def intro!: utf8_eq utf8_ascii)
  ultimately show ?thesis
    by (simp add: wire_ok_def maxNestingDepth_def enc_Registration_def dec_Registration_def dec_struct_def find_field_def field_def dec_string_def)
qed

lemma dec_entries_map:
  assumes "\<forall>k\<in>set ks. \<exists>rec. fmlookup m k = Some (Some rec) \<and> record_fine k rec"
  shows "\<exists>m'. dec_entries (map (\<lambda>k. (k, case fmlookup m k of Some (Some rec) \<Rightarrow> enc_Registration rec | _ \<Rightarrow> JNull)) ks) m0 = Some m'
    \<and> (\<forall>k. fmlookup m' k = (if k \<in> set ks then fmlookup m k else fmlookup m0 k))"
  using assms
proof (induction ks arbitrary: m0)
  case (Cons k ks)
  then obtain rec where r: "fmlookup m k = Some (Some rec)" "record_fine k rec" by auto
  from Cons.IH [of "fmupd k (Some rec) m0"] Cons.prems obtain m' where
    "dec_entries (map (\<lambda>k. (k, case fmlookup m k of Some (Some rec) \<Rightarrow> enc_Registration rec | _ \<Rightarrow> JNull)) ks) (fmupd k (Some rec) m0) = Some m'"
    "\<forall>j. fmlookup m' j = (if j \<in> set ks then fmlookup m j else fmlookup (fmupd k (Some rec) m0) j)" by auto
  with r dec_enc_Registration [OF r(2)] show ?case by (auto simp: enc_Registration_def)
qed simp

lemma registry_file_roundtrip:
  assumes "registry_fine r"
  shows "Unmarshal dec_registry (string_of_bytes (MarshalIndent (enc_registry r))) None = Some r"
proof -
  from assms obtain m where m: "r = Some m" "\<forall>k x. fmlookup m k = Some x \<longrightarrow> (\<exists>rec. x = Some rec \<and> record_fine k rec)"
    by (auto simp: registry_fine_def)
  let ?ks = "sorted_list_of_fset (fmdom m)"
  have ks: "\<forall>k\<in>set ?ks. \<exists>rec. fmlookup m k = Some (Some rec) \<and> record_fine k rec"
    using m(2) by (fastforce simp: fmlookup_dom_iff)
  have j: "wire_ok (case fmlookup m k of Some (Some rec) \<Rightarrow> enc_Registration rec | _ \<Rightarrow> JNull)
      \<and> json_depth (case fmlookup m k of Some (Some rec) \<Rightarrow> enc_Registration rec | _ \<Rightarrow> JNull) \<le> 9999 \<and> utf8 k" if "k \<in> set ?ks" for k
  proof -
    from ks that obtain rec where r: "fmlookup m k = Some (Some rec)" "record_fine k rec" by blast
    have "utf8 k" using r(2) ascii_CanonicalName [of k] by (simp add: record_fine_def)
    with dec_enc_Registration [OF r(2)] r(1) show ?thesis by (simp add: enc_Registration_def)
  qed
  have "wire_ok (enc_registry r)"
    using j by (auto simp: m(1) enc_registry_def wire_ok_def foldr_max_le list_all_iff maxNestingDepth_def comp_def intro: order_trans)
  moreover obtain m' where "dec_entries (map (\<lambda>k. (k, case fmlookup m k of Some (Some rec) \<Rightarrow> enc_Registration rec | _ \<Rightarrow> JNull)) ?ks) fmempty = Some m'"
    "\<forall>k. fmlookup m' k = (if k \<in> set ?ks then fmlookup m k else None)" using dec_entries_map [OF ks, of fmempty] by auto
  moreover have "m' = m"
    using calculation(3) by (intro fmap_ext) (auto simp: fmdom_notD)
  ultimately show ?thesis using m(1)
    by (simp add: MarshalIndent_def Unmarshal_indent) (simp add: enc_registry_def dec_registry_def)
qed

section \<open>Properties\<close>

text \<open>
  C19: the registrar is type safe. Started without a file, with an empty one, or with the file of a
  registry that was well formed, no sequence of requests and republishing passes, with requests
  between the publications of a pass, makes a handler write to a nil map or follow a nil pointer. At
  every moment each entry is under its own canonical name, which ends in .alt and is a valid name,
  and its root is a key.
\<close>

theorem registrar_type_safe:
  assumes "NewWithDataDir d i token dir0 mkdir_ok f = Some reg"
    and "f = FileMissing \<or> f = FileBytes [] \<or> (\<exists>r. registry_fine r \<and> f = FileBytes (MarshalIndent (enc_registry r)))"
    and "\<forall>e\<in>set es. event_ok e"
  shows "\<exists>reg'. foldl reg_step (Some reg) es = Some reg' \<and> registry_fine (rg_registry reg')"
proof -
  have "registry_fine (Some fmempty)" by (simp add: registry_fine_def)
  then have "registry_fine (rg_registry reg)"
    using assms(1,2) registry_file_roundtrip
    by (auto simp: NewWithDataDir_def registrar_New_def registrar_load_def Let_def split: if_splits option.splits)
  from reg_run_fine [OF this assms(3)] show ?thesis by blast
qed

text \<open>
  C20: the registry survives a restart. If the disk takes what is written, then after any run from
  an empty registry a new process that reads the file has the same registry, record for record.
\<close>

theorem registrar_restart:
  assumes "NewWithDataDir d i token dir0 True FileMissing = Some reg" and "dir0 \<noteq> []"
    and "\<forall>e\<in>set es. event_ok e \<and> disk_ok e"
  shows "\<exists>reg' reg2. foldl reg_step (Some reg) es = Some reg'
    \<and> NewWithDataDir d2 i2 token2 dir0 True (case rg_file reg' of None \<Rightarrow> FileMissing | Some b \<Rightarrow> FileBytes b) = Some reg2
    \<and> rg_registry reg2 = rg_registry reg'"
proof -
  have p: "path_Join dir0 ''registrar.json'' \<noteq> []" using assms(2) by (simp add: path_Join_def path_Clean_def Let_def)
  have r: "registry_fine (rg_registry reg)" "rg_registryPath reg \<noteq> []" "synced reg"
    using assms(1,2) p by (auto simp: NewWithDataDir_def registrar_New_def registrar_load_def synced_def registry_fine_def Let_def)
  from reg_run_fine [OF r(1), of es] assms(3) r obtain reg' where
    run: "foldl reg_step (Some reg) es = Some reg'" "registry_fine (rg_registry reg')" "synced reg'" by auto
  have "\<exists>reg2. NewWithDataDir d2 i2 token2 dir0 True (case rg_file reg' of None \<Rightarrow> FileMissing | Some b \<Rightarrow> FileBytes b) = Some reg2
      \<and> rg_registry reg2 = rg_registry reg'"
  proof (cases "rg_file reg'")
    case None
    with run(3) assms(2) show ?thesis by (simp add: synced_def NewWithDataDir_def registrar_New_def registrar_load_def Let_def)
  next
    case (Some b)
    with run(3) have b: "b = MarshalIndent (enc_registry (rg_registry reg'))" by (simp add: synced_def)
    moreover have "b \<noteq> []"
    proof
      assume "b = []"
      with b registry_file_roundtrip [OF run(2)] have "Unmarshal dec_registry [] None = Some (rg_registry reg')" by (simp add: string_of_bytes_def)
      moreover have "Unmarshal dec_registry [] None = None" by (simp add: Unmarshal_def json_parse_def json_first_def)
      ultimately show False by simp
    qed
    ultimately show ?thesis using assms(2) Some registry_file_roundtrip [OF run(2)]
      by (simp add: NewWithDataDir_def registrar_New_def registrar_load_def Let_def)
  qed
  with run(1) show ?thesis by blast
qed


subsection \<open>Taking a site down\<close>

text \<open>A node that holds a site, in a quiet environment, and a record that points to it.\<close>

definition registrar_site :: "reg_world \<Rightarrow> DHT \<Rightarrow> nat \<Rightarrow> (string \<times> bytes) list \<Rightarrow> NameRecord \<Rightarrow> bool" where
  "registrar_site W d n fs rec \<longleftrightarrow> quiet (rw_E W) \<and> paths_ok fs
     \<and> (\<forall>x\<in>set (dir_blobs (sha256 (rw_prims W)) fs). holds (rw_prims W) d x)
     \<and> nr_Root rec = Hex (ContentAddress (sha256 (rw_prims W)) (Directory_Marshal (dir_of (sha256 (rw_prims W)) fs)))"

lemma set_collect: "set (collect out ks) = set out \<union> set ks"
  unfolding collect_def by (induction ks arbitrary: out) auto

context serving_get
begin

lemma collect_entries_serves:
  "H s \<Longrightarrow> \<forall>(rel, b)\<in>set fs. set (file_blobs sha b) \<subseteq> X \<and> int64 (int (length b)) \<Longrightarrow>
   \<exists>s' out'. collect_entries get s (map (entry_of sha) fs) out = (s', out') \<and> H s'
     \<and> set out' = set out \<union> (\<Union>(rel, b)\<in>set fs. (\<lambda>x. Hex (ContentAddress sha x)) ` set (file_blobs sha b))"
proof (induction fs arbitrary: s out)
  case (Cons f fs)
  obtain rel b where f: "f = (rel, b)" by fastforce
  with Cons.prems have b: "set (file_blobs sha b) \<subseteq> X" "int64 (int (length b))" by auto
  then have "manifest_blob sha b \<in> X" by (auto simp: file_blobs_def)
  from serves [OF Cons.prems(1) this] obtain s1 where
    g: "get s (file_key sha b) = (s1, Inr (manifest_blob sha b))" "H s1" by (auto simp: file_key_def)
  have um: "UnmarshalFileManifest (manifest_blob sha b) = Some (manifest_of sha b)"
    using Unmarshal_Manifest [OF manifest_of_ok [OF b(2)]] by (simp add: manifest_blob_def)
  let ?out = "collect (collect out [Hex (file_key sha b)]) (fm_Chunks (manifest_of sha b))"
  from Cons.IH [OF g(2), of ?out] Cons.prems(2) obtain s' out' where
    "collect_entries get s1 (map (entry_of sha) fs) ?out = (s', out')" "H s'"
    "set out' = set ?out \<union> (\<Union>(rel, b)\<in>set fs. (\<lambda>x. Hex (ContentAddress sha x)) ` set (file_blobs sha b))" by auto
  then show ?case using g um
    by (auto simp: f entry_of_def Let_def set_collect manifest_of_def file_blobs_def file_key_def)
qed simp

end

lemma hex_encode_not_space: "x \<in> set (hex_encode bs) \<Longrightarrow> \<not> is_space x"
proof (induction bs)
  case (Cons b bs)
  have "\<not> is_space (hex_digit n)" if "n < 16" for n using that by (auto simp: hex_digit_def is_space_def char_eq_iff)
  moreover have "unat b div 16 < 16" using unsigned_less [of b, where 'a = nat] by simp
  ultimately show ?case using Cons by auto
qed simp

lemma norm_Hex [simp]: "norm_chunk (Hex i) = Hex i"
proof -
  have "TrimSpace (Hex i) = Hex i"
    using hex_encode_not_space [of "hd (Hex i)" "id_bytes i"] hex_encode_not_space [of "last (Hex i)" "id_bytes i"]
    by (intro TrimSpace_id) (auto simp: Hex_def)
  moreover have "ToLower (Hex i) = Hex i" using hex_encode_decode [OF hex_decode_encode] by (simp add: Hex_def)
  ultimately show ?thesis by (simp add: norm_chunk_def)
qed

lemma SignRevoke_chunks:
  assumes "SignRevoke c now nonce ident name chunks = Inr rp" and "Hex k \<in> set chunks"
  shows "Hex k \<in> set (rv_Chunks rp)"
proof -
  have "rv_Chunks rp = sort (map norm_chunk chunks)" using assms(1) by (auto simp: SignRevoke_def Let_def split: if_splits option.splits)
  with assms(2) norm_Hex [of k] show ?thesis by (metis image_eqI list.set_map set_sort)
qed

lemma dht_Get_blocked: "quiet E \<Longrightarrow> IsBlocked (snd s) key \<Longrightarrow> snd (dht_Get c E s key) = Inl GetNotFound"
  by (simp add: dht_Get_def getInner_def quiet_def Let_def)

lemma collectChunkHashes_site:
  assumes "registrar_site W d n fs rec" and "dht_Resolve (rw_prims W) (rw_trusted W) (rw_E W) (rw_ord W) (n, d) name = (s, Inr rec)"
  shows "\<exists>s' chunks. collectChunkHashes W (n, d) name = (s', chunks)
    \<and> set chunks = (\<lambda>x. Hex (ContentAddress (sha256 (rw_prims W)) x)) ` set (dir_blobs (sha256 (rw_prims W)) fs)"
proof -
  let ?c = "rw_prims W" and ?X = "set (dir_blobs (sha256 (rw_prims W)) fs)"
  note site = assms(1) [unfolded registrar_site_def]
  obtain m d1 where s: "s = (m, d1)" by fastforce
  have h: "\<forall>x\<in>?X. holds ?c d1 x" using quiet_Resolve_holds [OF _ assms(2) [unfolded s]] site by blast
  have H: "keeps ?c (rw_E W) ?X \<and> (\<forall>x\<in>?X. holds ?c d1 x)" using quiet_keeps h site by blast
  let ?dir = "Directory_Marshal (dir_of (sha256 ?c) fs)"
  have dX: "?dir \<in> ?X" by (simp add: dir_blobs_def)
  from dht_Get_local [OF _ h dX, of "rw_E W" m] H obtain d2 where
    g: "dht_Get ?c (rw_E W) (m, d1) (ContentAddress (sha256 ?c) ?dir) = ((m + 1, d2), Inr ?dir)" "\<forall>x\<in>?X. holds ?c d2 x" by blast
  have "\<forall>(rel, b)\<in>set (sort_key fst fs). set (file_blobs (sha256 ?c) b) \<subseteq> ?X \<and> int64 (int (length b))"
    using site dir_blobs_subset [of "sha256 ?c" fs ?X] by (auto simp: paths_ok_def)
  from local_get.collect_entries_serves [of ?c "rw_E W" ?X "(m + 1, d2)" "sort_key fst fs" "[Hex (ContentAddress (sha256 ?c) ?dir)]"] this H g(2)
  obtain s' out where o: "collect_entries (dht_Get ?c (rw_E W)) (m + 1, d2) (map (entry_of (sha256 ?c)) (sort_key fst fs))
      [Hex (ContentAddress (sha256 ?c) ?dir)] = (s', out)"
    "set out = {Hex (ContentAddress (sha256 ?c) ?dir)}
      \<union> (\<Union>(rel, b)\<in>set fs. (\<lambda>x. Hex (ContentAddress (sha256 ?c) x)) ` set (file_blobs (sha256 ?c) b))" by auto
  have "?X = insert ?dir (\<Union>(rel, b)\<in>set fs. set (file_blobs (sha256 ?c) b))" by (auto simp: dir_blobs_def)
  with o(2) have "set out = (\<lambda>x. Hex (ContentAddress (sha256 ?c) x)) ` ?X" by (simp add: image_UN case_prod_beta)
  moreover have "collectChunkHashes W (n, d) name = (s', out)"
    using assms(2) s site g(1) Unmarshal_dir_of [of fs "sha256 ?c"] o(1)
    by (simp add: collectChunkHashes_def reg_Resolve_def reg_Get_def RootKey_def) (simp add: dir_of_def)
  ultimately show ?thesis by blast
qed

text \<open>
  C17: a revoke takes the whole site down. When the owner of the token revokes a name whose site the
  node holds, the revoke that is broadcast names the directory, every manifest and every chunk of
  the site. On this node all of them are blocked and deleted, the name is no longer registered, and
  from then on the gateway of the node answers every request for the site with 502, and none of its bytes.
\<close>

theorem revoke_takes_down:
  assumes "rq_Method r = ''POST''" and "requireAuth h reg r = None"
    and "Decode dec_NameRequest (string_of_bytes (rq_Body r)) [] = Some name" and "TrimSpace (CanonicalName name) \<noteq> []" and "rw_nonce W = Some nb"
    and "rg_d reg = (n, d)" and "registrar_site W d n fs rec"
    and "dht_Resolve (rw_prims W) (rw_trusted W) (rw_E W) (rw_ord W) (n, d) (CanonicalName name) = (s, Inr rec)"
  shows "\<exists>reg' msg resp rp. registrar_handleRevoke W h reg r = (reg', [Broadcast msg], resp) \<and> rs_Code resp = 200
    \<and> msg = mk_message ''dht_revoke'' (print_json (enc_Revoke rp))
    \<and> (\<forall>x\<in>set (dir_blobs (sha256 (rw_prims W)) fs).
         Hex (ContentAddress (sha256 (rw_prims W)) x) \<in> set (rv_Chunks rp) \<and> purged (ContentAddress (sha256 (rw_prims W)) x) (snd (rg_d reg')))
    \<and> reg_lookup reg' (CanonicalName name) = None
    \<and> (\<forall>rootKey q p. RootKey rec = Inr rootKey \<longrightarrow>
         rs_Code (snd (serveFromRoot (node_world (rw_prims W) tr (rw_E W) ord texts mime detect buf) (rg_d reg') q rootKey p)) = 502)"
proof -
  let ?c = "rw_prims W" and ?X = "set (dir_blobs (sha256 (rw_prims W)) fs)"
  let ?dir = "Directory_Marshal (dir_of (sha256 ?c) fs)"
  obtain s' chunks where c: "collectChunkHashes W (n, d) (CanonicalName name) = (s', chunks)"
    "set chunks = (\<lambda>x. Hex (ContentAddress (sha256 ?c) x)) ` ?X" using collectChunkHashes_site [OF assms(7,8)] by blast
  obtain rp where rp: "SignRevoke ?c (Unix (rw_now W)) (rw_nonce W) (Some (rg_id reg)) (CanonicalName name) chunks = Inr rp"
    using assms(4,5) by (simp add: SignRevoke_def Let_def)
  define reg' where "reg' = (forget_name W (reg\<lparr>rg_d := s'\<rparr>) (CanonicalName name))\<lparr>rg_d := (fst s', applyRevoke (snd s') rp)\<rparr>"
  have run: "registrar_handleRevoke W h reg r = (reg', [Broadcast (mk_message ''dht_revoke'' (print_json (enc_Revoke rp)))],
      jsonReply h 200 (enc_RevokeResponse (CanonicalName name) (length chunks) True []))"
    using assms(1-3,6) c(1) rp by (simp add: registrar_handleRevoke_def Let_def BroadcastRevoke_def reg'_def)
  have all: "Hex (ContentAddress (sha256 ?c) x) \<in> set (rv_Chunks rp) \<and> purged (ContentAddress (sha256 ?c) x) (snd (rg_d reg'))" if "x \<in> ?X" for x
    using SignRevoke_chunks [OF rp, of "ContentAddress (sha256 ?c) x"] c(2) that
      applyRevoke_purged [of "Hex (ContentAddress (sha256 ?c) x)" rp "ContentAddress (sha256 ?c) x" "snd s'"] by (simp add: reg'_def)
  have gone: "reg_lookup reg' (CanonicalName name) = None"
    by (simp add: reg'_def reg_lookup_def forget_name_def registrar_save_def split: option.splits)
  have "rs_Code (snd (serveFromRoot (node_world ?c tr (rw_E W) ord texts mime detect buf) (rg_d reg') q rootKey p)) = 502"
    if "RootKey rec = Inr rootKey" for rootKey q p
  proof -
    have "?dir \<in> ?X" by (simp add: dir_blobs_def)
    moreover have "rootKey = ContentAddress (sha256 ?c) ?dir" using that assms(7) by (simp add: RootKey_def registrar_site_def)
    ultimately have "IsBlocked (snd (rg_d reg')) rootKey" using all by (auto simp: purged_def)
    then have "snd (dht_Get ?c (rw_E W) (rg_d reg') rootKey) = Inl GetNotFound"
      using assms(7) by (intro dht_Get_blocked) (auto simp: registrar_site_def)
    then show ?thesis by (cases "dht_Get ?c (rw_E W) (rg_d reg') rootKey") (simp add: serveFromRoot_def)
  qed
  with run all gone show ?thesis by auto
qed

lemma registrar_handleRegister_201:
  assumes "registrar_handleRegister W h reg r = Some (reg', resp)" and "rs_Code resp = 201"
    and "Decode dec_RegisterRequest (string_of_bytes (rq_Body r)) zero_RegisterRequest = Some req"
  obtains rootKey d1 dhtRec m where "rq_Method r = ''POST''" "requireAuth h reg r = None"
    "\<forall>tx. ValidateDomain tx (CanonicalName (rq_name req)) = None" "IDFromHex (rq_root req) = Inr rootKey"
    "reg_lookup reg (CanonicalName (rq_name req)) = None" "rg_registry reg = Some m"
    "reg_Publish W reg (CanonicalName (rq_name req)) rootKey (rw_now W) = (d1, Inr dhtRec)"
    "reg' = registrar_save W (reg\<lparr>rg_d := d1, rg_registry := Some (fmupd (CanonicalName (rq_name req)) (Some
      \<lparr>rr_Name = CanonicalName (rq_name req), rr_Root = rq_root req, rr_Owner = rq_owner req,
       rr_RegisteredAt = Unix (rw_now W), rr_UpdatedAt = Unix (rw_now W), rr_Version = nr_Version dhtRec\<rparr>) m)\<rparr>)"
proof -
  have p: "rq_Method r = ''POST''" "requireAuth h reg r = None" "ValidateDomain (rw_text W) (CanonicalName (rq_name req)) = None"
    using assms by (auto simp: registrar_handleRegister_def Let_def decode_error_def dest: requireAuth_401 split: if_splits option.splits)
  have v: "ValidateDomain tx (CanonicalName (rq_name req)) = None" for tx using p(3) by (simp add: ValidateDomain_def split: if_splits)
  obtain rootKey where k: "IDFromHex (rq_root req) = Inr rootKey" using assms p by (auto simp: registrar_handleRegister_def Let_def split: sum.splits)
  have l: "reg_lookup reg (CanonicalName (rq_name req)) = None" using assms p k by (auto simp: registrar_handleRegister_def Let_def split: if_splits)
  obtain d1 x where P: "reg_Publish W reg (CanonicalName (rq_name req)) rootKey (rw_now W) = (d1, x)" by fastforce
  have "\<exists>dhtRec m. x = Inr dhtRec \<and> rg_registry reg = Some m" using assms p k l P
    by (auto simp: registrar_handleRegister_def Let_def split: sum.splits option.splits)
  then obtain dhtRec m where "x = Inr dhtRec" "rg_registry reg = Some m" by blast
  with that p v k l P assms show thesis by (auto simp: registrar_handleRegister_def Let_def)
qed


subsection \<open>The registry as a map\<close>

text \<open>What a client sees of the registry: a map from names to roots and owners, and how the answers tell what became of it.\<close>

type_synonym name_map = "string \<rightharpoonup> string \<times> string"

definition reg_abs :: "Registrar \<Rightarrow> name_map" where
  "reg_abs reg k = (case reg_lookup reg k of Some (Some rec) \<Rightarrow> Some (rr_Root rec, rr_Owner rec) | _ \<Rightarrow> None)"

definition registry_spec :: "name_map \<Rightarrow> request \<Rightarrow> nat \<Rightarrow> name_map" where
  "registry_spec m r code =
     (if rq_Method r \<noteq> ''POST'' then m
      else if rq_Path r = ''/api/register'' \<and> code = 201 then
        (case Decode dec_RegisterRequest (string_of_bytes (rq_Body r)) zero_RegisterRequest of
           None \<Rightarrow> m
         | Some req \<Rightarrow> m(CanonicalName (rq_name req) \<mapsto> (rq_root req, rq_owner req)))
      else if rq_Path r = ''/api/update'' \<and> code = 200 then
        (case Decode dec_UpdateRequest (string_of_bytes (rq_Body r)) zero_UpdateRequest of
           None \<Rightarrow> m
         | Some req \<Rightarrow>
             (case m (CanonicalName (up_name req)) of None \<Rightarrow> m | Some (_, owner) \<Rightarrow> m(CanonicalName (up_name req) \<mapsto> (up_root req, owner))))
      else if rq_Path r = ''/api/unregister'' \<and> code = 200 \<or> rq_Path r = ''/api/revoke'' \<and> code \<in> {200, 500} then
        (case Decode dec_NameRequest (string_of_bytes (rq_Body r)) [] of None \<Rightarrow> m | Some name \<Rightarrow> m(CanonicalName name := None))
      else m)"

text \<open>The answers that are right for a map.\<close>

definition registry_answer :: "name_map \<Rightarrow> request \<Rightarrow> nat \<Rightarrow> bool" where
  "registry_answer m r code \<longleftrightarrow> rq_Method r = ''POST'' \<longrightarrow>
     (rq_Path r = ''/api/register'' \<and> code \<in> {201, 409} \<longrightarrow>
        (\<exists>req. Decode dec_RegisterRequest (string_of_bytes (rq_Body r)) zero_RegisterRequest = Some req
           \<and> (code = 201) = (m (CanonicalName (rq_name req)) = None)))
     \<and> (rq_Path r = ''/api/update'' \<and> code \<in> {200, 404} \<longrightarrow>
        (\<exists>req. Decode dec_UpdateRequest (string_of_bytes (rq_Body r)) zero_UpdateRequest = Some req
           \<and> (code = 404) = (m (CanonicalName (up_name req)) = None)))
     \<and> (rq_Path r = ''/api/unregister'' \<and> code \<in> {200, 404} \<longrightarrow>
        (\<exists>name. Decode dec_NameRequest (string_of_bytes (rq_Body r)) [] = Some name
           \<and> (code = 404) = (m (CanonicalName name) = None)))"

lemma reg_lookup_save [simp]: "reg_lookup (registrar_save W reg) = reg_lookup reg"
  by (simp add: fun_eq_iff reg_lookup_def registrar_save_def)

lemma reg_abs_same: "rg_registry reg' = rg_registry reg \<Longrightarrow> reg_abs reg' = reg_abs reg"
  by (simp add: fun_eq_iff reg_abs_def reg_lookup_def)

lemma reg_abs_none: "registry_fine (rg_registry reg) \<Longrightarrow> reg_abs reg k = None \<longleftrightarrow> reg_lookup reg k = None"
  by (fastforce simp: reg_abs_def registry_fine_def reg_lookup_def split: option.splits)

lemma reg_abs_enter:
  "rg_registry reg = Some m \<Longrightarrow> reg_abs (registrar_save W (reg\<lparr>rg_d := d, rg_registry := Some (fmupd k (Some rec) m)\<rparr>))
    = (reg_abs reg)(k \<mapsto> (rr_Root rec, rr_Owner rec))"
  by (simp add: fun_eq_iff reg_abs_def) (simp add: reg_lookup_def)

lemma reg_abs_forget: "reg_abs (forget_name W (reg\<lparr>rg_d := d\<rparr>) k) = (reg_abs reg)(k := None)"
  by (auto simp: fun_eq_iff reg_abs_def reg_lookup_def forget_name_def registrar_save_def split: option.splits)

lemma registrar_handleRegister_refines:
  assumes fine: "registry_fine (rg_registry reg)" and f: "registrar_handleRegister W h reg r = Some (reg', resp)"
    and r: "rq_Path r = ''/api/register''"
  shows "reg_abs reg' = registry_spec (reg_abs reg) r (rs_Code resp) \<and> registry_answer (reg_abs reg) r (rs_Code resp)"
proof (cases "rs_Code resp = 201")
  case True
  obtain req where q: "Decode dec_RegisterRequest (string_of_bytes (rq_Body r)) zero_RegisterRequest = Some req"
    using f True by (auto simp: registrar_handleRegister_def decode_error_def dest: requireAuth_401 split: if_splits option.splits)
  obtain rootKey d1 dhtRec m where R: "rq_Method r = ''POST''" "requireAuth h reg r = None"
    "\<forall>tx. ValidateDomain tx (CanonicalName (rq_name req)) = None" "IDFromHex (rq_root req) = Inr rootKey"
    "reg_lookup reg (CanonicalName (rq_name req)) = None" "rg_registry reg = Some m"
    "reg_Publish W reg (CanonicalName (rq_name req)) rootKey (rw_now W) = (d1, Inr dhtRec)"
    "reg' = registrar_save W (reg\<lparr>rg_d := d1, rg_registry := Some (fmupd (CanonicalName (rq_name req)) (Some
      \<lparr>rr_Name = CanonicalName (rq_name req), rr_Root = rq_root req, rr_Owner = rq_owner req,
       rr_RegisteredAt = Unix (rw_now W), rr_UpdatedAt = Unix (rw_now W), rr_Version = nr_Version dhtRec\<rparr>) m)\<rparr>)"
    by (rule registrar_handleRegister_201 [OF f True q])
  with q r True reg_abs_none [OF fine] show ?thesis by (simp add: reg_abs_enter registry_spec_def registry_answer_def)
next
  case False
  have "rg_registry reg' = rg_registry reg"
    using f False by (auto simp: registrar_handleRegister_def Let_def split: if_splits option.splits sum.splits prod.splits)
  moreover have "\<exists>req. Decode dec_RegisterRequest (string_of_bytes (rq_Body r)) zero_RegisterRequest = Some req
      \<and> reg_lookup reg (CanonicalName (rq_name req)) \<noteq> None" if "rs_Code resp = 409"
    using f that by (auto simp: registrar_handleRegister_def Let_def decode_error_def dest: requireAuth_401 split: if_splits option.splits sum.splits prod.splits)
  ultimately show ?thesis using False r reg_abs_none [OF fine] by (auto simp: registry_spec_def registry_answer_def dest: reg_abs_same)
qed

lemma handleUpdate_refines:
  assumes fine: "registry_fine (rg_registry reg)" and f: "handleUpdate W h reg r = Some (reg', resp)"
    and r: "rq_Path r = ''/api/update''"
  shows "reg_abs reg' = registry_spec (reg_abs reg) r (rs_Code resp) \<and> registry_answer (reg_abs reg) r (rs_Code resp)"
proof (cases "rs_Code resp = 200")
  case True
  obtain req where q: "rq_Method r = ''POST''" "requireAuth h reg r = None"
    "Decode dec_UpdateRequest (string_of_bytes (rq_Body r)) zero_UpdateRequest = Some req"
    using f True by (auto simp: handleUpdate_def decode_error_def dest: requireAuth_401 split: if_splits option.splits)
  let ?k = "CanonicalName (up_name req)"
  obtain rootKey where rootKey: "IDFromHex (up_root req) = Inr rootKey" using f True q by (auto simp: handleUpdate_def Let_def split: sum.splits)
  obtain live where live: "reg_lookup reg ?k = Some live" using f True q rootKey by (auto simp: handleUpdate_def Let_def split: option.splits)
  note l = lookup_fine [OF fine live]
  obtain m rec where m: "rg_registry reg = Some m" "live = Some rec" using l by metis
  obtain d1 x where P: "reg_Publish W reg ?k rootKey (rw_now W) = (d1, x)" by fastforce
  obtain dhtRec where x: "x = Inr dhtRec" using f True q rootKey live P by (auto simp: handleUpdate_def Let_def split: sum.splits)
  have "reg' = registrar_save W (reg\<lparr>rg_d := d1, rg_registry := Some (fmupd ?k (Some
      (rec\<lparr>rr_Root := up_root req, rr_UpdatedAt := Unix (rw_now W), rr_Version := nr_Version dhtRec\<rparr>)) m)\<rparr>)"
    using f q rootKey live m P x by (simp add: handleUpdate_def Let_def)
  moreover have "reg_abs reg ?k = Some (rr_Root rec, rr_Owner rec)" using live m by (simp add: reg_abs_def)
  ultimately show ?thesis using q r True m(1) by (simp add: reg_abs_enter registry_spec_def registry_answer_def)
next
  case False
  have "rg_registry reg' = rg_registry reg"
    using f False by (auto simp: handleUpdate_def Let_def split: if_splits option.splits sum.splits prod.splits)
  moreover have "\<exists>req. Decode dec_UpdateRequest (string_of_bytes (rq_Body r)) zero_UpdateRequest = Some req
      \<and> reg_lookup reg (CanonicalName (up_name req)) = None" if "rs_Code resp = 404"
    using f that by (auto simp: handleUpdate_def Let_def decode_error_def dest: requireAuth_401 split: if_splits option.splits sum.splits prod.splits)
  ultimately show ?thesis using False r reg_abs_none [OF fine] by (auto simp: registry_spec_def registry_answer_def dest: reg_abs_same)
qed

lemma handleUnregister_refines:
  assumes fine: "registry_fine (rg_registry reg)" and f: "handleUnregister W h reg r = Some (reg', resp)"
    and r: "rq_Path r = ''/api/unregister''"
  shows "reg_abs reg' = registry_spec (reg_abs reg) r (rs_Code resp) \<and> registry_answer (reg_abs reg) r (rs_Code resp)"
proof (cases "requireAuth h reg r = None \<and> rq_Method r = ''POST'' \<and> Decode dec_NameRequest (string_of_bytes (rq_Body r)) [] \<noteq> None")
  case True
  then obtain name where q: "requireAuth h reg r = None" "rq_Method r = ''POST''" "Decode dec_NameRequest (string_of_bytes (rq_Body r)) [] = Some name"
    by blast
  have "reg\<lparr>rg_d := rg_d reg\<rparr> = reg" by simp
  with reg_abs_forget [where W = W and reg = reg and d = "rg_d reg"] have a: "reg_abs (forget_name W reg k) = (reg_abs reg)(k := None)" for k by simp
  from f q r reg_abs_none [OF fine] show ?thesis
    by (auto simp: handleUnregister_def Let_def a registry_spec_def registry_answer_def split: if_splits)
next
  case False
  with f have "reg' = reg" "rs_Code resp \<in> {400, 401, 405}"
    by (auto simp: handleUnregister_def decode_error_def dest: requireAuth_401 split: if_splits option.splits)
  with r show ?thesis by (auto simp: registry_spec_def registry_answer_def)
qed

lemma handleRevoke_refines:
  assumes f: "registrar_handleRevoke W h reg r = (reg', fx, resp)" and r: "rq_Path r = ''/api/revoke''"
  shows "reg_abs reg' = registry_spec (reg_abs reg) r (rs_Code resp) \<and> registry_answer (reg_abs reg) r (rs_Code resp)"
proof (cases "requireAuth h reg r = None \<and> rq_Method r = ''POST'' \<and> Decode dec_NameRequest (string_of_bytes (rq_Body r)) [] \<noteq> None")
  case True
  then obtain name where q: "requireAuth h reg r = None" "rq_Method r = ''POST''" "Decode dec_NameRequest (string_of_bytes (rq_Body r)) [] = Some name"
    by blast
  have d: "reg_abs (x\<lparr>rg_d := d\<rparr>) = reg_abs x" for x d by (rule reg_abs_same) simp
  obtain d1 chunks where "collectChunkHashes W (rg_d reg) (CanonicalName name) = (d1, chunks)" by fastforce
  with f q r show ?thesis
    by (auto simp: registrar_handleRevoke_def Let_def reg_abs_forget d registry_spec_def registry_answer_def split: sum.splits prod.splits)
next
  case False
  with f have "reg' = reg" "rs_Code resp \<in> {400, 401, 405}"
    by (auto simp: registrar_handleRevoke_def decode_error_def dest: requireAuth_401 split: if_splits option.splits)
  with r show ?thesis by (auto simp: registry_spec_def registry_answer_def)
qed

text \<open>
  C18: the registry is a map from names to roots and owners. Every request changes the map as its
  answer says: a registration that is answered with 201 enters the name, an update with 200 changes
  the root and keeps the owner, an unregistration with 200 and a revoke remove it, and every other
  answer means that nothing has changed. A registration succeeds only for a name that is not in the
  map and conflicts only for one that is; updates and unregistrations are the other way round.
\<close>

theorem registry_refinement:
  assumes "registry_fine (rg_registry reg)" and "registrar_serve W reg r = Some (reg', resp)"
  shows "reg_abs reg' = registry_spec (reg_abs reg) r (rs_Code resp) \<and> registry_answer (reg_abs reg) r (rs_Code resp)"
proof -
  have other: ?thesis if "rg_registry reg' = rg_registry reg"
    "rq_Method r = ''POST'' \<longrightarrow> rq_Path r \<notin> {''/api/register'', ''/api/update'', ''/api/unregister'', ''/api/revoke''}"
    using that by (auto simp: registry_spec_def registry_answer_def dest: reg_abs_same)
  have pre: "HasPrefix (rq_Path r) ''/api/check/'' \<or> HasPrefix (rq_Path r) ''/api/stats/'' \<Longrightarrow>
      rq_Path r \<notin> {''/api/register'', ''/api/update'', ''/api/unregister'', ''/api/revoke''}" by (auto simp: HasPrefix_def)
  consider "rq_Method r = ''OPTIONS''" | "rq_Method r \<noteq> ''OPTIONS''" "rq_Path r \<in> {''/api/register'', ''/api/update'', ''/api/unregister'', ''/api/revoke''}"
    | "rq_Method r \<noteq> ''OPTIONS''" "rq_Path r \<notin> {''/api/register'', ''/api/update'', ''/api/unregister'', ''/api/revoke''}" by blast
  then show ?thesis
  proof cases
    case 1
    with assms(2) show ?thesis by (intro other) (auto simp: registrar_serve_def Let_def)
  next
    case 2
    with pre have "\<not> HasPrefix (rq_Path r) ''/api/check/''" "\<not> HasPrefix (rq_Path r) ''/api/stats/''" by auto
    with 2 assms registrar_handleRegister_refines [OF assms(1), of W cors_headers r] handleUpdate_refines [OF assms(1), of W cors_headers r]
      handleUnregister_refines [OF assms(1), of W cors_headers r] handleRevoke_refines [of W cors_headers reg r]
    show ?thesis by (auto simp: registrar_serve_def Let_def split: prod.splits)
  next
    case 3
    from handleCheck_change [OF assms(1), of W cors_headers r] have c: "handleCheck W cors_headers reg r = Some (reg', resp) \<Longrightarrow> rg_registry reg' = rg_registry reg"
      by auto
    have p: "handlePublish W cors_headers reg r = Some (reg', resp) \<Longrightarrow> rg_registry reg' = rg_registry reg"
      by (auto simp: handlePublish_def split: if_splits option.splits sum.splits prod.splits)
    from 3 assms(2) c p handle_others_change(1,3) [of W cors_headers reg r] show ?thesis
      by (intro other) (auto simp: registrar_serve_def Let_def split: if_splits)
  qed
qed

text \<open>
  A registry file with the content null breaks the registrar without an error. The file loads, the
  registry is a nil map, and the first registration that would succeed panics, after the record has
  been published.
\<close>

theorem null_registry_panics:
  assumes "dir0 \<noteq> []"
  shows "\<exists>reg. NewWithDataDir d i token dir0 True (FileBytes (bytes_of_string ''null'')) = Some reg
    \<and> (\<forall>W h r req rootKey d1 rec. rq_Method r = ''POST'' \<and> requireAuth h reg r = None
        \<and> Decode dec_RegisterRequest (string_of_bytes (rq_Body r)) zero_RegisterRequest = Some req
        \<and> ValidateDomain (rw_text W) (CanonicalName (rq_name req)) = None \<and> IDFromHex (rq_root req) = Inr rootKey
        \<and> reg_Publish W reg (CanonicalName (rq_name req)) rootKey (rw_now W) = (d1, Inr rec) \<longrightarrow> registrar_handleRegister W h reg r = None)"
proof -
  have null: "bytes_of_string ''null'' \<noteq> []" by (simp add: bytes_of_string_def)
  have "wire_ok JNull" by (simp add: wire_ok_def)
  from Unmarshal_wire [OF this, of dec_registry None] have "Unmarshal dec_registry ''null'' None = Some None" by (simp add: dec_registry_def)
  then have "NewWithDataDir d i token dir0 True (FileBytes (bytes_of_string ''null'')) = Some
      ((registrar_New d i token)\<lparr>rg_registryPath := path_Join dir0 ''registrar.json'', rg_file := Some (bytes_of_string ''null''), rg_registry := None\<rparr>)"
    using assms null by (simp add: NewWithDataDir_def registrar_load_def Let_def)
  then show ?thesis by (auto simp: registrar_handleRegister_def reg_lookup_def Let_def)
qed

text \<open>
  Unregistering a name does not take it off the gateway. The handler changes the registry, the file
  and the counters, not the node, and the gateway asks the node: it answers every request as before.
\<close>

theorem unregister_still_served:
  assumes "handleUnregister W h reg r = Some (reg', resp)"
  shows "gateway_handle V now (g\<lparr>g_d := rg_d reg'\<rparr>) q = gateway_handle V now (g\<lparr>g_d := rg_d reg\<rparr>) q"
proof -
  have "rg_d reg' = rg_d reg"
    using assms by (auto simp: handleUnregister_def forget_name_def registrar_save_def Let_def split: if_splits option.splits)
  then show ?thesis by simp
qed

text \<open>
  Visits under another spelling of a name are not counted. The gateway counts a visit under the
  host as the browser wrote it, while it resolves the canonical name, and the registrar reads the
  counters of the canonical name.
\<close>

theorem other_spelling_uncounted:
  assumes "name \<noteq> CanonicalName name"
  shows "stats_Get (stats_Record now st name ip n) (CanonicalName name) = stats_Get st (CanonicalName name)"
  using assms by (simp add: stats_Record_def stats_Get_def Let_def)

section \<open>A registrar\<close>

definition sample_reg_world :: reg_world where
  "sample_reg_world = \<lparr>rw_prims = file_prims, rw_trusted = None, rw_E = file_env, rw_ord = (\<lambda>_ xs. xs), rw_pe = (\<lambda>_. sample_pe),
     rw_henv = file_henv, rw_stat = (\<lambda>_. None), rw_walk = (\<lambda>_. []), rw_now = 1, rw_nonce = Some [], rw_text = (\<lambda>_. []),
     rw_order = (\<lambda>ks. ks), rw_written = True, rw_renamed = True, rw_location = (\<lambda>_. [])\<rparr>"

definition sample_post :: "string \<Rightarrow> json \<Rightarrow> request" where
  "sample_post p j = \<lparr>rq_Method = ''POST'', rq_Host = [], rq_Path = p, rq_RemoteAddr = [], rq_Header = (\<lambda>_. ''Bearer t''),
     rq_Query = (\<lambda>_. []), rq_Range = None, rq_Body = Marshal j\<rparr>"

definition sample_registration :: json where
  "sample_registration = JObj [(''name'', JStr ''a.alt''), (''root'', JStr (Hex sample_root)), (''owner'', JStr ''me'')]"

definition sample_registrar :: Registrar where
  "sample_registrar = (registrar_New (0, sample_site) toy_identity ''t'')\<lparr>rg_registryPath := path_Join ''d'' ''registrar.json''\<rparr>"

lemma Decode_wire: "wire_ok j \<Longrightarrow> Decode dec (string_of_bytes (Marshal j)) x = dec j x"
  by (simp add: Decode_def Marshal_def wire_ok_def json_parse_print(2))

lemma sample_decode:
  "Decode dec_RegisterRequest (string_of_bytes (Marshal sample_registration)) zero_RegisterRequest
    = Some \<lparr>rq_name = ''a.alt'', rq_root = Hex sample_root, rq_owner = ''me''\<rparr>"
  "Decode dec_NameRequest (string_of_bytes (Marshal (JObj [(''name'', JStr ''a.alt'')]))) [] = Some ''a.alt''"
proof -
  have t: "to_valid x = x" if "x \<in> {''name'', ''root'', ''owner'', ''a.alt'', ''me''}" for x
    using that by (auto simp: ascii_def intro!: utf8_eq utf8_ascii)
  have "wire_ok sample_registration" "wire_ok (JObj [(''name'', JStr ''a.alt'')])"
    by (simp_all add: wire_ok_def sample_registration_def t maxNestingDepth_def)
  then show "Decode dec_RegisterRequest (string_of_bytes (Marshal sample_registration)) zero_RegisterRequest
      = Some \<lparr>rq_name = ''a.alt'', rq_root = Hex sample_root, rq_owner = ''me''\<rparr>"
    "Decode dec_NameRequest (string_of_bytes (Marshal (JObj [(''name'', JStr ''a.alt'')]))) [] = Some ''a.alt''"
    by (simp_all add: Decode_wire)
       (simp_all add: sample_registration_def dec_RegisterRequest_def dec_NameRequest_def dec_struct_def find_field_def field_def dec_string_def
        zero_RegisterRequest_def)
qed

lemma sample_auth_token: "rg_token reg = ''t'' \<Longrightarrow> requireAuth h reg (sample_post p j) = None"
proof -
  assume "rg_token reg = ''t''"
  moreover have "TrimSpace (TrimPrefix (TrimPrefix ''Bearer t'' ''Bearer '') ''bearer '') = ''t''" by code_simp
  ultimately show ?thesis by (simp add: requireAuth_def sample_post_def Let_def)
qed

lemma sample_auth: "requireAuth h sample_registrar (sample_post p j) = None"
  by (rule sample_auth_token) (simp add: sample_registrar_def registrar_New_def)

lemma sample_domain: "ValidateDomain tx ''a.alt'' = None" "TrimSpace ''a.alt'' = ''a.alt''"
  by (simp add: ValidateDomain_def HasSuffix_def TrimSuffix_def) code_simp

lemma sample_register:
  "\<exists>reg' resp. registrar_handleRegister sample_reg_world h sample_registrar (sample_post p sample_registration) = Some (reg', resp)
    \<and> rs_Code resp = 201 \<and> rg_d reg' = (1, sample_named)"
proof -
  have "sample_pe\<lparr>pe_h := (pe_h sample_pe)\<lparr>h_prims := file_prims\<rparr>\<rparr> = sample_pe" by (simp add: sample_pe_def file_henv_def)
  then have "reg_Publish sample_reg_world sample_registrar ''a.alt'' sample_root 1 = ((1, sample_named), Inr sample_rec)"
    using sample_published_name
    by (simp add: reg_Publish_def dht_Publish_def sample_reg_world_def sample_registrar_def registrar_New_def Publish_def)
  moreover have "rw_now sample_reg_world = 1" "rg_registry sample_registrar = Some fmempty" "reg_lookup sample_registrar ''a.alt'' = None"
    by (simp_all add: sample_reg_world_def sample_registrar_def registrar_New_def reg_lookup_def)
  moreover have "rq_Method (sample_post p j) = ''POST''" "rq_Body (sample_post p j) = Marshal j" for j by (simp_all add: sample_post_def)
  ultimately show ?thesis
    by (simp add: registrar_handleRegister_def sample_auth sample_decode sample_name(2) sample_domain Let_def registrar_save_def)
qed

lemma sample_input: "input_ok sample_reg_world (sample_post p sample_registration)"
  using sample_decode(1) by (simp add: input_ok_def sample_reg_world_def sample_post_def int64_def ascii_def)

lemma sample_served:
  "\<exists>reg' resp. registrar_serve sample_reg_world sample_registrar (sample_post ''/api/register'' sample_registration) = Some (reg', resp)
    \<and> rs_Code resp = 201"
proof -
  have "rq_Method (sample_post p j) = ''POST''" "rq_Path (sample_post p j) = p" for p j by (simp_all add: sample_post_def)
  then show ?thesis using sample_register [of cors_headers "''/api/register''"]
    by (auto simp: registrar_serve_def Let_def HasPrefix_def)
qed

theorem registrar_type_safe_witness:
  "\<exists>reg'. foldl reg_step (Some sample_registrar) [Request sample_reg_world (sample_post ''/api/register'' sample_registration)] = Some reg'
    \<and> registry_fine (rg_registry reg')"
proof -
  have "NewWithDataDir (0, sample_site) toy_identity ''t'' ''d'' True FileMissing = Some sample_registrar"
    by (simp add: NewWithDataDir_def registrar_load_def sample_registrar_def registrar_New_def Let_def)
  from registrar_type_safe [OF this, of "[Request sample_reg_world (sample_post ''/api/register'' sample_registration)]"] sample_input
  show ?thesis by simp
qed

theorem registrar_restart_witness:
  "\<exists>reg' reg2. foldl reg_step (Some sample_registrar) [Request sample_reg_world (sample_post ''/api/register'' sample_registration)] = Some reg'
    \<and> NewWithDataDir (0, sample_site) toy_identity ''t'' ''d'' True (case rg_file reg' of None \<Rightarrow> FileMissing | Some b \<Rightarrow> FileBytes b) = Some reg2
    \<and> rg_registry reg2 = rg_registry reg'"
proof -
  have "NewWithDataDir (0, sample_site) toy_identity ''t'' ''d'' True FileMissing = Some sample_registrar"
    by (simp add: NewWithDataDir_def registrar_load_def sample_registrar_def registrar_New_def Let_def)
  from registrar_restart [OF this, of "[Request sample_reg_world (sample_post ''/api/register'' sample_registration)]"
      "(0, sample_site)" toy_identity "''t''"] sample_input
  show ?thesis by (simp add: sample_reg_world_def)
qed



lemma sample_named_holds: "\<forall>x\<in>{[7], sample_manifest, sample_directory}. holds file_prims sample_named x"
proof -
  have "\<forall>x\<in>{[7], sample_manifest, sample_directory}. holds file_prims sample_site x"
    using fold_store_blob_holds [of sample_dht "{}" file_henv "[[7], sample_manifest, sample_directory]"] sample_inj sample_dht_simps
    by (simp add: sample_site_def)
  with Publish_keeps [OF sample_published_name, of file_prims "{[7], sample_manifest, sample_directory}"] sample_site_alone sample_record_key
  show ?thesis by (simp add: sample_pe_def sample_publish_def calm_def sample_env_def)
qed

theorem revoke_takes_down_witness:
  "\<exists>reg' msg resp. registrar_handleRevoke sample_reg_world [] (sample_registrar\<lparr>rg_d := (0, sample_named)\<rparr>)
      (sample_post [] (JObj [(''name'', JStr ''a.alt'')])) = (reg', [Broadcast msg], resp)
    \<and> purged (ContentAddress (sha256 file_prims) [7]) (snd (rg_d reg'))"
proof -
  let ?reg = "sample_registrar\<lparr>rg_d := (0, sample_named)\<rparr>" and ?r = "sample_post [] (JObj [(''name'', JStr ''a.alt'')])"
  have W: "rw_prims sample_reg_world = file_prims" "rw_E sample_reg_world = file_env" "rw_trusted sample_reg_world = None"
    "rw_ord sample_reg_world = (\<lambda>_ xs. xs)" "rw_nonce sample_reg_world = Some []" by (simp_all add: sample_reg_world_def)
  have dir: "Directory_Marshal (dir_of (sha256 file_prims) [(''a'', [7])]) = sample_directory" using sample_blobs by (simp add: dir_blobs_def)
  have site: "registrar_site sample_reg_world sample_named 0 [(''a'', [7])] sample_rec"
    using sample_quiet sample_paths_ok sample_named_holds by (simp add: registrar_site_def W sample_blobs dir) (simp add: sample_rec_def sample_root_def)
  obtain d where res: "dht_Resolve file_prims None file_env (\<lambda>_ xs. xs) (0, sample_named) ''a.alt'' = ((1, d), Inr sample_rec)"
    using sample_resolved by blast
  have a: "requireAuth [] ?reg ?r = None" by (rule sample_auth_token) (simp add: sample_registrar_def registrar_New_def)
  have q: "rq_Method ?r = ''POST''" "rq_Body ?r = Marshal (JObj [(''name'', JStr ''a.alt'')])" by (simp_all add: sample_post_def)
  have d: "Decode dec_NameRequest (string_of_bytes (rq_Body ?r)) [] = Some ''a.alt''" using sample_decode(2) q(2) by simp
  have n: "TrimSpace (CanonicalName ''a.alt'') \<noteq> []" "rg_d ?reg = (0, sample_named)" using sample_domain(2) by (simp_all add: sample_name)
  have "dht_Resolve (rw_prims sample_reg_world) (rw_trusted sample_reg_world) (rw_E sample_reg_world) (rw_ord sample_reg_world) (0, sample_named)
      (CanonicalName ''a.alt'') = ((1, d), Inr sample_rec)" using res by (simp add: W sample_name)
  note takes = revoke_takes_down [OF q(1) a d n(1) W(5) n(2) site this, of None "\<lambda>_ xs. xs" "\<lambda>_. []" "\<lambda>_. []" "\<lambda>_. []" 0]
  have "[7] \<in> set (dir_blobs (sha256 (rw_prims sample_reg_world)) [(''a'', [7])])" by (simp add: W sample_blobs)
  with takes show ?thesis unfolding W by blast
qed

theorem registry_refinement_witness:
  "\<exists>reg' resp. registrar_serve sample_reg_world sample_registrar (sample_post ''/api/register'' sample_registration) = Some (reg', resp)
    \<and> reg_abs reg' ''a.alt'' = Some (Hex sample_root, ''me'')"
proof -
  obtain reg' resp where s: "registrar_serve sample_reg_world sample_registrar (sample_post ''/api/register'' sample_registration) = Some (reg', resp)"
    "rs_Code resp = 201" using sample_served by blast
  have "registry_fine (rg_registry sample_registrar)" by (simp add: sample_registrar_def registrar_New_def registry_fine_def)
  from registry_refinement [OF this s(1)] have "reg_abs reg' = registry_spec (reg_abs sample_registrar) (sample_post ''/api/register'' sample_registration) 201"
    using s(2) by simp
  moreover have "rq_Method (sample_post p j) = ''POST''" "rq_Path (sample_post p j) = p" "rq_Body (sample_post p j) = Marshal j" for p j
    by (simp_all add: sample_post_def)
  ultimately show ?thesis using s(1) by (simp add: registry_spec_def sample_decode sample_name)
qed

theorem null_registry_panics_witness:
  "\<exists>reg. NewWithDataDir (0, sample_site) toy_identity ''t'' ''d'' True (FileBytes (bytes_of_string ''null'')) = Some reg
    \<and> registrar_handleRegister sample_reg_world [] reg (sample_post [] sample_registration) = None"
proof -
  from null_registry_panics [of "''d''" "(0, sample_site)" toy_identity "''t''"] obtain reg where
    n: "NewWithDataDir (0, sample_site) toy_identity ''t'' ''d'' True (FileBytes (bytes_of_string ''null'')) = Some reg"
    and p: "\<And>W h r req rootKey node rec. rq_Method r = ''POST'' \<and> requireAuth h reg r = None
        \<and> Decode dec_RegisterRequest (string_of_bytes (rq_Body r)) zero_RegisterRequest = Some req
        \<and> ValidateDomain (rw_text W) (CanonicalName (rq_name req)) = None \<and> IDFromHex (rq_root req) = Inr rootKey
        \<and> reg_Publish W reg (CanonicalName (rq_name req)) rootKey (rw_now W) = (node, Inr rec) \<Longrightarrow> registrar_handleRegister W h reg r = None" by auto
  have g: "rg_token reg = ''t''" "rg_d reg = (0, sample_site)" "rg_id reg = toy_identity"
    using n by (auto simp: NewWithDataDir_def registrar_New_def registrar_load_def Let_def split: if_splits option.splits)
  then have a: "requireAuth [] reg (sample_post [] j) = None" for j by (simp add: sample_auth_token)
  have "sample_pe\<lparr>pe_h := (pe_h sample_pe)\<lparr>h_prims := file_prims\<rparr>\<rparr> = sample_pe" by (simp add: sample_pe_def file_henv_def)
  then have "reg_Publish sample_reg_world reg ''a.alt'' sample_root 1 = ((1, sample_named), Inr sample_rec)"
    using sample_published_name g by (simp add: reg_Publish_def dht_Publish_def sample_reg_world_def Publish_def)
  moreover have "rw_now sample_reg_world = 1" by (simp add: sample_reg_world_def)
  moreover have "rq_Method (sample_post [] j) = ''POST''" "rq_Body (sample_post [] j) = Marshal j" for j by (simp_all add: sample_post_def)
  ultimately have "registrar_handleRegister sample_reg_world [] reg (sample_post [] sample_registration) = None"
    using a sample_decode(1) by (intro p [where req = "\<lparr>rq_name = ''a.alt'', rq_root = Hex sample_root, rq_owner = ''me''\<rparr>"
        and rootKey = sample_root and node = "(1, sample_named)" and rec = sample_rec]) (simp add: sample_name sample_domain)
  with n show ?thesis by blast
qed

theorem unregister_still_served_witness:
  "gateway_handle sample_world 0 (sample_gateway\<lparr>g_d := rg_d (fst (the (handleUnregister sample_reg_world [] sample_registrar
      (sample_post [] (JObj [(''name'', JStr ''a.alt'')])))))\<rparr>) sample_request
    = gateway_handle sample_world 0 (sample_gateway\<lparr>g_d := rg_d sample_registrar\<rparr>) sample_request"
proof -
  obtain reg' resp where "handleUnregister sample_reg_world [] sample_registrar (sample_post [] (JObj [(''name'', JStr ''a.alt'')])) = Some (reg', resp)"
    using handleUnregister_change by blast
  with unregister_still_served [OF this, of sample_world 0 sample_gateway sample_request] show ?thesis by simp
qed

theorem other_spelling_uncounted_witness: "ss_Requests (stats_Get (stats_Record 1 stats_New ''A.alt'' ''1.2.3.4'' 10) ''a.alt'') = 0"
proof -
  have "CanonicalName ''A.alt'' = ''a.alt''" by code_simp
  with other_spelling_uncounted [of "''A.alt''" 1 stats_New "''1.2.3.4''" 10] show ?thesis by (simp add: stats_Get_def stats_New_def)
qed

end
