(* ===== verification/Altca.thy ===== *)
theory Altca
  imports Registrar Dns "HOL-Library.Countable"
begin

text \<open>
  \<^verbatim>\<open>apps/altca/altca.go\<close>: the certificate authority of the node, which signs a certificate for each \<^verbatim>\<open>.alt\<close>
  host the gateway is asked for over TLS. The library functions for ECDSA keys, X.509 certificates and
  PEM are the record \<open>x509_prims\<close>, with what their documentation promises in \<open>x509_ok\<close>; random numbers, the
  clock and the outcome of every write are arguments.
\<close>

section \<open>Definitions\<close>

datatype key_usage = KeyUsageCertSign | KeyUsageCRLSign | KeyUsageDigitalSignature | KeyUsageKeyEncipherment

datatype ext_key_usage = ExtKeyUsageServerAuth

text \<open>The fields of a certificate template that the code sets; \<open>MaxPathLen\<close> is \<open>None\<close> when it is unset.\<close>

datatype Template = Template
  (SerialNumber: int)
  (CommonName: string)
  (Organization: "string list")
  (DNSNames: "string list")
  (NotBefore: time)
  (NotAfter: time)
  (KeyUsage: "key_usage list")
  (ExtKeyUsage: "ext_key_usage list")
  (IsCA: bool)
  (MaxPathLen: "nat option")
  (PermittedDNSDomains: "string list")
  (PermittedDNSDomainsCritical: bool)

record Certificate =
  ct_Template :: Template
  ct_PublicKey :: bytes
  ct_Raw :: bytes

text \<open>
  \<open>x_Create rnd tpl parent parentKey pub key\<close> is \<^verbatim>\<open>x509.CreateCertificate\<close>, whose parent may be a template
  without a public key; \<open>x_Signed pub der\<close> holds when the signature of a certificate verifies under a key.
\<close>

record x509_prims =
  ec_Public :: "bytes \<Rightarrow> bytes"
  ec_Marshal :: "bytes \<Rightarrow> bytes option"
  ec_Parse :: "bytes \<Rightarrow> bytes option"
  x_Create :: "bytes \<Rightarrow> Template \<Rightarrow> Template \<Rightarrow> bytes option \<Rightarrow> bytes \<Rightarrow> bytes \<Rightarrow> bytes option"
  x_Parse :: "bytes \<Rightarrow> Certificate option"
  x_Signed :: "bytes \<Rightarrow> bytes \<Rightarrow> bool"
  pem_Encode :: "string \<Rightarrow> bytes \<Rightarrow> bytes"
  pem_Decode :: "bytes \<Rightarrow> (string \<times> bytes) option"

text \<open>A certificate holds times in whole seconds.\<close>

definition on_wire :: "Template \<Rightarrow> Template" where
  "on_wire t = Template (SerialNumber t) (CommonName t) (Organization t) (DNSNames t) (NotBefore t div Second * Second) (NotAfter t div Second * Second)
     (KeyUsage t) (ExtKeyUsage t) (IsCA t) (MaxPathLen t) (PermittedDNSDomains t) (PermittedDNSDomainsCritical t)"

definition template_ok :: "Template \<Rightarrow> bool" where
  "template_ok t \<longleftrightarrow> 0 < SerialNumber t \<and> list_all ascii (DNSNames t) \<and> 0 \<le> NotBefore t \<and> int64 (NotAfter t)"

definition x509_ok :: "x509_prims \<Rightarrow> bool" where
  "x509_ok P \<longleftrightarrow>
     (\<forall>k d. ec_Marshal P k = Some d \<longrightarrow> ec_Parse P d = Some k)
   \<and> (\<forall>ty bs. pem_Decode P (pem_Encode P ty bs) = Some (ty, bs))
   \<and> (\<forall>rnd t u pk pub k der. x_Create P rnd t u pk pub k = Some der \<longrightarrow>
        x_Parse P der = Some \<lparr>ct_Template = on_wire t, ct_PublicKey = pub, ct_Raw = der\<rparr> \<and> x_Signed P (ec_Public P k) der)
   \<and> (\<forall>rnd t u p pub k. p \<noteq> ec_Public P k \<longrightarrow> x_Create P rnd t u (Some p) pub k = None)
   \<and> (\<forall>rnd t u pub k. template_ok t \<longrightarrow> x_Create P rnd t u (Some (ec_Public P k)) pub k \<noteq> None)"

text \<open>The files of the authority.\<close>

definition caCertFile :: string where
  "caCertFile = ''altnet-ca.crt''"

definition caCertDERFile :: string where
  "caCertDERFile = ''altnet-ca.cer''"

definition caKeyFile :: string where
  "caKeyFile = ''altnet-ca.key''"

record ca_files =
  f_crt :: "bytes option"
  f_cer :: "bytes option"
  f_key :: "bytes option"

record tls_Certificate =
  tc_Certificate :: "bytes list"
  tc_PrivateKey :: bytes

record CA =
  ca_Cert :: Certificate
  ca_CertPEM :: bytes
  ca_Key :: bytes
  ca_dir :: string
  ca_cache :: "(string, tls_Certificate) fmap"

datatype ca_error =
    CaMkdir | CaKeygen | CaSerial | CaSign | CaReparse | CaMarshal | CaWrite
  | CaNoCertBlock | CaCertParse | CaNoKeyBlock | CaKeyParse
  | CaNotAlt | CaLeafKey | CaLeafSerial | CaLeafSign | CaNoSNI

text \<open>
  The outcome of a write: a failing one leaves the file as it was when it cannot be opened, or some
  beginning of the new content.
\<close>

datatype write_result = WriteOk | NotOpened | WrittenOnly nat

fun write_file :: "write_result \<Rightarrow> bytes \<Rightarrow> bytes option \<Rightarrow> bytes option \<times> bool" where
  "write_file WriteOk new old = (Some new, True)"
| "write_file NotOpened new old = (old, False)"
| "write_file (WrittenOnly n) new old = (Some (take n new), False)"

text \<open>
  What a call of the authority meets: whether the directory can be made, the two files read and
  the third one found, a fresh key and a fresh serial number if they can be had, the clock, randomness for
  the signature, and how the three writes end.
\<close>

record ca_env =
  ce_mkdir :: bool
  ce_crt_readable :: bool
  ce_key_readable :: bool
  ce_stat :: bool
  ce_key :: "bytes option"
  ce_serial :: "int option"
  ce_now :: time
  ce_rnd :: bytes
  ce_crt :: write_result
  ce_cer :: write_result
  ce_keyfile :: write_result

definition Hour :: int where
  "Hour = 3600 * Second"

definition ca_template :: "int \<Rightarrow> time \<Rightarrow> Template" where
  "ca_template serial now =
     Template serial ''AltNet Local CA'' [''AltNet''] [] now (now + 10 * 365 * 24 * Hour) [KeyUsageCertSign, KeyUsageCRLSign] []
       True (Some 0) [''.alt''] True"

definition generate :: "x509_prims \<Rightarrow> ca_env \<Rightarrow> string \<Rightarrow> ca_files \<Rightarrow> ca_files \<times> (ca_error + CA)" where
  "generate P e dir0 fs =
     (case ce_key e of
        None \<Rightarrow> (fs, Inl CaKeygen)
      | Some key \<Rightarrow>
          (case ce_serial e of
             None \<Rightarrow> (fs, Inl CaSerial)
           | Some serial \<Rightarrow>
               let tpl = ca_template serial (ce_now e - Hour)
               in case x_Create P (ce_rnd e) tpl tpl None (ec_Public P key) key of
                    None \<Rightarrow> (fs, Inl CaSign)
                  | Some der \<Rightarrow>
                      (case x_Parse P der of
                         None \<Rightarrow> (fs, Inl CaReparse)
                       | Some parsed \<Rightarrow>
                           let certPEM = pem_Encode P ''CERTIFICATE'' der
                           in case ec_Marshal P key of
                                None \<Rightarrow> (fs, Inl CaMarshal)
                              | Some keyDER \<Rightarrow>
                                  let keyPEM = pem_Encode P ''EC PRIVATE KEY'' keyDER;
                                      (crt, ok1) = write_file (ce_crt e) certPEM (f_crt fs);
                                      fs1 = fs\<lparr>f_crt := crt\<rparr>
                                  in if \<not> ok1 then (fs1, Inl CaWrite)
                                     else
                                       let (cer, ok2) = write_file (ce_cer e) der (f_cer fs1);
                                           fs2 = fs1\<lparr>f_cer := cer\<rparr>
                                       in if \<not> ok2 then (fs2, Inl CaWrite)
                                          else
                                            let (kf, ok3) = write_file (ce_keyfile e) keyPEM (f_key fs2);
                                                fs3 = fs2\<lparr>f_key := kf\<rparr>
                                            in if \<not> ok3 then (fs3, Inl CaWrite)
                                               else (fs3, Inr \<lparr>ca_Cert = parsed, ca_CertPEM = certPEM, ca_Key = key, ca_dir = dir0, ca_cache = fmempty\<rparr>))))"

definition parseCA :: "x509_prims \<Rightarrow> bytes \<Rightarrow> bytes \<Rightarrow> ca_error + CA" where
  "parseCA P certPEM keyPEM =
     (case pem_Decode P certPEM of
        None \<Rightarrow> Inl CaNoCertBlock
      | Some (ty, cb) \<Rightarrow>
          if ty \<noteq> ''CERTIFICATE'' then Inl CaNoCertBlock
          else case x_Parse P cb of
                 None \<Rightarrow> Inl CaCertParse
               | Some cert \<Rightarrow>
                   (case pem_Decode P keyPEM of
                      None \<Rightarrow> Inl CaNoKeyBlock
                    | Some (_, kb) \<Rightarrow>
                        (case ec_Parse P kb of
                           None \<Rightarrow> Inl CaKeyParse
                         | Some key \<Rightarrow> Inr \<lparr>ca_Cert = cert, ca_CertPEM = certPEM, ca_Key = key, ca_dir = [], ca_cache = fmempty\<rparr>)))"

definition ca_LoadOrCreate :: "x509_prims \<Rightarrow> ca_env \<Rightarrow> string \<Rightarrow> ca_files \<Rightarrow> ca_files \<times> (ca_error + CA)" where
  "ca_LoadOrCreate P e dir0 fs =
     (if \<not> ce_mkdir e then (fs, Inl CaMkdir)
      else
        case (if ce_crt_readable e then f_crt fs else None, if ce_key_readable e then f_key fs else None) of
          (Some certPEM, Some keyPEM) \<Rightarrow>
            (case parseCA P certPEM keyPEM of
               Inr ca \<Rightarrow>
                 (if \<not> ce_stat e \<or> f_cer fs = None then fs\<lparr>f_cer := fst (write_file (ce_cer e) (ct_Raw (ca_Cert ca)) (f_cer fs))\<rparr> else fs,
                  Inr (ca\<lparr>ca_dir := dir0\<rparr>))
             | Inl _ \<Rightarrow> generate P e dir0 fs)
        | _ \<Rightarrow> generate P e dir0 fs)"

definition host_char :: "char \<Rightarrow> bool" where
  "host_char c \<longleftrightarrow>
     of_char CHR ''a'' \<le> (of_char c :: nat) \<and> (of_char c :: nat) \<le> of_char CHR ''z''
   \<or> of_char CHR ''0'' \<le> (of_char c :: nat) \<and> (of_char c :: nat) \<le> of_char CHR ''9''
   \<or> c = CHR ''-'' \<or> c = CHR ''.''"

text \<open>
  The loop ranges over code points. Only those below 128 pass, and a byte from 128 up belongs to a code
  point that does not, so ranging over the bytes decides the same.
\<close>

definition validAltHostname :: "string \<Rightarrow> bool" where
  "validAltHostname s =
     (if s = [] \<or> s \<noteq> TrimSpace s then False
      else if \<not> HasSuffix s ''.alt'' then False
      else if TrimSuffix s ''.alt'' = [] then False
      else list_all host_char s)"

definition leaf_template :: "int \<Rightarrow> time \<Rightarrow> string \<Rightarrow> Template" where
  "leaf_template serial now hostname =
     Template serial hostname [] [hostname] now (now + 395 * 24 * Hour) [KeyUsageDigitalSignature, KeyUsageKeyEncipherment] [ExtKeyUsageServerAuth]
       False None [] False"

definition Issue :: "x509_prims \<Rightarrow> ca_env \<Rightarrow> CA \<Rightarrow> string \<Rightarrow> CA \<times> (ca_error + tls_Certificate)" where
  "Issue P e c hostname =
     (if \<not> validAltHostname hostname then (c, Inl CaNotAlt)
      else case fmlookup (ca_cache c) hostname of
        Some cert \<Rightarrow> (c, Inr cert)
      | None \<Rightarrow>
          (case ce_key e of
             None \<Rightarrow> (c, Inl CaLeafKey)
           | Some leafKey \<Rightarrow>
               (case ce_serial e of
                  None \<Rightarrow> (c, Inl CaLeafSerial)
                | Some serial \<Rightarrow>
                    (case x_Create P (ce_rnd e) (leaf_template serial (ce_now e - Hour) hostname) (ct_Template (ca_Cert c))
                            (Some (ct_PublicKey (ca_Cert c))) (ec_Public P leafKey) (ca_Key c) of
                       None \<Rightarrow> (c, Inl CaLeafSign)
                     | Some leafDER \<Rightarrow>
                         let tlsCert = \<lparr>tc_Certificate = [leafDER, ct_Raw (ca_Cert c)], tc_PrivateKey = leafKey\<rparr>
                         in (c\<lparr>ca_cache := fmupd hostname tlsCert (ca_cache c)\<rparr>, Inr tlsCert)))))"

definition CertPath :: "CA \<Rightarrow> string" where
  "CertPath c = path_Join (ca_dir c) caCertFile"

definition CertDERPath :: "CA \<Rightarrow> string" where
  "CertDERPath c = path_Join (ca_dir c) caCertDERFile"

text \<open>The certificate the gateway presents to a client, from the server name of its hello.\<close>

definition GetCertificate :: "x509_prims \<Rightarrow> ca_env \<Rightarrow> CA \<Rightarrow> string \<Rightarrow> CA \<times> (ca_error + tls_Certificate)" where
  "GetCertificate P e c serverName = (case sni_host serverName of None \<Rightarrow> (c, Inl CaNoSNI) | Some host \<Rightarrow> Issue P e c host)"

text \<open>A sequence of client hellos, and what they got.\<close>

fun tls_hellos :: "x509_prims \<Rightarrow> CA \<Rightarrow> (ca_env \<times> string) list \<Rightarrow> CA \<times> (string \<times> (ca_error + tls_Certificate)) list" where
  "tls_hellos P c [] = (c, [])"
| "tls_hellos P c ((e, serverName) # hs) =
     (case GetCertificate P e c serverName of
        (c1, r) \<Rightarrow> (case tls_hellos P c1 hs of (c2, rs) \<Rightarrow> (c2, (serverName, r) # rs)))"

section \<open>Certificates\<close>

lemma x509_okD:
  assumes "x509_ok P"
  shows "ec_Marshal P k = Some d \<Longrightarrow> ec_Parse P d = Some k"
    and "pem_Decode P (pem_Encode P ty bs) = Some (ty, bs)"
    and "x_Create P rnd t u pk pub k = Some der \<Longrightarrow> x_Parse P der = Some \<lparr>ct_Template = on_wire t, ct_PublicKey = pub, ct_Raw = der\<rparr>"
    and "x_Create P rnd t u pk pub k = Some der \<Longrightarrow> x_Signed P (ec_Public P k) der"
    and "x_Create P rnd t u (Some p) pub k = Some der \<Longrightarrow> p = ec_Public P k"
    and "template_ok t \<Longrightarrow> \<exists>der. x_Create P rnd t u (Some (ec_Public P k)) pub k = Some der"
proof -
  note P = assms [unfolded x509_ok_def]
  from P show "ec_Marshal P k = Some d \<Longrightarrow> ec_Parse P d = Some k" by simp
  from P show "pem_Decode P (pem_Encode P ty bs) = Some (ty, bs)" by simp
  from P have c: "\<forall>rnd t u pk pub k der. x_Create P rnd t u pk pub k = Some der \<longrightarrow>
      x_Parse P der = Some \<lparr>ct_Template = on_wire t, ct_PublicKey = pub, ct_Raw = der\<rparr> \<and> x_Signed P (ec_Public P k) der" by (elim conjE)
  then show "x_Create P rnd t u pk pub k = Some der \<Longrightarrow> x_Parse P der = Some \<lparr>ct_Template = on_wire t, ct_PublicKey = pub, ct_Raw = der\<rparr>"
    "x_Create P rnd t u pk pub k = Some der \<Longrightarrow> x_Signed P (ec_Public P k) der" by blast+
  from P have n: "\<forall>rnd t u p pub k. p \<noteq> ec_Public P k \<longrightarrow> x_Create P rnd t u (Some p) pub k = None" by (elim conjE)
  show "x_Create P rnd t u (Some p) pub k = Some der \<Longrightarrow> p = ec_Public P k"
    using n [rule_format, of p k rnd t u pub] by (cases "p = ec_Public P k") simp_all
  from P have "\<forall>rnd t u pub k. template_ok t \<longrightarrow> x_Create P rnd t u (Some (ec_Public P k)) pub k \<noteq> None" by (elim conjE)
  then show "template_ok t \<Longrightarrow> \<exists>der. x_Create P rnd t u (Some (ec_Public P k)) pub k = Some der" by blast
qed

text \<open>A certificate for a host that a client can verify with the certificate of the authority.\<close>

definition leaf_ok :: "x509_prims \<Rightarrow> Certificate \<Rightarrow> string \<Rightarrow> tls_Certificate \<Rightarrow> Certificate \<Rightarrow> bool" where
  "leaf_ok P issuer host cert leaf \<longleftrightarrow> tc_Certificate cert = [ct_Raw leaf, ct_Raw issuer] \<and> x_Parse P (ct_Raw leaf) = Some leaf
     \<and> DNSNames (ct_Template leaf) = [host] \<and> \<not> IsCA (ct_Template leaf) \<and> ExtKeyUsage (ct_Template leaf) = [ExtKeyUsageServerAuth]
     \<and> ct_PublicKey leaf = ec_Public P (tc_PrivateKey cert) \<and> x_Signed P (ct_PublicKey issuer) (ct_Raw leaf)"

definition cache_inv :: "x509_prims \<Rightarrow> Certificate \<Rightarrow> CA \<Rightarrow> bool" where
  "cache_inv P issuer c \<longleftrightarrow> ca_Cert c = issuer
     \<and> (\<forall>host cert. fmlookup (ca_cache c) host = Some cert \<longrightarrow> validAltHostname host \<and> (\<exists>leaf. leaf_ok P issuer host cert leaf))"

lemma Issue_keeps:
  assumes "Issue P e c host = (c', r)"
  shows "ca_Cert c' = ca_Cert c \<and> ca_Key c' = ca_Key c" "fmlookup (ca_cache c) h = Some x \<Longrightarrow> fmlookup (ca_cache c') h = Some x"
    "r = Inr cert \<Longrightarrow> fmlookup (ca_cache c') host = Some cert"
  using assms by (auto simp: Issue_def Let_def split: if_splits option.splits)

lemma Issue_inv:
  assumes P: "x509_ok P" and f: "Issue P e c host = (c', r)" and c: "cache_inv P issuer c"
  shows "cache_inv P issuer c'"
proof (cases "c' = c")
  case False
  with f obtain leafKey serial der where v: "validAltHostname host"
    and x: "x_Create P (ce_rnd e) (leaf_template serial (ce_now e - Hour) host) (ct_Template (ca_Cert c))
              (Some (ct_PublicKey (ca_Cert c))) (ec_Public P leafKey) (ca_Key c) = Some der"
    and c': "c' = c\<lparr>ca_cache := fmupd host \<lparr>tc_Certificate = [der, ct_Raw (ca_Cert c)], tc_PrivateKey = leafKey\<rparr> (ca_cache c)\<rparr>"
    by (auto simp: Issue_def Let_def split: if_splits option.splits)
  have "x_Signed P (ct_PublicKey (ca_Cert c)) der" using x509_okD(4) [OF P x] x509_okD(5) [OF P x] by simp
  with x509_okD(3) [OF P x] c have "\<exists>leaf. leaf_ok P issuer host \<lparr>tc_Certificate = [der, ct_Raw (ca_Cert c)], tc_PrivateKey = leafKey\<rparr> leaf"
    by (intro exI [of _ "\<lparr>ct_Template = on_wire (leaf_template serial (ce_now e - Hour) host), ct_PublicKey = ec_Public P leafKey, ct_Raw = der\<rparr>"])
       (simp add: leaf_ok_def leaf_template_def on_wire_def cache_inv_def)
  with c v show ?thesis by (auto simp: c' cache_inv_def)
qed (use c in simp)

lemma tls_hellos_inv:
  assumes "x509_ok P"
  shows "cache_inv P issuer c \<Longrightarrow> tls_hellos P c hs = (c', rs) \<Longrightarrow> cache_inv P issuer c' \<and> ca_Key c' = ca_Key c
    \<and> (\<forall>host cert. fmlookup (ca_cache c) host = Some cert \<longrightarrow> fmlookup (ca_cache c') host = Some cert)
    \<and> (\<forall>n cert. (n, Inr cert) \<in> set rs \<longrightarrow> (\<exists>host. sni_host n = Some host \<and> fmlookup (ca_cache c') host = Some cert))"
proof (induction hs arbitrary: c rs)
  case (Cons h hs)
  obtain e n where h: "h = (e, n)" by fastforce
  obtain c1 r where g: "GetCertificate P e c n = (c1, r)" by fastforce
  obtain c2 rs2 where t: "tls_hellos P c1 hs = (c2, rs2)" by fastforce
  from Cons.prems(2) h g t have eq: "c' = c2" "rs = (n, r) # rs2" by simp_all
  have one: "cache_inv P issuer c1 \<and> ca_Key c1 = ca_Key c \<and> (\<forall>host cert. fmlookup (ca_cache c) host = Some cert \<longrightarrow> fmlookup (ca_cache c1) host = Some cert)
      \<and> (\<forall>cert. r = Inr cert \<longrightarrow> (\<exists>host. sni_host n = Some host \<and> fmlookup (ca_cache c1) host = Some cert))"
  proof (cases "sni_host n")
    case (Some host)
    with g have i: "Issue P e c host = (c1, r)" by (simp add: GetCertificate_def)
    from Issue_inv [OF assms i Cons.prems(1)] Issue_keeps [OF i] Some show ?thesis by simp
  qed (use g Cons.prems(1) in \<open>auto simp: GetCertificate_def\<close>)
  with Cons.IH [of c1 rs2] t eq(1) have "cache_inv P issuer c2 \<and> ca_Key c2 = ca_Key c1
      \<and> (\<forall>host cert. fmlookup (ca_cache c1) host = Some cert \<longrightarrow> fmlookup (ca_cache c2) host = Some cert)
      \<and> (\<forall>n cert. (n, Inr cert) \<in> set rs2 \<longrightarrow> (\<exists>host. sni_host n = Some host \<and> fmlookup (ca_cache c2) host = Some cert))" by simp
  with one show ?case unfolding eq by (simp, blast)
qed simp

section \<open>Starting\<close>

lemma generate_Inr:
  assumes "x509_ok P" and "generate P e dir0 fs = (fs', Inr ca)"
  shows "\<exists>der key. x_Parse P der = Some (ca_Cert ca) \<and> f_crt fs' = Some (pem_Encode P ''CERTIFICATE'' der)
    \<and> ec_Marshal P (ca_Key ca) = Some key \<and> f_key fs' = Some (pem_Encode P ''EC PRIVATE KEY'' key)
    \<and> ca_CertPEM ca = pem_Encode P ''CERTIFICATE'' der \<and> ca_dir ca = dir0 \<and> ca_cache ca = fmempty
    \<and> ct_PublicKey (ca_Cert ca) = ec_Public P (ca_Key ca) \<and> PermittedDNSDomains (ct_Template (ca_Cert ca)) = [''.alt'']"
proof -
  have w: "write_file o1 new old = (x, True) \<Longrightarrow> x = Some new" for o1 new old x by (cases o1) auto
  from assms(2) obtain der key keyDER serial where g: "x_Create P (ce_rnd e) (ca_template serial (ce_now e - Hour)) (ca_template serial (ce_now e - Hour)) None
      (ec_Public P key) key = Some der" "x_Parse P der = Some (ca_Cert ca)" "ec_Marshal P key = Some keyDER"
    "fs' = fs\<lparr>f_crt := Some (pem_Encode P ''CERTIFICATE'' der), f_cer := Some der, f_key := Some (pem_Encode P ''EC PRIVATE KEY'' keyDER)\<rparr>"
    "ca = \<lparr>ca_Cert = ca_Cert ca, ca_CertPEM = pem_Encode P ''CERTIFICATE'' der, ca_Key = key, ca_dir = dir0, ca_cache = fmempty\<rparr>"
    by (auto simp: generate_def Let_def split: option.splits prod.splits if_splits dest!: w)
  then have "ca_Cert ca = \<lparr>ct_Template = on_wire (ca_template serial (ce_now e - Hour)), ct_PublicKey = ec_Public P key, ct_Raw = der\<rparr>"
    using x509_okD(3) [OF assms(1) g(1)] by simp
  moreover have "ca_Key ca = key" "ca_CertPEM ca = pem_Encode P ''CERTIFICATE'' der" "ca_dir ca = dir0" "ca_cache ca = fmempty"
    by (subst g(5), simp)+
  ultimately show ?thesis using g(2-4) by (intro exI [of _ der] exI [of _ keyDER]) (simp add: on_wire_def ca_template_def)
qed

lemma parseCA_fields:
  assumes "parseCA P certPEM keyPEM = Inr ca"
  shows "ca_CertPEM ca = certPEM \<and> ca_dir ca = [] \<and> ca_cache ca = fmempty"
  using assms by (auto simp: parseCA_def split: option.splits prod.splits if_splits)

text \<open>Either way the files hold what the authority is made of, and nothing has been issued yet.\<close>

lemma ca_LoadOrCreate_Inr:
  assumes "x509_ok P" and "ca_LoadOrCreate P e dir0 fs = (fs', Inr ca)"
  shows "(\<exists>crt key. f_crt fs' = Some crt \<and> f_key fs' = Some key \<and> parseCA P crt key = Inr (ca\<lparr>ca_dir := []\<rparr>))
    \<and> ca_cache ca = fmempty \<and> (f_crt fs = None \<longrightarrow> ct_PublicKey (ca_Cert ca) = ec_Public P (ca_Key ca))"
proof (cases "generate P e dir0 fs = (fs', Inr ca)")
  case True
  from generate_Inr [OF assms(1) True] show ?thesis
    by (auto simp: parseCA_def x509_okD(1,2) [OF assms(1)])
next
  case False
  with assms(2) obtain crt key c where l: "f_crt fs = Some crt" "f_key fs = Some key" "parseCA P crt key = Inr c" "ca = c\<lparr>ca_dir := dir0\<rparr>"
    "f_crt fs' = f_crt fs" "f_key fs' = f_key fs"
    by (auto simp: ca_LoadOrCreate_def split: if_splits option.splits sum.splits)
  with parseCA_fields [OF l(3)] have "c\<lparr>ca_dir := []\<rparr> = c" by simp
  with l parseCA_fields [OF l(3)] show ?thesis by auto
qed

lemma ca_LoadOrCreate_loads:
  assumes "f_crt fs = Some crt" and "f_key fs = Some key" and "parseCA P crt key = Inr c"
    and "ce_mkdir e" and "ce_crt_readable e" and "ce_key_readable e"
  shows "\<exists>cer. ca_LoadOrCreate P e dir0 fs = (fs\<lparr>f_cer := cer\<rparr>, Inr (c\<lparr>ca_dir := dir0\<rparr>))"
  using assms by (auto simp: ca_LoadOrCreate_def intro: exI [of _ "f_cer fs"])

section \<open>Names\<close>

lemma validAltHostname_suffix: "validAltHostname host \<Longrightarrow> \<exists>pre. pre \<noteq> [] \<and> host = pre @ ''.alt''"
  by (auto simp: validAltHostname_def HasSuffix_iff TrimSuffix_def split: if_splits)

lemma registered_host:
  assumes "record_fine k rec"
  shows "sni_host k = Some k" and "validAltHostname k" and "ascii k"
proof -
  from assms have k: "validName k = None" "CanonicalName k = k" "HasSuffix k ''.alt''" by (simp_all add: record_fine_def)
  from k(2) have ch: "x = CHR ''.'' \<or> label_char x" if "x \<in> set k" for x using validName_chars [OF k(1)] that by simp
  have ne: "k \<noteq> []" using HasSuffix_last [OF k(3)] by simp
  have t: "TrimSpace k = k" using ne label_char_plain [OF ch] by (intro TrimSpace_id) (simp add: last_in_set hd_in_set)
  have "ToLower k = k" unfolding ToLower_def by (rule map_idI) (use label_char_plain [OF ch] in blast)
  with t ne show "sni_host k = Some k" by (simp add: sni_host_def Let_def)
  have "TrimSuffix k ''.alt'' \<noteq> []"
  proof
    assume "TrimSuffix k ''.alt'' = []"
    with k(3) have "k = ''.alt''" by (auto simp: TrimSuffix_def HasSuffix_iff)
    with k(1,2) show False by (simp add: validName_def Let_def split: if_splits)
  qed
  moreover have "list_all host_char k" using ch by (auto simp: list_all_iff host_char_def label_char_def)
  ultimately show "validAltHostname k" using k(3) t ne by (simp add: validAltHostname_def)
  show "ascii k" using ascii_CanonicalName [OF k(1)] k(2) by simp
qed

section \<open>Properties\<close>

text \<open>
  C39: what the authority signs. However it was started and whatever server names clients send, every
  certificate that the gateway presents is for the one host that was asked for, which lies under .alt,
  is no authority itself, verifies under the certificate of the authority, which is sent along with it,
  and has the public key of the private key it is used with. Equal hosts get equal certificates.
\<close>

theorem altca_certificates:
  assumes "x509_ok P" and "ca_LoadOrCreate P e dir0 fs = (fs', Inr ca)" and "tls_hellos P ca hs = (ca', rs)" and "(n, Inr cert) \<in> set rs"
  shows "\<exists>pre leaf. pre \<noteq> [] \<and> sni_host n = Some (pre @ ''.alt'') \<and> tc_Certificate cert = [ct_Raw leaf, ct_Raw (ca_Cert ca)]
    \<and> x_Parse P (ct_Raw leaf) = Some leaf \<and> DNSNames (ct_Template leaf) = [pre @ ''.alt''] \<and> \<not> IsCA (ct_Template leaf)
    \<and> ct_PublicKey leaf = ec_Public P (tc_PrivateKey cert) \<and> x_Signed P (ct_PublicKey (ca_Cert ca)) (ct_Raw leaf)
    \<and> (\<forall>n' cert'. (n', Inr cert') \<in> set rs \<and> sni_host n' = sni_host n \<longrightarrow> cert' = cert)"
proof -
  have "cache_inv P (ca_Cert ca) ca" using ca_LoadOrCreate_Inr [OF assms(1,2)] by (simp add: cache_inv_def)
  from tls_hellos_inv [OF assms(1) this assms(3)] have inv: "cache_inv P (ca_Cert ca) ca'"
    and got: "\<And>n cert. (n, Inr cert) \<in> set rs \<Longrightarrow> \<exists>host. sni_host n = Some host \<and> fmlookup (ca_cache ca') host = Some cert" by blast+
  from got [OF assms(4)] obtain host where h: "sni_host n = Some host" "fmlookup (ca_cache ca') host = Some cert" by blast
  from inv h(2) obtain leaf where l: "validAltHostname host" "leaf_ok P (ca_Cert ca) host cert leaf" unfolding cache_inv_def by blast
  have "cert' = cert" if "(n', Inr cert') \<in> set rs" "sni_host n' = sni_host n" for n' cert' using got [OF that(1)] that(2) h by auto
  with h l validAltHostname_suffix [OF l(1)] show ?thesis unfolding leaf_ok_def by blast
qed

text \<open>
  The authority survives a restart. Once it has been loaded or created, every later start that
  can read the files has the same certificate and the same key, whatever has been issued in between,
  and leaves both files as they are.
\<close>

theorem altca_restart:
  assumes "x509_ok P" and "ca_LoadOrCreate P e dir0 fs = (fs', Inr ca)" and "ce_mkdir e'" and "ce_crt_readable e'" and "ce_key_readable e'"
  shows "\<exists>fs'' ca2. ca_LoadOrCreate P e' dir1 fs' = (fs'', Inr ca2) \<and> ca_Cert ca2 = ca_Cert ca \<and> ca_Key ca2 = ca_Key ca
    \<and> f_crt fs'' = f_crt fs' \<and> f_key fs'' = f_key fs'"
proof -
  obtain crt key where f: "f_crt fs' = Some crt" "f_key fs' = Some key" "parseCA P crt key = Inr (ca\<lparr>ca_dir := []\<rparr>)"
    using ca_LoadOrCreate_Inr [OF assms(1,2)] by blast
  from ca_LoadOrCreate_loads [OF f assms(3-5), of dir1] show ?thesis by auto
qed

text \<open>
  C40: every registered name can be opened over TLS. On a node whose authority was created by a first
  start and loaded by a later one, whatever certificates have been asked for, a client that asks for a
  name of the registry is given a certificate, as long as keys and serial numbers can be had and the
  clock is in the range of certificates.
\<close>

theorem registered_https:
  assumes "x509_ok P" and "ca_LoadOrCreate P e0 dir0 fs = (fs0, Inr ca0)" and "f_crt fs = None"
    and "ca_LoadOrCreate P e1 dir1 fs0 = (fs1, Inr ca1)" and "ce_crt_readable e1" and "ce_key_readable e1" and "tls_hellos P ca1 hs = (ca, rs)"
    and "registry_fine (rg_registry reg)" and "reg_lookup reg k = Some (Some rec)"
    and "ce_key e = Some leafKey" and "ce_serial e = Some serial" and "0 < serial" and "Hour \<le> ce_now e" and "int64 (ce_now e + 394 * 24 * Hour + 23 * Hour)"
  shows "\<exists>ca' cert. GetCertificate P e ca k = (ca', Inr cert)"
proof -
  note start = ca_LoadOrCreate_Inr [OF assms(1,2)]
  obtain crt key where f: "f_crt fs0 = Some crt" "f_key fs0 = Some key" "parseCA P crt key = Inr (ca0\<lparr>ca_dir := []\<rparr>)" using start by blast
  have "ce_mkdir e1" using assms(4) by (simp add: ca_LoadOrCreate_def split: if_splits)
  from ca_LoadOrCreate_loads [OF f this assms(5,6), of dir1] assms(4) have c1: "ca_Cert ca1 = ca_Cert ca0" "ca_Key ca1 = ca_Key ca0" by auto
  have "cache_inv P (ca_Cert ca1) ca1" using ca_LoadOrCreate_Inr [OF assms(1,4)] by (simp add: cache_inv_def)
  from tls_hellos_inv [OF assms(1) this assms(7)] c1 have c: "ca_Cert ca = ca_Cert ca0" "ca_Key ca = ca_Key ca0" by (auto simp: cache_inv_def)
  have pub: "ct_PublicKey (ca_Cert ca) = ec_Public P (ca_Key ca)" using start assms(3) c by simp
  obtain rec' where "record_fine k rec'" using lookup_fine [OF assms(8,9)] by blast
  note host = registered_host [OF this]
  have "template_ok (leaf_template serial (ce_now e - Hour) k)"
    using host(3) assms(12-14) by (simp add: template_ok_def leaf_template_def int64_def Hour_def Second_def)
  from x509_okD(6) [OF assms(1) this] obtain der where "x_Create P (ce_rnd e) (leaf_template serial (ce_now e - Hour) k) (ct_Template (ca_Cert ca))
      (Some (ct_PublicKey (ca_Cert ca))) (ec_Public P leafKey) (ca_Key ca) = Some der" unfolding pub by blast
  then show ?thesis using host(1,2) assms(10,11)
    by (cases "fmlookup (ca_cache ca) k") (simp_all add: GetCertificate_def Issue_def Let_def)
qed

text \<open>
  A half-written pair locks the authority. When the certificate on disk is missing but
  the key is not, and the new key cannot be written, the new certificate is left with the old key.
  Every later start takes the pair, which parses, and no certificate can be issued ever again.
\<close>

theorem altca_half_written:
  assumes "x509_ok P" and "f_key fs = Some keyPEM" and "pem_Decode P keyPEM = Some (ty, kb)" and "ec_Parse P kb = Some oldKey"
    and "f_crt fs = None" and "ce_mkdir e" and "ce_key e = Some newKey" and "ce_serial e = Some serial"
    and "x_Create P (ce_rnd e) (ca_template serial (ce_now e - Hour)) (ca_template serial (ce_now e - Hour)) None (ec_Public P newKey) newKey = Some der"
    and "ec_Marshal P newKey = Some keyDER" and "ce_crt e = WriteOk" and "ce_keyfile e = NotOpened" and "ec_Public P oldKey \<noteq> ec_Public P newKey"
    and "ce_mkdir e'" and "ce_crt_readable e'" and "ce_key_readable e'"
  shows "\<exists>fs1. ca_LoadOrCreate P e dir0 fs = (fs1, Inl CaWrite)
    \<and> (\<exists>fs2 ca. ca_LoadOrCreate P e' dir0 fs1 = (fs2, Inr ca) \<and> (\<forall>e'' n cert. snd (GetCertificate P e'' ca n) \<noteq> Inr cert))"
proof -
  note P = x509_okD [OF assms(1)]
  let ?t = "ca_template serial (ce_now e - Hour)"
  let ?cert = "\<lparr>ct_Template = on_wire ?t, ct_PublicKey = ec_Public P newKey, ct_Raw = der\<rparr>"
  obtain fs1 where fs1: "ca_LoadOrCreate P e dir0 fs = (fs1, Inl CaWrite)" "f_crt fs1 = Some (pem_Encode P ''CERTIFICATE'' der)" "f_key fs1 = Some keyPEM"
    using assms P(3) [OF assms(9)] by (cases "ce_cer e") (auto simp: ca_LoadOrCreate_def generate_def Let_def)
  obtain ca where ca: "parseCA P (pem_Encode P ''CERTIFICATE'' der) keyPEM = Inr ca" "ca_Cert ca = ?cert" "ca_Key ca = oldKey" "ca_cache ca = fmempty"
    using assms(3,4) P(2) P(3) [OF assms(9)] by (auto simp: parseCA_def)
  obtain fs2 where fs2: "ca_LoadOrCreate P e' dir0 fs1 = (fs2, Inr (ca\<lparr>ca_dir := dir0\<rparr>))"
    using ca_LoadOrCreate_loads [OF fs1(2,3) ca(1) assms(14-16), of dir0] by blast
  have none: "x_Create P rnd t u (Some (ec_Public P newKey)) pub oldKey = None" for rnd t u pub
    using P(5) [of rnd t u "ec_Public P newKey" pub oldKey] assms(13) by (cases "x_Create P rnd t u (Some (ec_Public P newKey)) pub oldKey") auto
  have "snd (GetCertificate P e'' (ca\<lparr>ca_dir := dir0\<rparr>) n) \<noteq> Inr cert" for e'' n cert
    by (auto simp: GetCertificate_def Issue_def ca none split: option.splits)
  with fs1(1) fs2 show ?thesis by blast
qed

text \<open>
  Expired certificates are handed out. A certificate is kept for as long as the process runs; after
  395 days the node still presents it.
\<close>

theorem altca_expired:
  assumes "x509_ok P" and "fmlookup (ca_cache c) host = None" and "Issue P e c host = (c1, Inr cert)" and "ce_now e + 395 * 24 * Hour \<le> ce_now e'"
  shows "Issue P e' c1 host = (c1, Inr cert)
    \<and> (\<exists>leaf. hd (tc_Certificate cert) = ct_Raw leaf \<and> x_Parse P (ct_Raw leaf) = Some leaf \<and> NotAfter (ct_Template leaf) < ce_now e')"
proof -
  from assms(2,3) obtain leafKey serial der where v: "validAltHostname host"
    and x: "x_Create P (ce_rnd e) (leaf_template serial (ce_now e - Hour) host) (ct_Template (ca_Cert c))
              (Some (ct_PublicKey (ca_Cert c))) (ec_Public P leafKey) (ca_Key c) = Some der" "hd (tc_Certificate cert) = der"
    by (auto simp: Issue_def Let_def split: if_splits option.splits)
  have "(a :: int) div Second * Second \<le> a" for a by (simp add: Second_def)
  from this [of "ce_now e - Hour + 395 * 24 * Hour"] assms(4) have "NotAfter (on_wire (leaf_template serial (ce_now e - Hour) host)) < ce_now e'"
    by (simp add: on_wire_def leaf_template_def Hour_def Second_def)
  moreover have "Issue P e' c1 host = (c1, Inr cert)" using Issue_keeps(3) [OF assms(3) refl] v by (simp add: Issue_def)
  ultimately show ?thesis using x509_okD(3) [OF assms(1) x(1)] x(2)
    by (intro conjI exI [of _ "\<lparr>ct_Template = on_wire (leaf_template serial (ce_now e - Hour) host), ct_PublicKey = ec_Public P leafKey, ct_Raw = der\<rparr>"]) simp_all
qed

section \<open>An authority\<close>

instance key_usage :: countable
  by countable_datatype

instance ext_key_usage :: countable
  by countable_datatype

instance Template :: countable
  by countable_datatype

definition toy_x509 :: x509_prims where
  "toy_x509 = \<lparr>ec_Public = (\<lambda>k. k), ec_Marshal = Some, ec_Parse = Some,
     x_Create = (\<lambda>rnd t u p pub k. if p = None \<or> p = Some k then Some (replicate (to_nat (on_wire t, pub, k)) 0) else None),
     x_Parse = (\<lambda>der. case from_nat (length der) of (t, pub, k :: bytes) \<Rightarrow> Some \<lparr>ct_Template = t, ct_PublicKey = pub, ct_Raw = der\<rparr>),
     x_Signed = (\<lambda>p der. case from_nat (length der) of (t :: Template, pub :: bytes, k) \<Rightarrow> k = p),
     pem_Encode = (\<lambda>ty bs. replicate (to_nat (ty, bs)) 0),
     pem_Decode = (\<lambda>bs. Some (from_nat (length bs)))\<rparr>"

lemma toy_x509_ok: "x509_ok toy_x509"
  by (auto simp: x509_ok_def toy_x509_def split: if_splits)

definition sample_ca_env :: ca_env where
  "sample_ca_env = \<lparr>ce_mkdir = True, ce_crt_readable = True, ce_key_readable = True, ce_stat = True, ce_key = Some [1], ce_serial = Some 1,
     ce_now = Hour, ce_rnd = [], ce_crt = WriteOk, ce_cer = WriteOk, ce_keyfile = WriteOk\<rparr>"

definition no_files :: ca_files where
  "no_files = \<lparr>f_crt = None, f_cer = None, f_key = None\<rparr>"

lemma sample_generated: "\<exists>fs ca. ca_LoadOrCreate toy_x509 sample_ca_env ''d'' no_files = (fs, Inr ca)"
  by (simp add: ca_LoadOrCreate_def no_files_def sample_ca_env_def generate_def toy_x509_def Let_def)

lemma sample_host: "validAltHostname ''a.alt''" "sni_host ''A.alt'' = Some ''a.alt''" "sni_host ''a.alt'' = Some ''a.alt''"
  by code_simp+

lemma sample_started:
  "\<exists>fs ca. ca_LoadOrCreate toy_x509 sample_ca_env ''d'' no_files = (fs, Inr ca) \<and> ca_cache ca = fmempty \<and> ct_PublicKey (ca_Cert ca) = [1] \<and> ca_Key ca = [1]"
proof -
  obtain fs ca where g: "ca_LoadOrCreate toy_x509 sample_ca_env ''d'' no_files = (fs, Inr ca)" using sample_generated by blast
  then have "ca_Key ca = [1]" by (auto simp: ca_LoadOrCreate_def no_files_def sample_ca_env_def generate_def toy_x509_def Let_def)
  moreover from ca_LoadOrCreate_Inr [OF toy_x509_ok g] have "ca_cache ca = fmempty" "ct_PublicKey (ca_Cert ca) = ec_Public toy_x509 (ca_Key ca)"
    by (simp_all add: no_files_def)
  ultimately show ?thesis using g by (simp add: toy_x509_def)
qed

lemma sample_issued:
  assumes "ca_cache ca = fmempty" and "ct_PublicKey (ca_Cert ca) = [1]" and "ca_Key ca = [1]"
  shows "\<exists>cert. Issue toy_x509 sample_ca_env ca ''a.alt'' = (ca\<lparr>ca_cache := fmupd ''a.alt'' cert fmempty\<rparr>, Inr cert)"
  using assms sample_host(1) by (simp add: Issue_def sample_ca_env_def toy_x509_def Let_def)

theorem altca_certificates_witness:
  "\<exists>fs ca ca' cert leaf. ca_LoadOrCreate toy_x509 sample_ca_env ''d'' no_files = (fs, Inr ca)
    \<and> tls_hellos toy_x509 ca [(sample_ca_env, ''A.alt'')] = (ca', [(''A.alt'', Inr cert)]) \<and> hd (tc_Certificate cert) = ct_Raw leaf
    \<and> DNSNames (ct_Template (leaf :: Certificate)) = [''a.alt'']"
proof -
  obtain fs ca where s: "ca_LoadOrCreate toy_x509 sample_ca_env ''d'' no_files = (fs, Inr ca)" "ca_cache ca = fmempty"
    "ct_PublicKey (ca_Cert ca) = [1]" "ca_Key ca = [1]" using sample_started by blast
  obtain cert where "Issue toy_x509 sample_ca_env ca ''a.alt'' = (ca\<lparr>ca_cache := fmupd ''a.alt'' cert fmempty\<rparr>, Inr cert)"
    using sample_issued [OF s(2-4)] by blast
  then have t: "tls_hellos toy_x509 ca [(sample_ca_env, ''A.alt'')] = (ca\<lparr>ca_cache := fmupd ''a.alt'' cert fmempty\<rparr>, [(''A.alt'', Inr cert)])"
    by (simp add: GetCertificate_def sample_host)
  have "(''A.alt'', Inr cert) \<in> set [(''A.alt'', Inr cert)]" by simp
  from altca_certificates [OF toy_x509_ok s(1) t this] obtain leaf :: Certificate and pre where
    "tc_Certificate cert = [ct_Raw leaf, ct_Raw (ca_Cert ca)]" "sni_host ''A.alt'' = Some (pre @ ''.alt'')" "DNSNames (ct_Template leaf) = [pre @ ''.alt'']"
    by blast
  then have "hd (tc_Certificate cert) = ct_Raw leaf" "DNSNames (ct_Template leaf) = [''a.alt'']" by (simp_all add: sample_host)
  with s(1) t show ?thesis by blast
qed

theorem altca_restart_witness:
  "\<exists>fs ca fs2 ca2. ca_LoadOrCreate toy_x509 sample_ca_env ''d'' no_files = (fs, Inr ca) \<and> ca_LoadOrCreate toy_x509 sample_ca_env ''d'' fs = (fs2, Inr ca2)
    \<and> ca_Cert ca2 = ca_Cert ca \<and> f_key fs2 = f_key fs"
proof -
  obtain fs ca where s: "ca_LoadOrCreate toy_x509 sample_ca_env ''d'' no_files = (fs, Inr ca)" using sample_generated by blast
  from altca_restart [OF toy_x509_ok s, of sample_ca_env "''d''"] s show ?thesis by (auto simp: sample_ca_env_def)
qed

definition sample_entry :: RegistrationRecord where
  "sample_entry = \<lparr>rr_Name = ''a.alt'', rr_Root = Hex sample_root, rr_Owner = ''me'', rr_RegisteredAt = 0, rr_UpdatedAt = 0, rr_Version = 1\<rparr>"

lemma sample_entry_fine: "record_fine ''a.alt'' sample_entry"
proof -
  have "validName ''a.alt'' = None" "CanonicalName ''a.alt'' = ''a.alt''" "HasSuffix ''a.alt'' ''.alt''" by code_simp+
  then show ?thesis by (simp add: record_fine_def sample_entry_def int64_def utf8_ascii ascii_def)
qed

theorem registered_https_witness:
  "\<exists>fs ca. ca_LoadOrCreate toy_x509 sample_ca_env ''d'' no_files = (fs, Inr ca) \<and> (\<exists>ca' cert. GetCertificate toy_x509 sample_ca_env ca ''a.alt'' = (ca', Inr cert))"
proof -
  obtain fs ca where s: "ca_LoadOrCreate toy_x509 sample_ca_env ''d'' no_files = (fs, Inr ca)" using sample_generated by blast
  obtain crt key where f: "f_crt fs = Some crt" "f_key fs = Some key" "parseCA toy_x509 crt key = Inr (ca\<lparr>ca_dir := []\<rparr>)"
    using ca_LoadOrCreate_Inr [OF toy_x509_ok s] by blast
  have e: "ce_mkdir sample_ca_env" "ce_crt_readable sample_ca_env" "ce_key_readable sample_ca_env" "ce_key sample_ca_env = Some [1]"
    "ce_serial sample_ca_env = Some 1" "ce_now sample_ca_env = Hour" by (simp_all add: sample_ca_env_def)
  have d: "ca_dir ca = ''d''" using s by (auto simp: ca_LoadOrCreate_def no_files_def sample_ca_env_def generate_def toy_x509_def Let_def)
  obtain cer where l: "ca_LoadOrCreate toy_x509 sample_ca_env ''d'' fs = (fs\<lparr>f_cer := cer\<rparr>, Inr ca)"
    using ca_LoadOrCreate_loads [OF f e(1-3), of "''d''"] d by auto
  let ?reg = "sample_registrar\<lparr>rg_registry := Some (fmupd ''a.alt'' (Some sample_entry) fmempty)\<rparr>"
  have reg: "registry_fine (rg_registry ?reg)" "reg_lookup ?reg ''a.alt'' = Some (Some sample_entry)"
    using sample_entry_fine by (auto simp: registry_fine_def reg_lookup_def)
  have "f_crt no_files = None" "tls_hellos toy_x509 ca [] = (ca, [])" "(0 :: int) < 1" "Hour \<le> ce_now sample_ca_env"
    "int64 (ce_now sample_ca_env + 394 * 24 * Hour + 23 * Hour)" by (simp_all add: no_files_def e(6) int64_def Hour_def Second_def)
  from registered_https [OF toy_x509_ok s this(1) l e(2,3) this(2) reg e(4,5) this(3-5)] s show ?thesis by blast
qed

theorem altca_half_written_witness:
  "\<exists>fs1 fs2 ca. ca_LoadOrCreate toy_x509 (sample_ca_env\<lparr>ce_keyfile := NotOpened\<rparr>) ''d'' (no_files\<lparr>f_key := Some (pem_Encode toy_x509 [] [2])\<rparr>) = (fs1, Inl CaWrite)
    \<and> ca_LoadOrCreate toy_x509 sample_ca_env ''d'' fs1 = (fs2, Inr ca) \<and> (\<exists>x. snd (GetCertificate toy_x509 sample_ca_env ca ''a.alt'') = Inl x)"
proof -
  let ?e = "sample_ca_env\<lparr>ce_keyfile := NotOpened\<rparr>" and ?fs = "no_files\<lparr>f_key := Some (pem_Encode toy_x509 [] [2])\<rparr>"
  have e: "f_key ?fs = Some (pem_Encode toy_x509 [] [2])" "pem_Decode toy_x509 (pem_Encode toy_x509 [] [2]) = Some ([], [2])"
    "ec_Parse toy_x509 [2] = Some [2]" "f_crt ?fs = None" "ce_mkdir ?e" "ce_key ?e = Some [1]" "ce_serial ?e = Some 1"
    "ec_Marshal toy_x509 [1] = Some [1]" "ce_crt ?e = WriteOk" "ce_keyfile ?e = NotOpened" "ec_Public toy_x509 [2] \<noteq> ec_Public toy_x509 [1]"
    "ce_mkdir sample_ca_env" "ce_crt_readable sample_ca_env" "ce_key_readable sample_ca_env"
    by (simp_all add: no_files_def sample_ca_env_def toy_x509_def)
  obtain der where "x_Create toy_x509 (ce_rnd ?e) (ca_template 1 (ce_now ?e - Hour)) (ca_template 1 (ce_now ?e - Hour)) None (ec_Public toy_x509 [1]) [1] = Some der"
    by (simp add: toy_x509_def)
  from altca_half_written [OF toy_x509_ok e(1-7) this e(8-14), of "''d''"] obtain fs1 fs2 ca where
    "ca_LoadOrCreate toy_x509 ?e ''d'' ?fs = (fs1, Inl CaWrite)" "ca_LoadOrCreate toy_x509 sample_ca_env ''d'' fs1 = (fs2, Inr ca)"
    "snd (GetCertificate toy_x509 sample_ca_env ca ''a.alt'') \<noteq> Inr cert" for cert by blast
  then show ?thesis by (cases "snd (GetCertificate toy_x509 sample_ca_env ca ''a.alt'')") blast+
qed

theorem altca_expired_witness:
  "\<exists>c cert leaf. snd (Issue toy_x509 (sample_ca_env\<lparr>ce_now := 396 * 24 * Hour\<rparr>) c ''a.alt'') = Inr cert
    \<and> hd (tc_Certificate cert) = ct_Raw leaf \<and> NotAfter (ct_Template (leaf :: Certificate)) < 396 * 24 * Hour"
proof -
  obtain fs ca where s: "ca_LoadOrCreate toy_x509 sample_ca_env ''d'' no_files = (fs, Inr ca)" "ca_cache ca = fmempty"
    "ct_PublicKey (ca_Cert ca) = [1]" "ca_Key ca = [1]" using sample_started by blast
  obtain cert where i: "Issue toy_x509 sample_ca_env ca ''a.alt'' = (ca\<lparr>ca_cache := fmupd ''a.alt'' cert fmempty\<rparr>, Inr cert)"
    using sample_issued [OF s(2-4)] by blast
  have "ce_now sample_ca_env + 395 * 24 * Hour \<le> ce_now (sample_ca_env\<lparr>ce_now := 396 * 24 * Hour\<rparr>)"
    by (simp add: sample_ca_env_def Hour_def Second_def)
  from altca_expired [OF toy_x509_ok _ i this] s(2) obtain leaf where
    l: "Issue toy_x509 (sample_ca_env\<lparr>ce_now := 396 * 24 * Hour\<rparr>) (ca\<lparr>ca_cache := fmupd ''a.alt'' cert fmempty\<rparr>) ''a.alt''
      = (ca\<lparr>ca_cache := fmupd ''a.alt'' cert fmempty\<rparr>, Inr cert)" "hd (tc_Certificate cert) = ct_Raw leaf" "x_Parse toy_x509 (ct_Raw leaf) = Some leaf"
    "NotAfter (ct_Template leaf) < 396 * 24 * Hour" by auto
  show ?thesis using l
    by (intro exI [of _ "ca\<lparr>ca_cache := fmupd ''a.alt'' cert fmempty\<rparr>"] exI [of _ cert] exI [of _ leaf]) simp
qed

end
