(* ===== verification/Flights.thy ===== *)
theory Flights
  imports Dht_Lookup
begin

text \<open>
  \<^verbatim>\<open>core/dht/dht.go\<close>, \<^verbatim>\<open>get\<close>: concurrent reads of one key share one walk. The first caller enters a
  flight into a map, walks, takes the flight out of the map and closes its channel; a caller that finds
  a flight waits for the channel and takes its result. Each of these is a step, because the lock is
  held for one of them at a time, and the steps of different callers interleave in any order, with
  other operations on the node in between.
\<close>

section \<open>Definitions\<close>

text \<open>
  How far a flight has come: its first caller walks, has the result, has taken the flight out of the
  map, has closed the channel.
\<close>

datatype phase =
    Walking
  | Walked "get_error + bytes"
  | Unlisted "get_error + bytes"
  | Closed "get_error + bytes"

record flight =
  fl_key :: NodeID
  fl_verify :: bool
  fl_phase :: phase

record get_call =
  gc_key :: NodeID
  gc_verify :: bool
  gc_flight :: nat
  gc_result :: "(get_error + bytes) option"

text \<open>Flights and calls in the order in which they began; a flight is referred to by its position.\<close>

record flights =
  fs_d :: DHT
  inflightGet :: "(string, nat) fmap"
  fs_flights :: "flight list"
  fs_calls :: "get_call list"

definition cacheKey :: "NodeID \<Rightarrow> bool \<Rightarrow> string" where
  "cacheKey key verify = Hex key @ (if verify then '':v'' else '':u'')"

definition get_enter :: "NodeID \<Rightarrow> bool \<Rightarrow> flights \<Rightarrow> flights" where
  "get_enter key verify s =
     (case fmlookup (inflightGet s) (cacheKey key verify) of
        Some existing \<Rightarrow>
          s\<lparr>fs_calls := fs_calls s @ [\<lparr>gc_key = key, gc_verify = verify, gc_flight = existing, gc_result = None\<rparr>]\<rparr>
      | None \<Rightarrow>
          let inf = length (fs_flights s)
          in s\<lparr>inflightGet := fmupd (cacheKey key verify) inf (inflightGet s),
               fs_flights := fs_flights s @ [\<lparr>fl_key = key, fl_verify = verify, fl_phase = Walking\<rparr>],
               fs_calls := fs_calls s @ [\<lparr>gc_key = key, gc_verify = verify, gc_flight = inf, gc_result = None\<rparr>]\<rparr>)"

definition set_phase :: "nat \<Rightarrow> phase \<Rightarrow> flights \<Rightarrow> flights" where
  "set_phase f p s = s\<lparr>fs_flights := (fs_flights s)[f := (fs_flights s ! f)\<lparr>fl_phase := p\<rparr>]\<rparr>"

definition get_walk :: "henv \<Rightarrow> (nat \<Rightarrow> round_env) \<Rightarrow> nat \<Rightarrow> flights \<Rightarrow> flights" where
  "get_walk h env f s =
     (case getInner h env (fs_d s) (fl_key (fs_flights s ! f)) (fl_verify (fs_flights s ! f)) of
        (d, r) \<Rightarrow> (set_phase f (Walked r) s)\<lparr>fs_d := d\<rparr>)"

definition get_unlist :: "nat \<Rightarrow> get_error + bytes \<Rightarrow> flights \<Rightarrow> flights" where
  "get_unlist f r s =
     (set_phase f (Unlisted r) s)
       \<lparr>inflightGet := fmdrop (cacheKey (fl_key (fs_flights s ! f)) (fl_verify (fs_flights s ! f))) (inflightGet s)\<rparr>"

definition get_close :: "nat \<Rightarrow> get_error + bytes \<Rightarrow> flights \<Rightarrow> flights" where
  "get_close f r s = set_phase f (Closed r) s"

definition get_return :: "nat \<Rightarrow> get_error + bytes \<Rightarrow> flights \<Rightarrow> flights" where
  "get_return c r s = s\<lparr>fs_calls := (fs_calls s)[c := (fs_calls s ! c)\<lparr>gc_result := Some r\<rparr>]\<rparr>"

text \<open>The steps. All walks use the hash function of the node, \<open>p\<close>; anything else may change the node in between.\<close>

inductive flight_step :: "prims \<Rightarrow> flights \<Rightarrow> flights \<Rightarrow> bool" for p where
  step_enter: "flight_step p s (get_enter key verify s)"
| step_walk: "f < length (fs_flights s) \<Longrightarrow> fl_phase (fs_flights s ! f) = Walking \<Longrightarrow>
    h_prims h = p \<Longrightarrow> \<forall>r. re_prims (env r) = p \<Longrightarrow> flight_step p s (get_walk h env f s)"
| step_unlist: "f < length (fs_flights s) \<Longrightarrow> fl_phase (fs_flights s ! f) = Walked r \<Longrightarrow> flight_step p s (get_unlist f r s)"
| step_close: "f < length (fs_flights s) \<Longrightarrow> fl_phase (fs_flights s ! f) = Unlisted r \<Longrightarrow> flight_step p s (get_close f r s)"
| step_return: "c < length (fs_calls s) \<Longrightarrow> fl_phase (fs_flights s ! gc_flight (fs_calls s ! c)) = Closed r \<Longrightarrow>
    flight_step p s (get_return c r s)"
| step_other: "flight_step p s (s\<lparr>fs_d := d\<rparr>)"

inductive_cases flight_stepE: "flight_step p s t"

definition no_flights :: "DHT \<Rightarrow> flights" where
  "no_flights d = \<lparr>fs_d = d, inflightGet = fmempty, fs_flights = [], fs_calls = []\<rparr>"

section \<open>The invariant\<close>

lemma cacheKey_inj: "cacheKey k v = cacheKey k' v' \<longleftrightarrow> k = k' \<and> v = v'"
  by (auto simp: cacheKey_def Hex_inj)

fun listed :: "phase \<Rightarrow> bool" where
  "listed Walking = True"
| "listed (Walked _) = True"
| "listed _ = False"

fun phase_result :: "phase \<Rightarrow> (get_error + bytes) option" where
  "phase_result Walking = None"
| "phase_result (Walked r) = Some r"
| "phase_result (Unlisted r) = Some r"
| "phase_result (Closed r) = Some r"

definition flight_ok :: "prims \<Rightarrow> flight \<Rightarrow> bool" where
  "flight_ok p fl \<longleftrightarrow> (\<forall>v. fl_verify fl \<and> phase_result (fl_phase fl) = Some (Inr v) \<longrightarrow> ContentAddress (sha256 p) v = fl_key fl)"

definition call_ok :: "flight list \<Rightarrow> get_call \<Rightarrow> bool" where
  "call_ok fls c \<longleftrightarrow> gc_flight c < length fls \<and> fl_key (fls ! gc_flight c) = gc_key c \<and> fl_verify (fls ! gc_flight c) = gc_verify c
     \<and> (\<forall>r. gc_result c = Some r \<longrightarrow> fl_phase (fls ! gc_flight c) = Closed r)"

text \<open>The map holds exactly the flights that have not been taken out.\<close>

definition map_ok :: "flights \<Rightarrow> bool" where
  "map_ok s \<longleftrightarrow> (\<forall>ck f. fmlookup (inflightGet s) ck = Some f \<longleftrightarrow>
     f < length (fs_flights s) \<and> listed (fl_phase (fs_flights s ! f)) \<and> ck = cacheKey (fl_key (fs_flights s ! f)) (fl_verify (fs_flights s ! f)))"

definition flights_inv :: "prims \<Rightarrow> flights \<Rightarrow> bool" where
  "flights_inv p s \<longleftrightarrow> map_ok s \<and> list_all (flight_ok p) (fs_flights s) \<and> list_all (call_ok (fs_flights s)) (fs_calls s)"

lemma flights_inv_node [simp]: "flights_inv p (s\<lparr>fs_d := d\<rparr>) = flights_inv p s"
  by (simp add: flights_inv_def map_ok_def)

lemma call_ok_append: "call_ok fls c \<Longrightarrow> call_ok (fls @ xs) c"
  by (auto simp: call_ok_def nth_append)

lemma flights_inv_enter: "flights_inv p s \<Longrightarrow> flights_inv p (get_enter key verify s)"
proof (cases "fmlookup (inflightGet s) (cacheKey key verify)")
  case None
  assume i: "flights_inv p s"
  have "map_ok (get_enter key verify s)"
    unfolding map_ok_def
  proof (intro allI)
    fix ck f
    have m: "fmlookup (inflightGet s) x = Some g \<longleftrightarrow> g < length (fs_flights s) \<and> listed (fl_phase (fs_flights s ! g))
        \<and> x = cacheKey (fl_key (fs_flights s ! g)) (fl_verify (fs_flights s ! g))" for x g
      using i by (simp add: flights_inv_def map_ok_def)
    show "fmlookup (inflightGet (get_enter key verify s)) ck = Some f \<longleftrightarrow>
        f < length (fs_flights (get_enter key verify s)) \<and> listed (fl_phase (fs_flights (get_enter key verify s) ! f))
        \<and> ck = cacheKey (fl_key (fs_flights (get_enter key verify s) ! f)) (fl_verify (fs_flights (get_enter key verify s) ! f))"
      using None m [of ck f] m [of "cacheKey key verify" f]
      by (auto simp: get_enter_def Let_def nth_append less_Suc_eq)
  qed
  moreover have "list_all (call_ok (fs_flights (get_enter key verify s))) (fs_calls (get_enter key verify s))"
    using i None by (auto simp: flights_inv_def get_enter_def Let_def list_all_iff call_ok_append) (simp add: call_ok_def)
  ultimately show ?thesis using i None
    by (simp add: flights_inv_def get_enter_def Let_def flight_ok_def)
next
  case (Some g)
  assume i: "flights_inv p s"
  with Some have "g < length (fs_flights s)" "cacheKey key verify = cacheKey (fl_key (fs_flights s ! g)) (fl_verify (fs_flights s ! g))"
    unfolding flights_inv_def map_ok_def by blast+
  then have c: "call_ok (fs_flights s) \<lparr>gc_key = key, gc_verify = verify, gc_flight = g, gc_result = None\<rparr>"
    by (simp add: call_ok_def cacheKey_inj)
  have "get_enter key verify s = s\<lparr>fs_calls := fs_calls s @ [\<lparr>gc_key = key, gc_verify = verify, gc_flight = g, gc_result = None\<rparr>]\<rparr>"
    using Some by (simp add: get_enter_def)
  then show ?thesis using i c by (simp add: flights_inv_def map_ok_def)
qed

text \<open>A step of a flight that has not closed its channel: no call has returned with its result.\<close>

lemma call_ok_phase:
  assumes "call_ok fls c" and "\<And>r. fl_phase (fls ! f) = Closed r \<Longrightarrow> q = Closed r"
  shows "call_ok (fls[f := (fls ! f)\<lparr>fl_phase := q\<rparr>]) c"
  using assms by (cases "f < length fls"; cases "gc_flight c = f") (auto simp: call_ok_def)

lemma flights_inv_phase:
  assumes "flights_inv p s" and "f < length (fs_flights s)" and "\<And>r. fl_phase (fs_flights s ! f) \<noteq> Closed r"
    and "flight_ok p ((fs_flights s ! f)\<lparr>fl_phase := q\<rparr>)" and "listed q = listed (fl_phase (fs_flights s ! f))"
  shows "flights_inv p (set_phase f q s)"
proof -
  have "map_ok (set_phase f q s)" unfolding map_ok_def
  proof (intro allI)
    fix ck g
    show "fmlookup (inflightGet (set_phase f q s)) ck = Some g \<longleftrightarrow>
        g < length (fs_flights (set_phase f q s)) \<and> listed (fl_phase (fs_flights (set_phase f q s) ! g))
        \<and> ck = cacheKey (fl_key (fs_flights (set_phase f q s) ! g)) (fl_verify (fs_flights (set_phase f q s) ! g))"
      using assms(1,2,5) by (cases "g = f") (auto simp: flights_inv_def map_ok_def set_phase_def)
  qed
  moreover have "list_all (call_ok (fs_flights (set_phase f q s))) (fs_calls (set_phase f q s))"
    using assms(1,3) by (auto simp: flights_inv_def set_phase_def list_all_iff intro: call_ok_phase)
  moreover have "list_all (flight_ok p) (fs_flights (set_phase f q s))"
    using assms(1,4) by (auto simp: flights_inv_def set_phase_def list_all_iff dest!: set_update_subset_insert [THEN subsetD])
  ultimately show ?thesis by (simp add: flights_inv_def)
qed

lemma flights_inv_unlist:
  assumes "flights_inv p s" and "f < length (fs_flights s)" and "fl_phase (fs_flights s ! f) = Walked r"
  shows "flights_inv p (get_unlist f r s)"
proof -
  have m: "fmlookup (inflightGet s) x = Some g \<longleftrightarrow> g < length (fs_flights s) \<and> listed (fl_phase (fs_flights s ! g))
      \<and> x = cacheKey (fl_key (fs_flights s ! g)) (fl_verify (fs_flights s ! g))" for x g
    using assms(1) by (simp add: flights_inv_def map_ok_def)
  let ?ck = "cacheKey (fl_key (fs_flights s ! f)) (fl_verify (fs_flights s ! f))"
  have f: "fmlookup (inflightGet s) ?ck = Some f" using assms(2,3) by (simp add: m)
  have "map_ok (get_unlist f r s)" unfolding map_ok_def
  proof (intro allI)
    fix ck g
    show "fmlookup (inflightGet (get_unlist f r s)) ck = Some g \<longleftrightarrow>
        g < length (fs_flights (get_unlist f r s)) \<and> listed (fl_phase (fs_flights (get_unlist f r s) ! g))
        \<and> ck = cacheKey (fl_key (fs_flights (get_unlist f r s) ! g)) (fl_verify (fs_flights (get_unlist f r s) ! g))"
      using m [of ck g] m [of ?ck g] f assms(2) by (cases "g = f") (auto simp: get_unlist_def set_phase_def)
  qed
  moreover have "list_all (call_ok (fs_flights (get_unlist f r s))) (fs_calls (get_unlist f r s))"
    using assms(1,3) by (auto simp: flights_inv_def get_unlist_def set_phase_def list_all_iff intro: call_ok_phase)
  moreover have "flight_ok p ((fs_flights s ! f)\<lparr>fl_phase := Unlisted r\<rparr>)"
    using assms by (auto simp: flights_inv_def list_all_length flight_ok_def)
  then have "list_all (flight_ok p) (fs_flights (get_unlist f r s))"
    using assms(1) by (auto simp: flights_inv_def get_unlist_def set_phase_def list_all_iff dest!: set_update_subset_insert [THEN subsetD])
  ultimately show ?thesis by (simp add: flights_inv_def)
qed

lemma flights_inv_step: "flights_inv p s \<Longrightarrow> flight_step p s t \<Longrightarrow> flights_inv p t"
proof (elim flight_stepE)
  fix f h env assume s: "flights_inv p s" "t = get_walk h env f s" "f < length (fs_flights s)" "fl_phase (fs_flights s ! f) = Walking"
    "h_prims h = p" "\<forall>r. re_prims (env r) = p"
  obtain d r where g: "getInner h env (fs_d s) (fl_key (fs_flights s ! f)) (fl_verify (fs_flights s ! f)) = (d, r)" by fastforce
  have "flight_ok p ((fs_flights s ! f)\<lparr>fl_phase := Walked r\<rparr>)"
    using g s(5,6) getInner_verifies [of h env "fs_d s" "fl_key (fs_flights s ! f)" d] by (auto simp: flight_ok_def)
  then have "flights_inv p (set_phase f (Walked r) s)" using s by (intro flights_inv_phase) auto
  then show "flights_inv p t" using s(2) g by (simp add: get_walk_def flights_inv_def map_ok_def)
next
  fix f r assume s: "flights_inv p s" "t = get_close f r s" "f < length (fs_flights s)" "fl_phase (fs_flights s ! f) = Unlisted r"
  then have "flight_ok p ((fs_flights s ! f)\<lparr>fl_phase := Closed r\<rparr>)" by (auto simp: flights_inv_def list_all_length flight_ok_def)
  with s show "flights_inv p t" unfolding get_close_def by (auto intro: flights_inv_phase)
next
  fix c r assume s: "flights_inv p s" "t = get_return c r s" "c < length (fs_calls s)"
    "fl_phase (fs_flights s ! gc_flight (fs_calls s ! c)) = Closed r"
  then have "call_ok (fs_flights s) ((fs_calls s ! c)\<lparr>gc_result := Some r\<rparr>)" by (auto simp: flights_inv_def list_all_length call_ok_def)
  with s show "flights_inv p t"
    by (auto simp: flights_inv_def get_return_def map_ok_def list_all_iff dest!: set_update_subset_insert [THEN subsetD])
qed (simp_all add: flights_inv_enter flights_inv_unlist)

interpretation flights_run: step_invariant "flight_step p" "flights_inv p" for p
  by unfold_locales (rule flights_inv_step)

lemma no_flights_inv: "flights_inv p (no_flights d)"
  by (simp add: flights_inv_def no_flights_def map_ok_def)

lemma set_phase_simps [simp]:
  "fs_calls (set_phase f q s) = fs_calls s" "fs_d (set_phase f q s) = fs_d s" "inflightGet (set_phase f q s) = inflightGet s"
  "length (fs_flights (set_phase f q s)) = length (fs_flights s)"
  "f < length (fs_flights s) \<Longrightarrow> fl_phase (fs_flights (set_phase f q s) ! f) = q"
  by (simp_all add: set_phase_def)

text \<open>What the first caller of a flight does next.\<close>

definition flight_advance :: "henv \<Rightarrow> (nat \<Rightarrow> round_env) \<Rightarrow> nat \<Rightarrow> flights \<Rightarrow> flights" where
  "flight_advance h env f s =
     (case fl_phase (fs_flights s ! f) of
        Walking \<Rightarrow> get_walk h env f s
      | Walked r \<Rightarrow> get_unlist f r s
      | Unlisted r \<Rightarrow> get_close f r s
      | Closed _ \<Rightarrow> s)"

fun steps_left :: "phase \<Rightarrow> nat" where
  "steps_left Walking = 3"
| "steps_left (Walked _) = 2"
| "steps_left (Unlisted _) = 1"
| "steps_left (Closed _) = 0"

lemma flight_advance_step:
  assumes "f < length (fs_flights s)" and "h_prims h = p" and "\<forall>r. re_prims (env r) = p"
  shows "(flight_step p)\<^sup>*\<^sup>* s (flight_advance h env f s)" "fs_calls (flight_advance h env f s) = fs_calls s"
    "length (fs_flights (flight_advance h env f s)) = length (fs_flights s)"
    "steps_left (fl_phase (fs_flights (flight_advance h env f s) ! f)) = steps_left (fl_phase (fs_flights s ! f)) - 1"
proof -
  show "(flight_step p)\<^sup>*\<^sup>* s (flight_advance h env f s)"
  proof (cases "fl_phase (fs_flights s ! f)")
    case Walking
    with step_walk [OF assms(1) Walking assms(2,3)] show ?thesis by (simp add: flight_advance_def)
  next
    case (Walked r)
    with step_unlist [OF assms(1) Walked, of p] show ?thesis by (simp add: flight_advance_def)
  next
    case (Unlisted r)
    with step_close [OF assms(1) Unlisted, of p] show ?thesis by (simp add: flight_advance_def)
  qed (simp add: flight_advance_def)
qed (use assms(1) in \<open>auto simp: flight_advance_def get_walk_def get_unlist_def get_close_def set_phase_def split: phase.splits prod.splits\<close>)

lemma flight_closes:
  assumes "f < length (fs_flights s)" and "h_prims h = p" and "\<forall>r. re_prims (env r) = p"
  defines "t \<equiv> (flight_advance h env f ^^ 3) s"
  shows "(flight_step p)\<^sup>*\<^sup>* s t \<and> fs_calls t = fs_calls s \<and> (\<exists>r. fl_phase (fs_flights t ! f) = Closed r)"
proof -
  have run: "(flight_step p)\<^sup>*\<^sup>* s ((flight_advance h env f ^^ n) s) \<and> fs_calls ((flight_advance h env f ^^ n) s) = fs_calls s
      \<and> length (fs_flights ((flight_advance h env f ^^ n) s)) = length (fs_flights s)
      \<and> steps_left (fl_phase (fs_flights ((flight_advance h env f ^^ n) s) ! f)) = steps_left (fl_phase (fs_flights s ! f)) - n" for n
    by (induction n) (use assms(1-3) flight_advance_step [of f _ h p env] in \<open>auto intro: rtranclp_trans\<close>)
  have "steps_left q \<le> 3" "steps_left q = 0 \<longleftrightarrow> (\<exists>r. q = Closed r)" for q by (cases q; simp)+
  with run [of 3] show ?thesis unfolding t_def by auto
qed

section \<open>Properties\<close>


text \<open>
  Nobody waits for ever. In every reachable state each read that has not returned gets a result
  after at most three more steps of the first caller of its flight, whatever its walk gives: no caller
  is left behind by a flight that ends.
\<close>

theorem coalesced_get_returns:
  assumes "(flight_step p)\<^sup>*\<^sup>* (no_flights d) s" and "c < length (fs_calls s)" and "h_prims h = p" and "\<forall>r. re_prims (env r) = p"
  shows "\<exists>r. let t = (flight_advance h env (gc_flight (fs_calls s ! c)) ^^ 3) s
    in flight_step p t (get_return c r t) \<and> (flight_step p)\<^sup>*\<^sup>* s (get_return c r t) \<and> gc_result (fs_calls (get_return c r t) ! c) = Some r"
proof -
  have "flights_inv p s" using flights_run.run_inv [OF assms(1)] no_flights_inv by blast
  with assms(2) have "gc_flight (fs_calls s ! c) < length (fs_flights s)" by (simp add: flights_inv_def list_all_length call_ok_def)
  note t = flight_closes [OF this assms(3,4)]
  let ?t = "(flight_advance h env (gc_flight (fs_calls s ! c)) ^^ 3) s"
  from t obtain r where r: "fl_phase (fs_flights ?t ! gc_flight (fs_calls s ! c)) = Closed r" by blast
  have "flight_step p ?t (get_return c r ?t)" using t r assms(2) by (intro step_return) auto
  moreover from this t have "(flight_step p)\<^sup>*\<^sup>* s (get_return c r ?t)" by (meson rtranclp.rtrancl_into_rtrancl)
  moreover have "gc_result (fs_calls (get_return c r ?t) ! c) = Some r" using assms(2) t by (simp add: get_return_def)
  ultimately show ?thesis unfolding Let_def by blast
qed

text \<open>
  A read that joins a flight does not consult the blocklist. When a key is blocked after its walk has
  found the value and before the flight is taken out of the map, a read that begins afterwards returns the value.
\<close>

theorem joined_get_ignores_block:
  assumes "flights_inv p s" and "f < length (fs_flights s)" and "fl_phase (fs_flights s ! f) = Walked (Inr v)"
  shows "\<exists>t. (flight_step p)\<^sup>*\<^sup>* (get_enter (fl_key (fs_flights s ! f)) (fl_verify (fs_flights s ! f)) (s\<lparr>fs_d := d\<rparr>)) t
    \<and> gc_result (fs_calls t ! length (fs_calls s)) = Some (Inr v)"
proof -
  let ?c = "\<lparr>gc_key = fl_key (fs_flights s ! f), gc_verify = fl_verify (fs_flights s ! f), gc_flight = f, gc_result = None\<rparr>"
  let ?s = "s\<lparr>fs_d := d, fs_calls := fs_calls s @ [?c]\<rparr>"
  have "fmlookup (inflightGet s) (cacheKey (fl_key (fs_flights s ! f)) (fl_verify (fs_flights s ! f))) = Some f"
    using assms by (simp add: flights_inv_def map_ok_def)
  then have e: "get_enter (fl_key (fs_flights s ! f)) (fl_verify (fs_flights s ! f)) (s\<lparr>fs_d := d\<rparr>) = ?s" by (simp add: get_enter_def)
  let ?u = "get_unlist f (Inr v) ?s"
  have u: "flight_step p ?s ?u" using assms(2,3) by (intro step_unlist) simp_all
  have "f < length (fs_flights ?u)" "fl_phase (fs_flights ?u ! f) = Unlisted (Inr v)" using assms(2) by (simp_all add: get_unlist_def set_phase_def)
  then have c: "flight_step p ?u (get_close f (Inr v) ?u)" by (rule step_close)
  let ?x = "get_close f (Inr v) ?u" and ?n = "length (fs_calls s)"
  have x: "fs_calls ?x = fs_calls s @ [?c]" "fl_phase (fs_flights ?x ! f) = Closed (Inr v)"
    using assms(2) by (simp_all add: get_close_def get_unlist_def set_phase_def)
  have "flight_step p ?x (get_return ?n (Inr v) ?x)" using x by (intro step_return) simp_all
  with u c have "(flight_step p)\<^sup>*\<^sup>* ?s (get_return ?n (Inr v) ?x)" by (meson converse_rtranclp_into_rtranclp rtranclp.rtrancl_refl)
  moreover have "gc_result (fs_calls (get_return ?n (Inr v) ?x) ! ?n) = Some (Inr v)" using x by (simp add: get_return_def)
  ultimately show ?thesis unfolding e by blast
qed

section \<open>Two reads\<close>

definition two_reads :: flights where
  "two_reads = get_enter sample_key True (get_enter sample_key True (no_flights sample_known))"

lemma two_reads_reachable: "(flight_step toy_prims)\<^sup>*\<^sup>* (no_flights sample_known) two_reads"
  unfolding two_reads_def by (meson step_enter converse_rtranclp_into_rtranclp rtranclp.rtrancl_refl)

lemma two_reads_simps:
  "fs_flights two_reads = [\<lparr>fl_key = sample_key, fl_verify = True, fl_phase = Walking\<rparr>]"
  "fs_calls two_reads = replicate 2 \<lparr>gc_key = sample_key, gc_verify = True, gc_flight = 0, gc_result = None\<rparr>"
  by (simp_all add: two_reads_def get_enter_def no_flights_def Let_def numeral_2_eq_2)

lemma sample_flight_env: "h_prims sample_henv = toy_prims" "\<forall>r. re_prims (sample_env n a r) = toy_prims"
  by (simp_all add: sample_henv_def sample_env_def)


theorem coalesced_get_returns_witness:
  "\<exists>t. (flight_step toy_prims)\<^sup>*\<^sup>* two_reads t \<and> gc_result (fs_calls t ! 1) \<noteq> None"
proof -
  have "1 < length (fs_calls two_reads)" by (simp add: two_reads_simps)
  from coalesced_get_returns [OF two_reads_reachable this sample_flight_env(1) sample_flight_env(2) [of "\<lambda>_ _. Inr sample_answer" "\<lambda>_ d. d"]]
  show ?thesis unfolding Let_def by auto
qed

theorem joined_get_ignores_block_witness:
  "\<exists>t. (flight_step toy_prims)\<^sup>*\<^sup>* (get_enter sample_key False
      ((no_flights sample_known)\<lparr>fs_flights := [\<lparr>fl_key = sample_key, fl_verify = False, fl_phase = Walked (Inr [7])\<rparr>],
         inflightGet := fmupd (cacheKey sample_key False) 0 fmempty\<rparr>)) t
    \<and> gc_result (fs_calls t ! 0) = Some (Inr [7])"
proof -
  let ?s = "(no_flights sample_known)\<lparr>fs_flights := [\<lparr>fl_key = sample_key, fl_verify = False, fl_phase = Walked (Inr [7])\<rparr>],
         inflightGet := fmupd (cacheKey sample_key False) 0 fmempty\<rparr>"
  have "flights_inv toy_prims ?s" by (auto simp: flights_inv_def map_ok_def flight_ok_def no_flights_def)
  from joined_get_ignores_block [OF this, of 0 "[7]" sample_known] show ?thesis by (simp add: no_flights_def)
qed

end
