(* ===== verification/Spec2Isabelle.thy ===== *)
theory Spec2Isabelle
  imports Maintenance Session Relay Dns Altca Flights
begin

text \<open>
  \<^bold>\<open>AltNet\<close>, a peer-to-peer web: verification of the Go sources under \<^verbatim>\<open>src/\<close>.

  \<^bold>\<open>The program.\<close> A node has an Ed25519 identity (\<^verbatim>\<open>core/crypto\<close>). It connects to other nodes
  (\<^verbatim>\<open>core/peer\<close>) over an encrypted channel (\<^verbatim>\<open>core/secure\<close>), through a relay when it is behind a NAT
  (\<^verbatim>\<open>core/relay\<close>), and exchanges signed JSON messages. On top of this runs a Kademlia table
  (\<^verbatim>\<open>core/dht\<close>): values are stored under their SHA-256 hash and found by iterative lookups; signed
  revokes remove chunks and block them. Name records (\<^verbatim>\<open>core/name\<close>) are signed values under the hash of
  a name, among which readers take the newest acceptable one. Files and directories (\<^verbatim>\<open>apps/files\<close>)
  are trees of chunks. The gateway (\<^verbatim>\<open>apps/gateway\<close>) serves them to browsers, the resolver
  (\<^verbatim>\<open>apps/dns\<close>) sends the browser to the gateway, the registrar (\<^verbatim>\<open>apps/registrar\<close>) publishes, registers
  and takes down sites, and \<^verbatim>\<open>apps/sitestats\<close> counts visits.

  \<^bold>\<open>Conventions.\<close> \<open>Go_Prelude\<close> fixes how Go values are represented. State is a record that operations
  take and return. Errors are values of sums or options, and where the code may panic the result is
  an option with \<open>None\<close> for the panic. What the code obtains from outside is an argument: the clock,
  random bytes, the order in which a map is enumerated, the answers of the network and of the file
  system. Where another goroutine may run during a call, the environment of the call contains an
  arbitrary function or sequence of steps that is applied to the state at this point; theorems either
  hold for every such environment or name what they assume of it. Cryptographic primitives are
  the record \<open>prims\<close> (\<open>Identity\<close>) and its extension \<open>channel_prims\<close> (\<open>Secure\<close>), with their laws in \<open>prims_ok\<close>
  and \<open>channel_ok\<close>, which the concrete \<open>toy_prims\<close> and \<open>toy_channel\<close> satisfy. No theorem assumes that hashes do
  not collide in general: where it matters, the absence of a collision among the named blobs is a
  hypothesis.

  \<^bold>\<open>The library.\<close>
  \<^item> \<open>Go_Prelude\<close>, \<open>Go_Strings\<close>, \<open>Go_Json\<close>, \<open>Http\<close> model what the sources use of Go's standard library:
    strings, decimal numbers, hex, base64, big-endian integers; JSON with its printers, its parser and
    the decoding of structs; requests, responses, addresses and paths. They contain the round trips of
    all encodings, and a bound on the fuel of the JSON parser: for a text of length n, 2n + 1 is
    enough (\<open>parse_fuel\<close>), and this is what \<open>Unmarshal\<close> supplies. All other loops are structural recursions or
    have a termination proof.
  \<^item> \<open>Transitions\<close> has the interfaces of stateful components: \<open>step_invariant\<close> for step relations,
    \<open>handler_invariant\<close> for step functions, \<open>step_refinement\<close> for simulations. Further locales are
    \<open>strict_key\<close> (\<open>Routing\<close>: selection by a strict order), \<open>kv_store\<close> (\<open>Local_Store\<close>: what the DHT relies on of its
    store), \<open>walk_invariant\<close> (\<open>Dht_Lookup\<close>: what a visit of one contact preserves, a whole lookup preserves),
    \<open>verified_get\<close> and \<open>serving_get\<close> (\<open>Files\<close>: what readers of files rely on of the DHT). Each is
    interpreted on the definitions of the model.

  \<^bold>\<open>The components.\<close>
  \<^item> \<open>Node_Ids\<close> (\<^verbatim>\<open>dht/id.go\<close>): identifiers of 32 bytes; the XOR distance is a metric, its bytewise comparison
    compares numbers, and common prefixes bound distances.
  \<^item> \<open>Routing\<close> (\<^verbatim>\<open>dht/routing.go\<close>): the k-buckets, with evictions that wait for a ping while other operations
    run; bucket bounds and placement hold in every reachable state, and \<open>Closest\<close> returns the closest contacts.
  \<^item> \<open>Local_Store\<close> (\<^verbatim>\<open>dht/store.go\<close>): puts with budget and quota, eviction of the least recently used
    values, the mirror on disk with crashes between its writes, loading at start.
  \<^item> \<open>Identity\<close>, \<open>Messages\<close>, \<open>Revocation\<close>, \<open>Blocklists\<close> (\<^verbatim>\<open>crypto\<close>, the message layer of \<^verbatim>\<open>peer.go\<close>,
    \<^verbatim>\<open>dht/revoke.go\<close>, \<^verbatim>\<open>dht/blocklist.go\<close>): keys and their files, signed messages, signed revokes with their
    canonical text, the list of blocked chunks.
  \<^item> \<open>Dht\<close> (\<^verbatim>\<open>dht/dht.go\<close>): the state of the node and all message handlers. Every run from the start keeps
    the invariants of table and store, the one panic is characterised, and revoked chunks never return.
  \<^item> \<open>Dht_Lookup\<close> (\<^verbatim>\<open>dht/dht.go\<close>): requests, the iterative loop, lookup, store and the reads. The loop ends
    and its cost is bounded by the contacts it can learn of; verified reads return only values that hash
    to their key; the result of a lookup is specified.
  \<^item> \<open>Flights\<close> (\<^verbatim>\<open>get\<close> in \<^verbatim>\<open>dht/dht.go\<close>): concurrent reads of one key share one walk, as interleaved steps.
  \<^item> \<open>Maintenance\<close> (\<^verbatim>\<open>dht/maintenance.go\<close>): pinging, republishing, bootstrapping with its backoff.
  \<^item> \<open>Names\<close> (\<^verbatim>\<open>name/name.go\<close>): canonical names, records, the vote over replicas, publishing and resolving.
  \<^item> \<open>Peer_Net\<close> (\<^verbatim>\<open>peer/peer.go\<close>): the maps of connections as an implementation of a routing of addresses to
    connected peers, requests and their replies, hellos.
  \<^item> \<open>Secure\<close> (\<^verbatim>\<open>secure/secure.go\<close>): the handshake, HKDF (equal to its definition in RFC 5869), frames.
    Whatever is put on the wire, what is read is a prefix of what was written. \<open>Session\<close> joins it with the
    message layer: what one peer sends is what the other one handles.
  \<^item> \<open>Relay\<close> (\<^verbatim>\<open>relay/*.go\<close>): the line protocol, the server as interleaved steps of registrations, dials
    and tunnels, the client. Tunnels join the right two ends.
  \<^item> \<open>Files\<close> (\<^verbatim>\<open>files/*.go\<close>): publishing, fetching, streaming, directories. What is read is what was
    published, or an error.
  \<^item> \<open>Rate_Limits\<close> (\<^verbatim>\<open>gateway/ratelimit.go\<close>, \<^verbatim>\<open>dns/ratelimit.go\<close>): both token buckets, over rationals with
    the rounding of floating-point operations as a parameter of bounded error; what an address may do in any window.
  \<^item> \<open>Dns\<close> (\<^verbatim>\<open>dns/dns.go\<close>): parsing, capturing, answering, forwarding.
  \<^item> \<open>Site_Stats\<close> (\<^verbatim>\<open>sitestats/sitestats.go\<close>): the counters are a recount of the log.
  \<^item> \<open>Gateway\<close> (\<^verbatim>\<open>gateway/gateway.go\<close>): routing, serving of files and sections of files, limits. The transfer
    by \<^verbatim>\<open>http.ServeContent\<close> is modelled with the parsed range as an argument.
  \<^item> \<open>Registrar\<close> (\<^verbatim>\<open>registrar/registrar.go\<close>): the registry with its file, all handlers, republishing.
  \<^item> \<open>Altca\<close> (\<^verbatim>\<open>altca/altca.go\<close>): the local certificate authority, over abstract X.509 and ECDSA primitives with
    the laws \<open>x509_ok\<close>: loading or creating it, and issuing certificates for the hosts of TLS connections.

  \<^bold>\<open>Properties.\<close> They are numbered C1 to C40 and stand at the end of the theory of their component. Those
  that span components are in the theory that sees all of them: C1 in \<open>Session\<close> (handshake, channel,
  messages), C3 and C4 in \<open>Gateway\<close> (directory, DHT, names, HTTP), C16 and C17 in \<open>Registrar\<close> (registry,
  names, DHT, files, gateway), C40 in \<open>Altca\<close> (registry, gateway, certificates). The theorems without a number show further properties and the defects that
  the model has brought out, such as \<open>Local_Store.put_double_refund\<close>, \<open>Dht.padded_revoke_voids\<close>,
  \<open>Relay.relay_panics\<close>, \<open>Session.replay_takes_slot\<close> and \<open>Registrar.null_registry_panics\<close>.

  \<^bold>\<open>Not modelled.\<close>
  \<^item> The command line (\<^verbatim>\<open>cli/main.go\<close>): flags, wiring of the parts and console output.
  \<^item> Metrics (\<^verbatim>\<open>apps/metrics\<close>): reads gauges of the other parts and changes no state.
  \<^item> Listening sockets, deadlines, keep-alive, the goroutines and tickers that start an operation, and
    log output. Operations that a timer starts are modelled, the timer is not.
  \<^item> Memory exhaustion and scheduling fairness.
\<close>

end
